(* ===== verification/Prelude.thy ===== *)
theory Prelude
  imports Main "HOL-Library.Word"
begin

text \<open>
  Shared vocabulary of the development: the outcomes of C code that may fault or may not
  return, the C view of character buffers, reachability for step relations, and the generic
  facts on lists and rings that the component theories use.
\<close>

section \<open>Collections of facts\<close>

named_theorems buffer_simps \<open>equations of the C string primitives\<close>
named_theorems ring_simps \<open>index arithmetic of circular buffers\<close>
named_theorems heap_simps \<open>paths through linked nodes\<close>
named_theorems run_simps \<open>composition of outcomes\<close>

section \<open>Outcomes\<close>

text \<open>
  Undefined behaviour is a value, and a run of the model ends with it; the C program may be
  stopped there or go on with overwritten memory, of which nothing is said. A loop over pointers
  need not return, so functions with such loops yield an \<^typ>\<open>'a option\<close>, \<open>None\<close> meaning that
  the call never returns.
\<close>

datatype fault = NullDeref | UseAfterFree | BufferOverflow | OutOfBounds

type_synonym 'a res = "fault + 'a"
type_synonym 'a run = "'a res option"

abbreviation Fault :: "fault \<Rightarrow> 'a res" where "Fault \<equiv> Inl"
abbreviation Ok :: "'a \<Rightarrow> 'a res" where "Ok \<equiv> Inr"

definition res_bind :: "'a res \<Rightarrow> ('a \<Rightarrow> 'b res) \<Rightarrow> 'b res" where
  "res_bind r f = (case r of Inl e \<Rightarrow> Inl e | Inr x \<Rightarrow> f x)"

definition run_bind :: "'a run \<Rightarrow> ('a \<Rightarrow> 'b run) \<Rightarrow> 'b run" where
  "run_bind r f =
     (case r of None \<Rightarrow> None | Some (Inl e) \<Rightarrow> Some (Inl e) | Some (Inr x) \<Rightarrow> f x)"

lemma res_bind_simps [simp, run_simps]:
  "res_bind (Inl e) f = Inl e"
  "res_bind (Inr x) f = f x"
  by (simp_all add: res_bind_def)

lemma run_bind_simps [simp, run_simps]:
  "run_bind None f = None"
  "run_bind (Some (Inl e)) f = Some (Inl e)"
  "run_bind (Some (Inr x)) f = f x"
  by (simp_all add: run_bind_def)

lemma res_bind_Inr_iff:
  "res_bind r f = Inr y \<longleftrightarrow> (\<exists>x. r = Inr x \<and> f x = Inr y)"
  by (cases r) auto

section \<open>Reachable states\<close>

inductive reach :: "('s \<Rightarrow> bool) \<Rightarrow> ('s \<Rightarrow> 's \<Rightarrow> bool) \<Rightarrow> 's \<Rightarrow> bool"
  for init :: "'s \<Rightarrow> bool" and step :: "'s \<Rightarrow> 's \<Rightarrow> bool" where
  reach_init: "init s \<Longrightarrow> reach init step s"
| reach_step: "reach init step s \<Longrightarrow> step s t \<Longrightarrow> reach init step t"

locale inductive_invariant =
  fixes init :: "'s \<Rightarrow> bool"
    and step :: "'s \<Rightarrow> 's \<Rightarrow> bool"
    and inv :: "'s \<Rightarrow> bool"
  assumes inv_init: "init s \<Longrightarrow> inv s"
    and inv_step: "step s t \<Longrightarrow> inv s \<Longrightarrow> inv t"
begin

lemma reach_inv: "reach init step s \<Longrightarrow> inv s"
  by (induction rule: reach.induct) (auto intro: inv_init inv_step)

lemma steps_inv: "step\<^sup>*\<^sup>* s t \<Longrightarrow> inv s \<Longrightarrow> inv t"
  by (induction rule: rtranclp_induct) (auto intro: inv_step)

end

lemma reach_trans: "step\<^sup>*\<^sup>* s t \<Longrightarrow> reach init step s \<Longrightarrow> reach init step t"
  by (induction rule: rtranclp_induct) (auto intro: reach_step)

text \<open>
  A system that hears events: each act is of one kind or the other, \<open>None\<close> standing for a step of
  its own. It reacts to an event by hearing it and then acting on its own.
\<close>

definition some_act :: "('e option \<Rightarrow> 's \<Rightarrow> 's \<Rightarrow> bool) \<Rightarrow> 's \<Rightarrow> 's \<Rightarrow> bool" where
  "some_act act s t \<longleftrightarrow> (\<exists>l. act l s t)"

definition reacts :: "('e option \<Rightarrow> 's \<Rightarrow> 's \<Rightarrow> bool) \<Rightarrow> 'e \<Rightarrow> 's \<Rightarrow> 's \<Rightarrow> bool" where
  "reacts act ev s t \<longleftrightarrow> (\<exists>u. act (Some ev) s u \<and> (act None)\<^sup>*\<^sup>* u t)"

lemma some_actI [intro]: "act l s t \<Longrightarrow> some_act act s t"
  by (auto simp: some_act_def)

lemma some_actE: "some_act act s t \<Longrightarrow> (\<And>l. act l s t \<Longrightarrow> thesis) \<Longrightarrow> thesis"
  by (auto simp: some_act_def)

lemma own_acts: "(act None)\<^sup>*\<^sup>* s t \<Longrightarrow> (some_act act)\<^sup>*\<^sup>* s t"
  by (rule rtranclp_mono [THEN predicate2D, rotated]) auto

lemma reacts_acts: "reacts act ev s t \<Longrightarrow> (some_act act)\<^sup>*\<^sup>* s t"
  using own_acts by (fastforce simp: reacts_def intro: converse_rtranclp_into_rtranclp)

lemma reach_act: "reach init (some_act act) s \<Longrightarrow> act l s t \<Longrightarrow> reach init (some_act act) t"
  by (rule reach_step) auto

lemma reactsI: "act (Some ev) s t \<Longrightarrow> reacts act ev s t"
  by (auto simp: reacts_def)

lemma reacts_then: "reacts act ev s t \<Longrightarrow> (act None)\<^sup>*\<^sup>* t u \<Longrightarrow> reacts act ev s u"
  by (auto simp: reacts_def intro: rtranclp_trans)

lemma reacts_then1: "reacts act ev s t \<Longrightarrow> act None t u \<Longrightarrow> reacts act ev s u"
  by (rule reacts_then) auto

text \<open>A run together with everything it hears, in order.\<close>

inductive hears :: "('e option \<Rightarrow> 's \<Rightarrow> 's \<Rightarrow> bool) \<Rightarrow> 'e list \<Rightarrow> 's \<Rightarrow> 's \<Rightarrow> bool"
  for act :: "'e option \<Rightarrow> 's \<Rightarrow> 's \<Rightarrow> bool" where
  hears_none: "hears act [] s s"
| hears_own: "hears act evs s t \<Longrightarrow> act None t u \<Longrightarrow> hears act evs s u"
| hears_event: "hears act evs s t \<Longrightarrow> act (Some ev) t u \<Longrightarrow> hears act (evs @ [ev]) s u"

lemma hears_then: "(act None)\<^sup>*\<^sup>* t u \<Longrightarrow> hears act evs s t \<Longrightarrow> hears act evs s u"
  by (induction rule: rtranclp_induct) (auto intro: hears_own)

lemma reacts_hears: "reacts act ev s t \<Longrightarrow> hears act [ev] s t"
  using hears_event [OF hears_none, of act ev s] hears_then by (fastforce simp: reacts_def)

lemma hears_trans: "hears act fs t u \<Longrightarrow> hears act evs s t \<Longrightarrow> hears act (evs @ fs) s u"
proof (induction rule: hears.induct)
  case (hears_event fs t u ev v)
  then show ?case using hears.hears_event [of act "evs @ fs" s u ev v] by simp
qed (auto intro: hears_own)

lemma hears_acts: "hears act evs s t \<Longrightarrow> (some_act act)\<^sup>*\<^sup>* s t"
  by (induction rule: hears.induct) (auto intro: rtranclp.rtrancl_into_rtrancl)

section \<open>Refinement of operations with outputs\<close>

text \<open>
  An implementation whose operations may fault or not return, and a total specification. The
  guard is what an operation needs from both states.
\<close>

fun exec_run :: "('op \<Rightarrow> 's \<Rightarrow> ('s \<times> 'o) run) \<Rightarrow> 's \<Rightarrow> 'op list \<Rightarrow> ('s \<times> 'o list) run" where
  "exec_run exec s [] = Some (Ok (s, []))"
| "exec_run exec s (op # ops) =
     run_bind (exec op s) (\<lambda>(s1, out).
       run_bind (exec_run exec s1 ops) (\<lambda>(s2, outs). Some (Ok (s2, out # outs))))"

fun spec_run :: "('op \<Rightarrow> 'a \<Rightarrow> 'a \<times> 'o) \<Rightarrow> 'a \<Rightarrow> 'op list \<Rightarrow> 'a \<times> 'o list" where
  "spec_run spec a [] = (a, [])"
| "spec_run spec a (op # ops) =
     (let (a1, out) = spec op a; (a2, outs) = spec_run spec a1 ops in (a2, out # outs))"

fun guarded :: "('op \<Rightarrow> 's \<Rightarrow> 'a \<Rightarrow> bool) \<Rightarrow> ('op \<Rightarrow> 's \<Rightarrow> ('s \<times> 'o) run) \<Rightarrow> ('op \<Rightarrow> 'a \<Rightarrow> 'a \<times> 'o)
    \<Rightarrow> 's \<Rightarrow> 'a \<Rightarrow> 'op list \<Rightarrow> bool" where
  "guarded guard exec spec s a [] = True"
| "guarded guard exec spec s a (op # ops) =
     (guard op s a \<and>
      (case exec op s of
         Some (Inr (s', out)) \<Rightarrow> guarded guard exec spec s' (fst (spec op a)) ops
       | _ \<Rightarrow> True))"

locale refinement =
  fixes rep :: "'s \<Rightarrow> 'a \<Rightarrow> bool"
    and guard :: "'op \<Rightarrow> 's \<Rightarrow> 'a \<Rightarrow> bool"
    and exec :: "'op \<Rightarrow> 's \<Rightarrow> ('s \<times> 'o) run"
    and spec :: "'op \<Rightarrow> 'a \<Rightarrow> 'a \<times> 'o"
  assumes simulates: "rep s a \<Longrightarrow> guard op s a \<Longrightarrow>
    \<exists>s'. exec op s = Some (Ok (s', snd (spec op a))) \<and> rep s' (fst (spec op a))"
begin

lemma run_simulates:
  "rep s a \<Longrightarrow> guarded guard exec spec s a ops \<Longrightarrow>
   \<exists>s'. exec_run exec s ops = Some (Ok (s', snd (spec_run spec a ops)))
      \<and> rep s' (fst (spec_run spec a ops))"
proof (induction ops arbitrary: s a)
  case Nil
  then show ?case by simp
next
  case (Cons op ops)
  obtain a1 out where a1: "spec op a = (a1, out)" by fastforce
  from Cons.prems obtain s1 where s1: "exec op s = Some (Ok (s1, out))" "rep s1 a1"
    using simulates [of s a op] a1 by auto
  with Cons.prems a1 have "guarded guard exec spec s1 a1 ops" by simp
  from Cons.IH [OF s1(2) this] show ?case
    using a1 s1(1) by (auto split: prod.splits)
qed

lemma run_never_faults:
  "rep s a \<Longrightarrow> guarded guard exec spec s a ops \<Longrightarrow> \<exists>r. exec_run exec s ops = Some (Ok r)"
  using run_simulates by blast

end

text \<open>
  The same for a system that hears events and keeps what it has sent: for each operation that is
  admissible there is an execution that hears just the event of this operation and does what the
  specification says.
\<close>

fun admissible :: "('op \<Rightarrow> 'a \<Rightarrow> bool) \<Rightarrow> ('op \<Rightarrow> 'a \<Rightarrow> 'a \<times> 'o) \<Rightarrow> 'a \<Rightarrow> 'op list \<Rightarrow> bool" where
  "admissible ok spec a [] = True"
| "admissible ok spec a (op # ops) = (ok op a \<and> admissible ok spec (fst (spec op a)) ops)"

locale serving =
  fixes act :: "'e option \<Rightarrow> 's \<Rightarrow> 's \<Rightarrow> bool"
    and event :: "'op \<Rightarrow> 'e"
    and rep :: "'s \<Rightarrow> 'a \<Rightarrow> bool"
    and ok :: "'op \<Rightarrow> 'a \<Rightarrow> bool"
    and spec :: "'op \<Rightarrow> 'a \<Rightarrow> 'a \<times> 'o list"
    and produced :: "'s \<Rightarrow> 'o list"
  assumes serves: "rep s a \<Longrightarrow> ok op a \<Longrightarrow>
    \<exists>t. reacts act (event op) s t \<and> rep t (fst (spec op a)) \<and> produced t = produced s @ snd (spec op a)"
begin

lemma session:
  "rep s a \<Longrightarrow> admissible ok spec a ops \<Longrightarrow>
   \<exists>t. hears act (map event ops) s t \<and> rep t (fst (spec_run spec a ops)) \<and>
     produced t = produced s @ concat (snd (spec_run spec a ops))"
proof (induction ops arbitrary: s a)
  case Nil
  then show ?case by (auto intro: hears_none)
next
  case (Cons op ops)
  from Cons.prems obtain u where u: "reacts act (event op) s u" "rep u (fst (spec op a))" "produced u = produced s @ snd (spec op a)"
    using serves [of s a op] by auto
  from Cons.IH [OF u(2)] Cons.prems(2) obtain t where t: "hears act (map event ops) u t"
    "rep t (fst (spec_run spec (fst (spec op a)) ops))"
    "produced t = produced u @ concat (snd (spec_run spec (fst (spec op a)) ops))" by auto
  show ?case
    using hears_trans [OF t(1) reacts_hears [OF u(1)]] t(2,3) u(3)
    by (intro exI [of _ t]) (auto simp: Let_def split: prod.splits)
qed

end

section \<open>Lists\<close>

lemma length_filter_update:
  assumes "i < length xs"
  shows "length (filter P (xs[i := x])) + (if P (xs ! i) then 1 else 0)
       = length (filter P xs) + (if P x then 1 else 0)"
  using assms
proof (induction xs arbitrary: i)
  case Nil
  then show ?case by simp
next
  case (Cons y ys)
  then show ?case by (cases i) (auto split: if_splits)
qed

lemma takeWhile_noop: "c \<notin> set xs \<Longrightarrow> takeWhile (\<lambda>x. x \<noteq> c) xs = xs"
  by (induction xs) auto

lemma takeWhile_stop: "c \<notin> set xs \<Longrightarrow> takeWhile (\<lambda>x. x \<noteq> c) (xs @ c # ys) = xs"
  by (induction xs) auto

lemma dropWhile_stop: "c \<notin> set xs \<Longrightarrow> dropWhile (\<lambda>x. x \<noteq> c) (xs @ c # ys) = c # ys"
  by (induction xs) auto

section \<open>Circular index arithmetic\<close>

lemma ring_succ_ne [ring_simps]: "1 < (N::nat) \<Longrightarrow> i < N \<Longrightarrow> (i + 1) mod N \<noteq> i"
  by (cases "i + 1 = N") (auto simp: mod_less)

lemma ring_less [ring_simps, simp]: "0 < (N::nat) \<Longrightarrow> i mod N < N"
  by simp

end
