(* ===== verification/C_Strings.thy ===== *)
theory C_Strings
  imports Prelude
begin

text \<open>
  The part of the C string library that the program uses, on character buffers. A buffer is
  the list of its bytes, a C string is what stands before the first NUL. A text that the
  program only ever handles as a C string is kept as a \<^typ>\<open>string\<close> without NUL.
\<close>

type_synonym bytes = "char list"

abbreviation NUL :: char where "NUL \<equiv> CHR 0x00"
abbreviation SP :: char where "SP \<equiv> CHR 0x20"
abbreviation DOLLAR :: char where "DOLLAR \<equiv> CHR ''$''"

definition cstr :: "bytes \<Rightarrow> string" where
  "cstr b = takeWhile (\<lambda>c. c \<noteq> NUL) b"

definition strlen :: "bytes \<Rightarrow> nat" where
  "strlen b = length (cstr b)"

definition no_nul :: "string \<Rightarrow> bool" where
  "no_nul s \<longleftrightarrow> NUL \<notin> set s"

text \<open>\<open>strncpy (dst, src, n)\<close>: at most \<open>n\<close> bytes up to the NUL, then NUL padding up to \<open>n\<close>.\<close>

definition strncpy :: "bytes \<Rightarrow> bytes \<Rightarrow> nat \<Rightarrow> bytes" where
  "strncpy dst src n =
     (let s = take n (cstr src) in s @ replicate (n - length s) NUL @ drop n dst)"

text \<open>\<open>memmove\<close> inside one buffer, from offset \<open>src\<close> to offset \<open>d\<close>.\<close>

definition memmove :: "bytes \<Rightarrow> nat \<Rightarrow> nat \<Rightarrow> nat \<Rightarrow> bytes" where
  "memmove b d src n = take d b @ take n (drop src b) @ drop (d + n) b"

text \<open>\<open>strchr\<close> yields the offset of the first occurrence before the NUL.\<close>

definition strchr :: "bytes \<Rightarrow> char \<Rightarrow> nat option" where
  "strchr b c =
     (let i = length (takeWhile (\<lambda>x. x \<noteq> c) (cstr b))
      in if i < strlen b then Some i else None)"

text \<open>
  \<open>strcat\<close> and \<open>strcpy\<close> do not know the size \<open>cap\<close> of the destination: a result that does not
  fit with its NUL is an overflow. \<open>snprintf\<close> cuts.
\<close>

definition strcat :: "nat \<Rightarrow> string \<Rightarrow> string \<Rightarrow> string res" where
  "strcat cap dst s =
     (if length dst + length s < cap then Ok (dst @ s) else Fault BufferOverflow)"

definition strcpy :: "nat \<Rightarrow> string \<Rightarrow> string res" where
  "strcpy cap s = (if length s < cap then Ok s else Fault BufferOverflow)"

definition snprintf :: "nat \<Rightarrow> string \<Rightarrow> string" where
  "snprintf n s = take (n - 1) s"

section \<open>C strings inside buffers\<close>

lemma cstr_no_nul [simp, intro]: "no_nul (cstr b)"
  by (auto simp: no_nul_def cstr_def dest: set_takeWhileD)

lemma cstr_id [buffer_simps]: "no_nul s \<Longrightarrow> cstr s = s"
  by (simp add: cstr_def no_nul_def takeWhile_noop)

lemma cstr_append_nul [buffer_simps]: "no_nul s \<Longrightarrow> cstr (s @ NUL # r) = s"
  by (simp add: cstr_def no_nul_def takeWhile_stop)

lemma cstr_append_replicate [buffer_simps]:
  "no_nul s \<Longrightarrow> 0 < n \<Longrightarrow> cstr (s @ replicate n NUL @ r) = s"
  by (cases n) (simp_all add: cstr_append_nul)

lemma cstr_Nil [simp]: "cstr [] = []"
  by (simp add: cstr_def)

lemma cstr_NUL [simp]: "cstr (NUL # r) = []"
  by (simp add: cstr_def)

lemma no_nul_simps [simp]:
  "no_nul []"
  "no_nul (c # s) \<longleftrightarrow> c \<noteq> NUL \<and> no_nul s"
  "no_nul (s @ t) \<longleftrightarrow> no_nul s \<and> no_nul t"
  by (auto simp: no_nul_def)

lemma no_nul_take [simp, intro]: "no_nul s \<Longrightarrow> no_nul (take n s)"
  by (auto simp: no_nul_def dest: in_set_takeD)

lemma no_nul_drop [simp, intro]: "no_nul s \<Longrightarrow> no_nul (drop n s)"
  by (auto simp: no_nul_def dest: in_set_dropD)

lemma cstr_length: "length (cstr b) \<le> length b"
  by (simp add: cstr_def length_takeWhile_le)

lemma cstr_split:
  assumes "NUL \<in> set b"
  obtains r where "b = cstr b @ NUL # r"
proof -
  obtain u v where uv: "b = u @ NUL # v" "NUL \<notin> set u"
    using split_list_first [OF assms] by blast
  then have "cstr b = u"
    by (simp add: cstr_def takeWhile_stop)
  with uv show thesis by (auto intro: that)
qed

lemma strncpy_length [simp]: "n \<le> length dst \<Longrightarrow> length (strncpy dst src n) = length dst"
  by (auto simp: strncpy_def Let_def)

text \<open>
  The idiom \<open>strncpy (dst, src, n); dst[n - 1] = 0\<close>, used for every fixed-size field: the
  field then holds the source cut to \<open>n - 1\<close> characters.
\<close>

lemma strncpy_terminated:
  assumes "0 < n" and "n \<le> length dst"
  shows "cstr ((strncpy dst src n)[n - 1 := NUL]) = take (n - 1) (cstr src)"
proof (cases "length (cstr src) < n")
  case True
  then have eq: "strncpy dst src n = cstr src @ replicate (n - length (cstr src)) NUL @ drop n dst"
    by (simp add: strncpy_def Let_def)
  have "(strncpy dst src n)[n - 1 := NUL] = strncpy dst src n"
    using True assms by (auto simp: eq nth_append intro!: list_update_id [THEN trans] list_update_same_conv [THEN iffD2])
  with True show ?thesis
    by (simp add: eq cstr_append_replicate)
next
  case False
  let ?s = "cstr src"
  have "strncpy dst src n = take (n - 1) ?s @ (?s ! (n - 1)) # drop n dst"
    using False assms take_Suc_conv_app_nth [of "n - 1" ?s] by (simp add: strncpy_def)
  moreover have "length (take (n - 1) ?s) = n - 1"
    using False by simp
  ultimately have "(strncpy dst src n)[n - 1 := NUL] = take (n - 1) ?s @ NUL # drop n dst"
    by (metis list_update_length)
  then show ?thesis
    by (simp add: cstr_append_nul)
qed

lemma snprintf_length: "0 < n \<Longrightarrow> length (snprintf n s) < n"
  by (simp add: snprintf_def)

lemma snprintf_fits [buffer_simps]: "length s < n \<Longrightarrow> snprintf n s = s"
  by (simp add: snprintf_def)

lemma no_nul_snprintf [simp]: "no_nul s \<Longrightarrow> no_nul (snprintf n s)"
  by (simp add: snprintf_def)

lemma strcat_Ok_iff: "strcat cap d s = Ok r \<longleftrightarrow> length d + length s < cap \<and> r = d @ s"
  by (auto simp: strcat_def)

lemma strcpy_Ok_iff: "strcpy cap s = Ok r \<longleftrightarrow> length s < cap \<and> r = s"
  by (auto simp: strcpy_def)

section \<open>Words separated by spaces\<close>

text \<open>The words of a text: what \<open>strtok (s, " ")\<close> called again and again delivers.\<close>

function words_of :: "string \<Rightarrow> string list" where
  "words_of [] = []"
| "words_of (c # r) =
     (if c = SP then words_of r
      else (c # takeWhile (\<lambda>x. x \<noteq> SP) r) # words_of (dropWhile (\<lambda>x. x \<noteq> SP) r))"
  by pat_completeness auto
termination
  by (relation "measure length") (auto simp: le_imp_less_Suc length_dropWhile_le)

definition is_word :: "string \<Rightarrow> bool" where
  "is_word w \<longleftrightarrow> w \<noteq> [] \<and> SP \<notin> set w \<and> no_nul w"

text \<open>Words joined by single spaces.\<close>

fun unwords :: "string list \<Rightarrow> string" where
  "unwords [] = []"
| "unwords [w] = w"
| "unwords (w # v # ws) = w @ SP # unwords (v # ws)"

lemma dropWhile_noop: "SP \<notin> set w \<Longrightarrow> dropWhile (\<lambda>x. x \<noteq> SP) w = []"
  by (induction w) auto

lemma words_of_append_spaces [simp]: "words_of (replicate n SP @ s) = words_of s"
  by (induction n) simp_all

lemma words_of_spaces [simp]: "words_of (replicate n SP) = []"
  by (induction n) simp_all

lemma words_of_word_end: "w \<noteq> [] \<Longrightarrow> SP \<notin> set w \<Longrightarrow> words_of w = [w]"
  by (cases w) (auto simp: takeWhile_noop dropWhile_noop)

lemma words_of_word_cons: "w \<noteq> [] \<Longrightarrow> SP \<notin> set w \<Longrightarrow> words_of (w @ SP # s) = w # words_of s"
  by (cases w) (auto simp: takeWhile_stop dropWhile_stop)

lemma words_of_unwords:
  "(\<And>w. w \<in> set ws \<Longrightarrow> w \<noteq> [] \<and> SP \<notin> set w) \<Longrightarrow> words_of (unwords ws) = ws"
  by (induction ws rule: unwords.induct) (simp_all add: words_of_word_end words_of_word_cons)

lemma words_of_is_word: "no_nul s \<Longrightarrow> w \<in> set (words_of s) \<Longrightarrow> is_word w"
proof (induction s rule: words_of.induct)
  case 1
  then show ?case by simp
next
  case (2 c r)
  show ?case
  proof (cases "c = SP")
    case True
    with 2 show ?thesis by simp
  next
    case False
    have "no_nul (dropWhile (\<lambda>x. x \<noteq> SP) r)"
      using "2.prems"(1) by (auto simp: no_nul_def dest: set_dropWhileD)
    with 2 False show ?thesis
      by (auto simp: is_word_def no_nul_def dest: set_takeWhileD)
  qed
qed

lemma length_unwords_Cons:
  "length (unwords (w # ws)) = length w + (if ws = [] then 0 else 1 + length (unwords ws))"
  by (cases ws) simp_all

lemma length_unwords_words_of:
  "length (unwords (words_of s)) \<le> length (dropWhile (\<lambda>c. c = SP) s)"
proof (induction s rule: words_of.induct)
  case 1
  then show ?case by simp
next
  case (2 c r)
  show ?case
  proof (cases "c = SP")
    case True
    with "2.IH"(1) show ?thesis by simp
  next
    case False
    let ?u = "dropWhile (\<lambda>x. x \<noteq> SP) r"
    have len: "length (takeWhile (\<lambda>x. x \<noteq> SP) r) + length ?u = length r"
      by (metis length_append takeWhile_dropWhile_id)
    have rest: "words_of ?u = [] \<or> 1 + length (unwords (words_of ?u)) \<le> length ?u"
    proof (cases ?u)
      case Nil
      then have "words_of ?u = []" by (simp only: words_of.simps)
      then show ?thesis ..
    next
      case (Cons d v)
      then have "d = SP" by (simp add: dropWhile_eq_Cons_conv)
      with Cons "2.IH"(2) [OF False] show ?thesis
        by (auto intro: order_trans length_dropWhile_le)
    qed
    then have "length (unwords (words_of (c # r))) \<le> 1 + length r"
      using False len by (auto simp: length_unwords_Cons)
    with False show ?thesis by simp
  qed
qed

end
