(* ===== verification/Udp.thy ===== *)
theory Udp
  imports C_Strings
begin

text \<open>
  \<open>udp.h\<close>: socket addresses and the four wrappers round the socket calls. The kernel is the
  environment: the results of \<open>socket\<close>, \<open>bind\<close>, \<open>recvfrom\<close> and of \<open>inet_pton\<close> are arguments.
\<close>

unbundle bit_operations_syntax

definition BUFFER_SIZE :: nat where "BUFFER_SIZE = 1024"
definition SERVER_PORT :: int where "SERVER_PORT = 12000"
definition NAME_SIZE :: nat where "NAME_SIZE = 20"
definition MAX_CMD_SIZE :: nat where "MAX_CMD_SIZE = 50"
definition MAX_MSGS :: nat where "MAX_MSGS = 100"
definition MAX_LEN :: nat where "MAX_LEN = 1024"

lemmas udp_consts = BUFFER_SIZE_def SERVER_PORT_def NAME_SIZE_def MAX_CMD_SIZE_def
  MAX_MSGS_def MAX_LEN_def

section \<open>Socket addresses\<close>

text \<open>
  All sixteen bytes of the structure, in network byte order where the kernel wants it; two
  addresses are equal to \<open>memcmp\<close> iff the records are equal.
\<close>

record sockaddr_in =
  sin_family :: "16 word"
  sin_port :: "16 word"
  sin_addr :: "32 word"
  sin_zero :: "64 word"

definition zero_addr :: sockaddr_in where
  "zero_addr = \<lparr>sin_family = 0, sin_port = 0, sin_addr = 0, sin_zero = 0\<rparr>"

abbreviation AF_INET :: "16 word" where "AF_INET \<equiv> 2"
abbreviation INADDR_ANY :: "32 word" where "INADDR_ANY \<equiv> 0"

text \<open>Host to network order on a little-endian machine: the two bytes change places.\<close>

definition htons :: "16 word \<Rightarrow> 16 word" where
  "htons w = push_bit 8 w OR drop_bit 8 w"

definition set_socket_addr ::
  "(string \<Rightarrow> 32 word option) \<Rightarrow> string option \<Rightarrow> int \<Rightarrow> sockaddr_in \<times> int" where
  "set_socket_addr inet_pton ip port =
     (let addr = zero_addr\<lparr>sin_family := AF_INET, sin_port := htons (word_of_int port)\<rparr>
      in case ip of
           None \<Rightarrow> (addr\<lparr>sin_addr := INADDR_ANY\<rparr>, 0)
         | Some s \<Rightarrow>
             (case inet_pton s of
                None \<Rightarrow> (addr, -1)
              | Some a \<Rightarrow> (addr\<lparr>sin_addr := a\<rparr>, 0)))"

section \<open>Opening a socket\<close>

text \<open>
  \<open>sock\<close> is the result of \<open>socket\<close>, \<open>bound\<close> that of \<open>bind\<close> for an address. The second
  component lists the calls made on the descriptor.
\<close>

datatype sock_call = Bind int sockaddr_in | Close int

definition udp_socket_open ::
  "(string \<Rightarrow> 32 word option) \<Rightarrow> int \<Rightarrow> (sockaddr_in \<Rightarrow> int) \<Rightarrow> int \<Rightarrow> int \<times> sock_call list" where
  "udp_socket_open inet_pton sock bound port =
     (if sock < 0 then (-1, [])
      else let addr = fst (set_socket_addr inet_pton None port)
           in if bound addr < 0 then (-1, [Bind sock addr, Close sock])
              else (sock, [Bind sock addr]))"

section \<open>Reading and writing\<close>

text \<open>What \<open>recvfrom\<close> can deliver: a datagram and its source, or an error.\<close>

datatype recv_event = Received sockaddr_in bytes | Recv_Error

text \<open>
  The kernel copies at most \<open>n\<close> bytes to the front of the buffer and leaves the rest as it is;
  it adds no NUL.
\<close>

definition udp_socket_read :: "recv_event \<Rightarrow> bytes \<Rightarrow> nat \<Rightarrow> int \<times> bytes \<times> sockaddr_in option" where
  "udp_socket_read ev buf n =
     (case ev of
        Recv_Error \<Rightarrow> (-1, buf, None)
      | Received from pkt \<Rightarrow>
          (let got = take n pkt in (int (length got), got @ drop (length got) buf, Some from)))"

text \<open>
  A datagram handed to \<open>sendto\<close>: the destination, the C string at the front of the buffer, and
  how many bytes of the buffer are sent. The bytes after the NUL are whatever the buffer held.
\<close>

record datagram =
  to_addr :: sockaddr_in
  payload :: string
  nbytes :: nat

definition udp_socket_write :: "sockaddr_in \<Rightarrow> string \<Rightarrow> nat \<Rightarrow> datagram" where
  "udp_socket_write addr text n = \<lparr>to_addr = addr, payload = text, nbytes = n\<rparr>"

lemma udp_socket_write_simps [simp]:
  "to_addr (udp_socket_write a t n) = a"
  "payload (udp_socket_write a t n) = t"
  "nbytes (udp_socket_write a t n) = n"
  by (simp_all add: udp_socket_write_def)

text \<open>The bytes on the wire, \<open>junk\<close> being what follows the NUL in the sender's buffer.\<close>

definition wire :: "bytes \<Rightarrow> datagram \<Rightarrow> bytes" where
  "wire junk d = take (nbytes d) (payload d @ NUL # junk)"

definition terminated :: "datagram \<Rightarrow> bool" where
  "terminated d \<longleftrightarrow> no_nul (payload d) \<and> length (payload d) < nbytes d"

section \<open>Facts\<close>

lemma htons_bit: "bit (htons w) n = (n < 16 \<and> (if n < 8 then bit w (n + 8) else bit w (n - 8)))"
  by (auto simp: htons_def bit_simps add.commute dest: bit_imp_le_length)

lemma htons_htons: "htons (htons w) = w"
  by (rule bit_word_eqI) (auto simp: htons_bit)

lemma wire_terminated: "terminated d \<Longrightarrow> cstr (wire junk d) = payload d"
  by (cases "nbytes d - length (payload d)")
     (auto simp: terminated_def wire_def cstr_append_nul)

lemma terminated_write [simp]:
  "terminated (udp_socket_write a t n) \<longleftrightarrow> no_nul t \<and> length t < n"
  by (simp add: terminated_def)

lemma read_exact:
  assumes "udp_socket_read (Received from pkt) buf n = (rc, buf', src)"
    and "NUL \<in> set (take n pkt)"
  shows "cstr buf' = cstr pkt"
proof -
  from assms(2) obtain u v where uv: "take n pkt = u @ NUL # v" "NUL \<notin> set u"
    by (meson split_list_first)
  have "pkt = u @ NUL # v @ drop n pkt"
    by (metis append.assoc append_Cons append_take_drop_id uv(1))
  with uv have "cstr pkt = u"
    by (metis cstr_append_nul no_nul_def)
  moreover from assms(1) uv have "cstr buf' = u"
    by (auto simp: udp_socket_read_def cstr_append_nul no_nul_def)
  ultimately show ?thesis by simp
qed

lemma read_length:
  "udp_socket_read ev buf n = (rc, buf', src) \<Longrightarrow> n \<le> length buf \<Longrightarrow> length buf' = length buf"
  by (auto simp: udp_socket_read_def Let_def split: recv_event.splits)

text \<open>
  Opening a socket either binds it to the wildcard address at the requested port, or
  reports -1 and leaves no descriptor open.
\<close>

lemma udp_socket_open_spec:
  "udp_socket_open inet_pton sock bound port =
     (let a = \<lparr>sin_family = AF_INET, sin_port = htons (word_of_int port), sin_addr = INADDR_ANY,
               sin_zero = 0\<rparr>
      in if 0 \<le> sock \<and> 0 \<le> bound a then (sock, [Bind sock a])
         else (-1, if sock < 0 then [] else [Bind sock a, Close sock]))"
  by (simp add: udp_socket_open_def set_socket_addr_def zero_addr_def Let_def)

end
