(* ===== verification/Cmd.thy ===== *)
theory Cmd
  imports Udp
begin

text \<open>
  \<open>cmd.h\<close>: the command kinds and \<open>command_handler\<close>, which turns the token vector of a message
  into a \<open>command_t\<close>. It is shared by the server and the client.
\<close>

definition MAX_MESSAGE :: nat where "MAX_MESSAGE = 256"
definition RESPONSE_BUFFER_SIZE :: nat where "RESPONSE_BUFFER_SIZE = MAX_MESSAGE + 256"

lemmas cmd_consts = udp_consts MAX_MESSAGE_def RESPONSE_BUFFER_SIZE_def

datatype command_kind =
  CONN | CONN_SUCCESS | CONN_FAILED | SAY | SAYTO | MUTE | UNMUTE | RENAME
| DISCONN | DISCONN_RESPONSE | KICK | PING | RETPING | ERROR | UNKNOWN

text \<open>The integer value C gives an enumerator; the server prints it, and it orders the kinds.\<close>

fun kind_code :: "command_kind \<Rightarrow> nat" where
  "kind_code CONN = 0" | "kind_code CONN_SUCCESS = 1" | "kind_code CONN_FAILED = 2"
| "kind_code SAY = 3" | "kind_code SAYTO = 4" | "kind_code MUTE = 5" | "kind_code UNMUTE = 6"
| "kind_code RENAME = 7" | "kind_code DISCONN = 8" | "kind_code DISCONN_RESPONSE = 9"
| "kind_code KICK = 10" | "kind_code PING = 11" | "kind_code RETPING = 12"
| "kind_code ERROR = 13" | "kind_code UNKNOWN = 14"

lemma kind_code_inject [simp]: "kind_code k = kind_code l \<longleftrightarrow> k = l"
  by (cases k; cases l) simp_all

instantiation command_kind :: linorder
begin

definition less_eq_command_kind :: "command_kind \<Rightarrow> command_kind \<Rightarrow> bool" where
  "less_eq_command_kind k l \<longleftrightarrow> kind_code k \<le> kind_code l"

definition less_command_kind :: "command_kind \<Rightarrow> command_kind \<Rightarrow> bool" where
  "less_command_kind k l \<longleftrightarrow> kind_code k < kind_code l"

instance
  by standard (auto simp: less_eq_command_kind_def less_command_kind_def)

end

text \<open>
  \<open>args\<close> is the array \<open>char args[MAX_CMD_SIZE][NAME_SIZE]\<close>, each row as the C string it holds.
\<close>

record command_t =
  kind :: command_kind
  args :: "string list"

definition kind_of_token :: "string \<Rightarrow> command_kind" where
  "kind_of_token t =
     (if t = ''conn'' then CONN
      else if t = ''connsuccess'' then CONN_SUCCESS
      else if t = ''connfailed'' then CONN_FAILED
      else if t = ''say'' then SAY
      else if t = ''sayto'' then SAYTO
      else if t = ''mute'' then MUTE
      else if t = ''unmute'' then UNMUTE
      else if t = ''rename'' then RENAME
      else if t = ''disconn'' then DISCONN
      else if t = ''disconnresponse'' then DISCONN_RESPONSE
      else if t = ''kick'' then KICK
      else if t = ''ping'' then PING
      else if t = ''retping'' then RETPING
      else if t = ''error'' then ERROR
      else UNKNOWN)"

text \<open>The two loops over the rows: copy the tokens after the first, then blank the rest.\<close>

fun copy_args :: "string list \<Rightarrow> nat \<Rightarrow> string list \<Rightarrow> nat \<times> string list" where
  "copy_args [] out rows = (out, rows)"
| "copy_args (a # as) out rows =
     (if out < MAX_CMD_SIZE
      then copy_args as (out + 1) (rows[out := take (NAME_SIZE - 1) a])
      else (out, rows))"

function clear_args :: "nat \<Rightarrow> string list \<Rightarrow> string list" where
  "clear_args out rows =
     (if out < MAX_CMD_SIZE then clear_args (out + 1) (rows[out := '''']) else rows)"
  by pat_completeness auto
termination
  by (relation "measure (\<lambda>(out, rows). MAX_CMD_SIZE - out)") auto

declare clear_args.simps [simp del]

text \<open>
  \<open>argv\<close> is the token vector: \<open>None\<close> for a null vector, otherwise the tokens before the
  terminating null pointer. A null or empty vector leaves \<open>command\<close> as it was.
\<close>

definition command_handler :: "command_t \<Rightarrow> string list option \<Rightarrow> command_t" where
  "command_handler command argv =
     (case argv of
        None \<Rightarrow> command
      | Some [] \<Rightarrow> command
      | Some (name # rest) \<Rightarrow>
          (let (out, rows) = copy_args rest 0 (args command)
           in \<lparr>kind = kind_of_token name, args = clear_args out rows\<rparr>))"

section \<open>The parsed command in closed form\<close>

definition well_formed_command :: "command_t \<Rightarrow> bool" where
  "well_formed_command c \<longleftrightarrow>
     length (args c) = MAX_CMD_SIZE \<and> (\<forall>a \<in> set (args c). no_nul a \<and> length a < NAME_SIZE)"

lemma copy_args_spec:
  assumes "length rows = MAX_CMD_SIZE" and "out \<le> MAX_CMD_SIZE"
  shows "copy_args as out rows =
    (let n = min (length as) (MAX_CMD_SIZE - out)
     in (out + n, take out rows @ map (take (NAME_SIZE - 1)) (take n as) @ drop (out + n) rows))"
  using assms
proof (induction as out rows rule: copy_args.induct)
  case (1 out rows)
  then show ?case by simp
next
  case (2 a as out rows)
  show ?case
  proof (cases "out < MAX_CMD_SIZE")
    case False
    with 2 show ?thesis by simp
  next
    case True
    let ?r = "rows[out := take (NAME_SIZE - 1) a]"
    obtain m where m: "MAX_CMD_SIZE - out = Suc m" "MAX_CMD_SIZE - Suc out = m"
      using True by (metis Suc_diff_Suc)
    have "take (out + 1) ?r = take out rows @ [take (NAME_SIZE - 1) a]"
      using True "2.prems" by (simp add: take_Suc_conv_app_nth)
    then show ?thesis
      using True "2.prems" "2.IH" [OF True] by (simp add: Let_def m)
  qed
qed

lemma clear_args_spec:
  "length rows = MAX_CMD_SIZE \<Longrightarrow> out \<le> MAX_CMD_SIZE \<Longrightarrow>
   clear_args out rows = take out rows @ replicate (MAX_CMD_SIZE - out) ''''"
proof (induction out rows rule: clear_args.induct)
  case (1 out rows)
  show ?case
  proof (cases "out < MAX_CMD_SIZE")
    case False
    with 1 show ?thesis by (subst clear_args.simps) simp
  next
    case True
    have "take (out + 1) (rows[out := '''']) = take out rows @ ['''']"
      using True "1.prems" by (simp add: take_Suc_conv_app_nth)
    moreover obtain m where "MAX_CMD_SIZE - out = Suc m" "MAX_CMD_SIZE - Suc out = m"
      using True by (metis Suc_diff_Suc)
    ultimately show ?thesis
      using True "1.prems" "1.IH" [OF True] by (subst clear_args.simps) simp
  qed
qed

lemma command_handler_closed:
  assumes "length (args old) = MAX_CMD_SIZE"
  shows "command_handler old (Some (name # rest)) =
    \<lparr>kind = kind_of_token name,
     args = map (take (NAME_SIZE - 1)) (take MAX_CMD_SIZE rest)
              @ replicate (MAX_CMD_SIZE - length rest) ''''\<rparr>"
  using assms
  by (simp add: command_handler_def copy_args_spec clear_args_spec Let_def min_def)

text \<open>
  The parser in closed form: the kind is that of the first token, row \<open>i\<close> is token \<open>i + 1\<close>
  cut to 19 characters, the rows after the last token are empty; what the command structure
  held before does not matter. Tokens beyond the fifty rows are dropped.
\<close>

lemma command_handler_spec:
  assumes "length (args old) = MAX_CMD_SIZE"
  shows "command_handler old (Some (name # rest)) =
    \<lparr>kind = kind_of_token name,
     args = map (take (NAME_SIZE - 1)) (take MAX_CMD_SIZE rest)
              @ replicate (MAX_CMD_SIZE - length rest) ''''\<rparr>"
  using assms by (rule command_handler_closed)

lemma command_handler_spec_instance:
  "command_handler \<lparr>kind = UNKNOWN, args = replicate 50 ''x''\<rparr>
     (Some [''mute'', ''a name of more than nineteen characters'']) =
   \<lparr>kind = MUTE, args = ''a name of more than'' # replicate 49 ''''\<rparr>"
  using command_handler_spec [of "\<lparr>kind = UNKNOWN, args = replicate 50 ''x''\<rparr>" "''mute''"
      "[''a name of more than nineteen characters'']"]
  by (simp add: MAX_CMD_SIZE_def NAME_SIZE_def kind_of_token_def)

lemma command_handler_well_formed:
  assumes "length (args old) = MAX_CMD_SIZE" and "\<forall>t \<in> set (name # rest). no_nul t"
  shows "well_formed_command (command_handler old (Some (name # rest)))"
  using assms
  by (auto simp: command_handler_closed well_formed_command_def NAME_SIZE_def dest: in_set_takeD)

lemma command_handler_keeps:
  assumes "well_formed_command junk" and "\<forall>t \<in> set toks. no_nul t"
  shows "well_formed_command (command_handler junk (Some toks))"
proof (cases toks)
  case Nil
  with assms show ?thesis by (simp add: command_handler_def)
next
  case (Cons name rest)
  with assms show ?thesis
    by (auto simp: well_formed_command_def command_handler_closed NAME_SIZE_def dest: in_set_takeD)
qed

section \<open>Keywords\<close>

fun keyword :: "command_kind \<Rightarrow> string" where
  "keyword CONN = ''conn''" | "keyword CONN_SUCCESS = ''connsuccess''"
| "keyword CONN_FAILED = ''connfailed''" | "keyword SAY = ''say''" | "keyword SAYTO = ''sayto''"
| "keyword MUTE = ''mute''" | "keyword UNMUTE = ''unmute''" | "keyword RENAME = ''rename''"
| "keyword DISCONN = ''disconn''" | "keyword DISCONN_RESPONSE = ''disconnresponse''"
| "keyword KICK = ''kick''" | "keyword PING = ''ping''" | "keyword RETPING = ''retping''"
| "keyword ERROR = ''error''" | "keyword UNKNOWN = ''unknown''"

lemma kind_of_keyword [simp]: "kind_of_token (keyword k) = k"
  by (cases k) (simp_all add: kind_of_token_def)

lemma kind_of_token_eq: "k \<noteq> UNKNOWN \<Longrightarrow> kind_of_token t = k \<longleftrightarrow> t = keyword k"
  by (cases k) (auto simp: kind_of_token_def split: if_splits)

end
