(* ===== verification/Client_List.thy ===== *)
theory Client_List
  imports Cmd
begin

text \<open>
  The server's linked list of clients (\<open>server_types.h\<close>, and the two search routines of
  \<open>server_interface.c\<close>) on an explicit heap of nodes, with the head and tail pointers the
  threads share; and its abstract content, the list of the connected clients in the order of
  their connection.
\<close>

record client =
  client_address :: sockaddr_in
  client_name :: string
  last_active :: int
  ping_sent :: int

text \<open>A node adds the \<open>next\<close> pointer. Addresses are numbers, 0 is the null pointer.\<close>

record client_node = client +
  nxt :: nat

record store =
  cells :: "nat \<rightharpoonup> client_node"
  head :: nat
  tail :: nat

section \<open>Operations\<close>

text \<open>
  \<open>p\<close> is the address \<open>malloc\<close> returns and \<open>now\<close> the value of \<open>time(NULL)\<close>. The result of
  \<open>malloc\<close> is not checked.
\<close>

definition add_client_to_list ::
  "nat \<Rightarrow> int \<Rightarrow> store \<Rightarrow> sockaddr_in \<Rightarrow> string \<Rightarrow> store res" where
  "add_client_to_list p now s addr name =
     (if p = 0 then Fault NullDeref
      else
        let n = \<lparr>client_address = addr, client_name = take (NAME_SIZE - 1) name,
                 last_active = now, ping_sent = 0, nxt = 0\<rparr>;
            s1 = s\<lparr>cells := (cells s)(p \<mapsto> n)\<rparr>
        in if head s = 0 then Ok (s1\<lparr>head := p, tail := p\<rparr>)
           else if tail s = 0 then Fault NullDeref
           else case cells s1 (tail s) of
                  None \<Rightarrow> Fault UseAfterFree
                | Some t \<Rightarrow>
                    Ok (s1\<lparr>cells := (cells s1)(tail s \<mapsto> t\<lparr>nxt := p\<rparr>), tail := p\<rparr>))"

partial_function (option) update_loop ::
  "int \<Rightarrow> sockaddr_in \<Rightarrow> (nat \<rightharpoonup> client_node) \<Rightarrow> nat \<Rightarrow> (nat \<rightharpoonup> client_node) run" where
  "update_loop now addr h node =
     (if node = 0 then Some (Ok h)
      else case h node of
             None \<Rightarrow> Some (Fault UseAfterFree)
           | Some n \<Rightarrow>
               if client_address n = addr
               then Some (Ok (h(node \<mapsto> n\<lparr>last_active := now, ping_sent := 0\<rparr>)))
               else update_loop now addr h (nxt n))"

definition update_client_activity :: "int \<Rightarrow> store \<Rightarrow> sockaddr_in \<Rightarrow> store run" where
  "update_client_activity now s addr =
     run_bind (update_loop now addr (cells s) (head s)) (\<lambda>h. Some (Ok (s\<lparr>cells := h\<rparr>)))"

text \<open>The node is unlinked and freed; the result is its address, if there was one.\<close>

definition unlink :: "store \<Rightarrow> nat \<Rightarrow> nat \<Rightarrow> client_node \<Rightarrow> store res" where
  "unlink s last_node iter n =
     (let s1 = (if last_node = 0 then Ok (s\<lparr>head := nxt n\<rparr>)
                else case cells s last_node of
                       None \<Rightarrow> Fault UseAfterFree
                     | Some l \<Rightarrow> Ok (s\<lparr>cells := (cells s)(last_node \<mapsto> l\<lparr>nxt := nxt n\<rparr>)\<rparr>))
      in res_bind s1 (\<lambda>s2.
           let s3 = (if iter = tail s2 then s2\<lparr>tail := last_node\<rparr> else s2)
           in Ok (s3\<lparr>cells := (cells s3)(iter := None)\<rparr>)))"

partial_function (option) remove_loop ::
  "store \<Rightarrow> string \<Rightarrow> nat \<Rightarrow> nat \<Rightarrow> (store \<times> sockaddr_in option) run" where
  "remove_loop s name iter last_node =
     (if iter = 0 then Some (Ok (s, None))
      else case cells s iter of
             None \<Rightarrow> Some (Fault UseAfterFree)
           | Some n \<Rightarrow>
               if client_name n = name
               then Some (res_bind (unlink s last_node iter n)
                            (\<lambda>s'. Ok (s', Some (client_address n))))
               else remove_loop s name (nxt n) iter)"

definition remove_client_from_list :: "store \<Rightarrow> string \<Rightarrow> (store \<times> sockaddr_in option) run" where
  "remove_client_from_list s name = remove_loop s name (head s) 0"

partial_function (option) find_loop ::
  "(client_node \<Rightarrow> bool) \<Rightarrow> (nat \<rightharpoonup> client_node) \<Rightarrow> nat \<Rightarrow> nat run" where
  "find_loop found h iter =
     (if iter = 0 then Some (Ok 0)
      else case h iter of
             None \<Rightarrow> Some (Fault UseAfterFree)
           | Some n \<Rightarrow> if found n then Some (Ok iter) else find_loop found h (nxt n))"

definition find_client :: "store \<Rightarrow> string \<Rightarrow> nat run" where
  "find_client s who = find_loop (\<lambda>n. client_name n = who) (cells s) (head s)"

definition find_client_by_address :: "store \<Rightarrow> sockaddr_in \<Rightarrow> nat run" where
  "find_client_by_address s address =
     find_loop (\<lambda>n. client_address n = address) (cells s) (head s)"

text \<open>Reading a node through a pointer a thread kept.\<close>

definition deref :: "store \<Rightarrow> nat \<Rightarrow> client_node res" where
  "deref s p =
     (if p = 0 then Fault NullDeref
      else case cells s p of None \<Rightarrow> Fault UseAfterFree | Some n \<Rightarrow> Ok n)"

section \<open>Paths through the heap\<close>

fun path :: "(nat \<rightharpoonup> client_node) \<Rightarrow> nat \<Rightarrow> nat list \<Rightarrow> nat \<Rightarrow> bool" where
  "path h p [] q \<longleftrightarrow> p = q"
| "path h p (a # as) q \<longleftrightarrow>
     p = a \<and> a \<noteq> 0 \<and> (case h a of None \<Rightarrow> False | Some n \<Rightarrow> path h (nxt n) as q)"

definition content_of :: "(nat \<rightharpoonup> client_node) \<Rightarrow> nat \<Rightarrow> client" where
  "content_of h p = client.truncate (the (h p))"

text \<open>
  A store represents the clients \<open>cs\<close> at the nodes \<open>ps\<close>: the path from the head through \<open>ps\<close>
  ends in the null pointer, the tail is its last node, and no other node is allocated.
\<close>

definition represents :: "store \<Rightarrow> nat list \<Rightarrow> client list \<Rightarrow> bool" where
  "represents s ps cs \<longleftrightarrow>
     path (cells s) (head s) ps 0 \<and> distinct ps \<and> set ps = dom (cells s) \<and>
     tail s = (if ps = [] then 0 else last ps) \<and> cs = map (content_of (cells s)) ps"

definition store_inv :: "store \<Rightarrow> bool" where
  "store_inv s \<longleftrightarrow> (\<exists>ps cs. represents s ps cs)"

lemma path_append [heap_simps]: "path h p (as @ bs) q \<longleftrightarrow> (\<exists>r. path h p as r \<and> path h r bs q)"
  by (induction as arbitrary: p) (auto split: option.splits)

lemma path_frame [heap_simps]: "a \<notin> set as \<Longrightarrow> path (h(a := v)) p as q = path h p as q"
  by (induction as arbitrary: p) (auto split: option.splits)

lemma path_null [heap_simps]: "path h 0 as q \<longleftrightarrow> as = [] \<and> q = 0"
  by (cases as) auto

lemma path_start: "path h p as 0 \<Longrightarrow> as \<noteq> [] \<Longrightarrow> hd as = p \<and> p \<noteq> 0"
  by (cases as) auto

lemma path_unique: "path h p as 0 \<Longrightarrow> path h p bs 0 \<Longrightarrow> as = bs"
proof (induction as arbitrary: p bs)
  case Nil
  then show ?case by (simp add: path_null)
next
  case (Cons a as)
  then show ?case by (cases bs) (auto split: option.splits)
qed

lemma path_same_next:
  "path h p as q \<Longrightarrow> (\<And>a. a \<in> set as \<Longrightarrow> map_option nxt (h' a) = map_option nxt (h a)) \<Longrightarrow>
   path h' p as q"
proof (induction as arbitrary: p)
  case Nil
  then show ?case by simp
next
  case (Cons a as)
  from Cons.prems(1) obtain n where n: "p = a" "a \<noteq> 0" "h a = Some n" "path h (nxt n) as q"
    by (auto split: option.splits)
  then obtain n' where "h' a = Some n'" "nxt n' = nxt n"
    using Cons.prems(2) [of a] by (auto simp: map_option_case split: option.splits)
  with n Cons.IH [of "nxt n"] Cons.prems(2) show ?case by simp
qed

lemma path_snoc:
  "path h p (as @ [a]) q \<longleftrightarrow> path h p as a \<and> a \<noteq> 0 \<and> (\<exists>n. h a = Some n \<and> nxt n = q)"
  by (auto simp: path_append split: option.splits)

lemma represents_unique:
  "represents s ps cs \<Longrightarrow> represents s qs ds \<Longrightarrow> ps = qs \<and> cs = ds"
  by (auto simp: represents_def dest: path_unique)

lemma represents_length: "represents s ps cs \<Longrightarrow> length ps = length cs"
  by (auto simp: represents_def)

lemma represents_empty: "represents \<lparr>cells = Map.empty, head = 0, tail = 0\<rparr> [] []"
  by (simp add: represents_def)

section \<open>The abstract operations\<close>

fun drop_named :: "string \<Rightarrow> client list \<Rightarrow> client list" where
  "drop_named name [] = []"
| "drop_named name (c # cs) = (if client_name c = name then cs else c # drop_named name cs)"

fun update_first :: "(client \<Rightarrow> bool) \<Rightarrow> (client \<Rightarrow> client) \<Rightarrow> client list \<Rightarrow> client list" where
  "update_first P f [] = []"
| "update_first P f (c # cs) = (if P c then f c # cs else c # update_first P f cs)"

definition touch :: "int \<Rightarrow> sockaddr_in \<Rightarrow> client list \<Rightarrow> client list" where
  "touch now addr =
     update_first (\<lambda>c. client_address c = addr) (\<lambda>c. c\<lparr>last_active := now, ping_sent := 0\<rparr>)"

lemma touch_simps [simp]:
  "touch now addr [] = []"
  "touch now addr (c # cs) =
     (if client_address c = addr then c\<lparr>last_active := now, ping_sent := 0\<rparr> # cs
      else c # touch now addr cs)"
  by (simp_all add: touch_def)

definition new_client :: "sockaddr_in \<Rightarrow> string \<Rightarrow> int \<Rightarrow> client" where
  "new_client addr name now =
     \<lparr>client_address = addr, client_name = take (NAME_SIZE - 1) name, last_active = now,
      ping_sent = 0\<rparr>"

text \<open>The node of the first client with a property, the null pointer if there is none.\<close>

fun first_ptr :: "(client \<Rightarrow> bool) \<Rightarrow> nat list \<Rightarrow> client list \<Rightarrow> nat" where
  "first_ptr P (p # ps) (c # cs) = (if P c then p else first_ptr P ps cs)"
| "first_ptr P ps cs = 0"

lemma content_sel [simp]:
  "h p = Some n \<Longrightarrow> client_address (content_of h p) = client_address n"
  "h p = Some n \<Longrightarrow> client_name (content_of h p) = client_name n"
  "h p = Some n \<Longrightarrow> last_active (content_of h p) = last_active n"
  "h p = Some n \<Longrightarrow> ping_sent (content_of h p) = ping_sent n"
  by (simp_all add: content_of_def client.defs)

lemma content_upd [simp]:
  "content_of (h(p := v)) q = (if q = p then client.truncate (the v) else content_of h q)"
  by (simp add: content_of_def)

lemma truncate_nxt [simp]: "client.truncate (n\<lparr>nxt := q\<rparr>) = client.truncate n"
  by (simp add: client.defs)

lemma content_of_Some: "h p = Some n \<Longrightarrow> content_of h p = client.truncate n"
  by (simp add: content_of_def)

section \<open>Every operation refines its abstract counterpart\<close>

lemma add_represents:
  assumes rep: "represents s ps cs" and p: "p \<noteq> 0" "cells s p = None"
  shows "\<exists>s'. add_client_to_list p now s addr name = Ok s' \<and>
    represents s' (ps @ [p]) (cs @ [new_client addr name now])"
proof -
  let ?n = "\<lparr>client_address = addr, client_name = take (NAME_SIZE - 1) name, last_active = now,
             ping_sent = 0, nxt = 0\<rparr> :: client_node"
  from rep p have fresh: "p \<notin> set ps" by (auto simp: represents_def)
  have new: "client.truncate ?n = new_client addr name now"
    by (simp add: client.defs new_client_def)
  show ?thesis
  proof (cases "ps = []")
    case True
    with rep p new show ?thesis
      by (auto simp: represents_def add_client_to_list_def Let_def content_of_def)
  next
    case False
    then obtain qs t where ps: "ps = qs @ [t]" by (metis rev_exhaust)
    with rep obtain tn where t: "path (cells s) (head s) qs t" "t \<noteq> 0" "cells s t = Some tn"
        "nxt tn = 0" "tail s = t" "distinct ps" "set ps = dom (cells s)"
      by (auto simp: represents_def path_snoc)
    have hd: "head s \<noteq> 0"
      using rep False path_start [of "cells s" "head s" ps] by (auto simp: represents_def)
    have tp: "t \<noteq> p" "t \<notin> set qs" "p \<notin> set qs"
      using fresh ps t(6) by auto
    let ?h = "(cells s)(p \<mapsto> ?n, t \<mapsto> tn\<lparr>nxt := p\<rparr>)"
    let ?s = "s\<lparr>cells := ?h, tail := p\<rparr>"
    have "add_client_to_list p now s addr name = Ok ?s"
      using p hd t tp by (simp add: add_client_to_list_def Let_def)
    moreover have "path ?h (head s) (ps @ [p]) 0"
      using t p tp by (simp add: ps path_append path_frame)
    moreover have "map (content_of ?h) (ps @ [p]) = cs @ [new_client addr name now]"
    proof -
      have "map (content_of ?h) qs = map (content_of (cells s)) qs"
        using tp by (intro map_cong) auto
      then show ?thesis
        using rep tp new t(3) by (simp add: ps represents_def content_of_Some)
    qed
    ultimately show ?thesis
      using t fresh p by (auto simp: represents_def)
  qed
qed

lemma find_loop_path:
  assumes "path h iter ps 0" and "\<And>p n. h p = Some n \<Longrightarrow> f n \<longleftrightarrow> P (content_of h p)"
  shows "find_loop f h iter = Some (Ok (first_ptr P ps (map (content_of h) ps)))"
  using assms(1)
proof (induction ps arbitrary: iter)
  case Nil
  then show ?case by (simp add: find_loop.simps)
next
  case (Cons a ps)
  then obtain n where n: "iter = a" "a \<noteq> 0" "h a = Some n" "path h (nxt n) ps 0"
    by (auto split: option.splits)
  with Cons.IH [OF n(4)] assms(2) [OF n(3)] show ?case by (simp add: find_loop.simps)
qed

lemma find_client_represents:
  "represents s ps cs \<Longrightarrow> find_client s who = Some (Ok (first_ptr (\<lambda>c. client_name c = who) ps cs))"
  unfolding find_client_def represents_def by (auto intro!: find_loop_path)

lemma find_client_by_address_represents:
  "represents s ps cs \<Longrightarrow>
   find_client_by_address s addr = Some (Ok (first_ptr (\<lambda>c. client_address c = addr) ps cs))"
  unfolding find_client_by_address_def represents_def by (auto intro!: find_loop_path)

text \<open>What the pointer found points to.\<close>

lemma first_ptr_find:
  assumes "represents s ps cs"
  shows "case find P cs of
           None \<Rightarrow> first_ptr P ps cs = 0
         | Some c \<Rightarrow> first_ptr P ps cs \<noteq> 0 \<and> first_ptr P ps cs \<in> set ps \<and>
             (\<exists>n. cells s (first_ptr P ps cs) = Some n \<and> client.truncate n = c)"
proof -
  have nz: "0 \<notin> set ps" if "path h p ps 0" for h p
    using that by (induction ps arbitrary: p) (auto split: option.splits)
  have "0 \<notin> set ps" "set ps \<subseteq> dom (cells s)" "cs = map (content_of (cells s)) ps"
    using assms nz by (auto simp: represents_def)
  then show ?thesis
  proof (induction ps arbitrary: cs)
    case Nil
    then show ?case by simp
  next
    case (Cons p ps)
    then obtain n where "cells s p = Some n" by auto
    with Cons.prems Cons.IH [of "map (content_of (cells s)) ps"] show ?case
      by (auto simp: content_of_Some split: option.splits)
  qed
qed

lemma update_loop_path:
  assumes "path h iter ps 0" and "distinct ps"
  shows "\<exists>h'. update_loop now addr h iter = Some (Ok h') \<and> dom h' = dom h \<and>
    (\<forall>q. map_option nxt (h' q) = map_option nxt (h q)) \<and>
    map (content_of h') ps = touch now addr (map (content_of h) ps) \<and>
    (\<forall>q. q \<notin> set ps \<longrightarrow> h' q = h q)"
  using assms
proof (induction ps arbitrary: iter)
  case Nil
  then show ?case by (simp add: update_loop.simps)
next
  case (Cons a ps)
  then obtain n where n: "iter = a" "a \<noteq> 0" "h a = Some n" "path h (nxt n) ps 0"
    by (auto split: option.splits)
  show ?case
  proof (cases "client_address n = addr")
    case True
    have "map (content_of (h(a \<mapsto> n\<lparr>last_active := now, ping_sent := 0\<rparr>))) ps = map (content_of h) ps"
      using Cons.prems by (intro map_cong) auto
    with True n show ?thesis
      by (auto simp: update_loop.simps content_of_Some client.defs)
  next
    case False
    from Cons.IH [OF n(4)] Cons.prems obtain h' where
      h': "update_loop now addr h (nxt n) = Some (Ok h')" "dom h' = dom h"
        "\<forall>q. map_option nxt (h' q) = map_option nxt (h q)"
        "map (content_of h') ps = touch now addr (map (content_of h) ps)"
        "\<forall>q. q \<notin> set ps \<longrightarrow> h' q = h q"
      by auto
    moreover have "content_of h' a = content_of h a"
      using h'(5) Cons.prems by (simp add: content_of_def)
    moreover have "update_loop now addr h iter = update_loop now addr h (nxt n)"
      using False n by (subst update_loop.simps) simp
    ultimately show ?thesis using False n by auto
  qed
qed

lemma update_represents:
  assumes "represents s ps cs"
  shows "\<exists>s'. update_client_activity now s addr = Some (Ok s') \<and>
    represents s' ps (touch now addr cs) \<and> head s' = head s"
proof -
  from assms have p: "path (cells s) (head s) ps 0" "distinct ps" by (simp_all add: represents_def)
  from update_loop_path [OF p, of now addr] obtain h' where
    h': "update_loop now addr (cells s) (head s) = Some (Ok h')" "dom h' = dom (cells s)"
      "\<forall>q. map_option nxt (h' q) = map_option nxt (cells s q)"
      "map (content_of h') ps = touch now addr (map (content_of (cells s)) ps)"
    by blast
  have "path h' (head s) ps 0"
    using p(1) h'(3) by (intro path_same_next [OF p(1)]) auto
  with h' assms show ?thesis
    by (auto simp: update_client_activity_def represents_def)
qed

lemma unlink_represents:
  assumes rep: "represents s (as @ b # bs) (map (content_of (cells s)) (as @ b # bs))"
    and n: "cells s b = Some n" and l: "last_node = (if as = [] then 0 else last as)"
  shows "\<exists>s'. unlink s last_node b n = Ok s' \<and>
    represents s' (as @ bs) (map (content_of (cells s)) (as @ bs))"
proof -
  have d: "distinct (as @ b # bs)" "set (as @ b # bs) = dom (cells s)" "b \<noteq> 0"
      "tail s = last (b # bs)" "path (cells s) (nxt n) bs 0" "path (cells s) (head s) as b"
    using rep n by (auto simp: represents_def path_append)
  show ?thesis
  proof (cases as rule: rev_cases)
    case Nil
    let ?s = "s\<lparr>head := nxt n, tail := (if b = tail s then 0 else tail s), cells := (cells s)(b := None)\<rparr>"
    have "unlink s last_node b n = Ok ?s"
      using l Nil by (simp add: unlink_def Let_def)
    moreover have "map (content_of ((cells s)(b := None))) bs = map (content_of (cells s)) bs"
      using d by (intro map_cong) auto
    moreover have "b = last bs \<Longrightarrow> bs = []" using d(1) last_in_set [of bs] by auto
    ultimately show ?thesis
      using d Nil by (auto simp: represents_def path_frame)
  next
    case (snoc as0 a)
    obtain an where a: "cells s a = Some an" "nxt an = b" "a \<noteq> 0" "path (cells s) (head s) as0 a"
      using d(6) snoc by (auto simp: path_snoc)
    let ?h = "(cells s)(a \<mapsto> an\<lparr>nxt := nxt n\<rparr>)"
    let ?s = "s\<lparr>cells := ?h(b := None), tail := (if b = tail s then a else tail s)\<rparr>"
    have ab: "a \<noteq> b" "a \<notin> set as0" "a \<notin> set bs" "b \<notin> set as0" "b \<notin> set bs"
      using d(1) snoc by auto
    have "unlink s last_node b n = Ok ?s"
      using l a snoc by (simp add: unlink_def Let_def)
    moreover have "path (?h(b := None)) (head s) (as @ bs) 0"
      using a d(5) ab snoc by (simp add: path_append path_frame)
    moreover have "map (content_of (?h(b := None))) (as @ bs) = map (content_of (cells s)) (as @ bs)"
      using ab snoc a(1) by (auto simp: content_of_Some)
    moreover have "b = last bs \<Longrightarrow> bs = []" using d(1) last_in_set [of bs] by auto
    moreover have "set (as @ bs) = dom (?h(b := None))"
      using d(1,2) a(1) snoc by auto
    ultimately show ?thesis
      using d(1,4) snoc by (auto simp: represents_def)
  qed
qed

lemma remove_loop_represents:
  assumes "represents s (as @ bs) (map (content_of (cells s)) (as @ bs))"
    and "path (cells s) iter bs 0" and "last_node = (if as = [] then 0 else last as)"
    and "\<forall>a \<in> set as. client_name (content_of (cells s) a) \<noteq> name"
  shows "\<exists>s' qs. remove_loop s name iter last_node =
      Some (Ok (s', map_option client_address
              (find (\<lambda>c. client_name c = name) (map (content_of (cells s)) bs)))) \<and>
    represents s' qs (drop_named name (map (content_of (cells s)) (as @ bs)))"
  using assms
proof (induction bs arbitrary: as iter last_node)
  case Nil
  have "\<forall>c \<in> set cs. client_name c \<noteq> name \<Longrightarrow> drop_named name cs = cs" for cs
    by (induction cs) auto
  then have "drop_named name (map (content_of (cells s)) as) = map (content_of (cells s)) as"
    using Nil.prems(4) by simp
  with Nil.prems show ?case by (auto simp: remove_loop.simps)
next
  case (Cons b bs)
  then obtain n where n: "iter = b" "b \<noteq> 0" "cells s b = Some n" "path (cells s) (nxt n) bs 0"
    by (auto split: option.splits)
  show ?case
  proof (cases "client_name n = name")
    case True
    from unlink_represents [OF Cons.prems(1) n(3) Cons.prems(3)] obtain s' where
      s': "unlink s last_node b n = Ok s'"
        "represents s' (as @ bs) (map (content_of (cells s)) (as @ bs))" by blast
    have "\<forall>c \<in> set ds. client_name c \<noteq> name \<Longrightarrow> client_name c = name \<Longrightarrow>
      drop_named name (ds @ c # cs) = ds @ cs" for ds c cs
      by (induction ds) auto
    then have "drop_named name (map (content_of (cells s)) (as @ b # bs))
      = map (content_of (cells s)) (as @ bs)"
      using True n(3) Cons.prems(4) by simp
    with True n s' show ?thesis by (auto simp: remove_loop.simps)
  next
    case False
    have "\<exists>s' qs. remove_loop s name (nxt n) b =
        Some (Ok (s', map_option client_address
              (find (\<lambda>c. client_name c = name) (map (content_of (cells s)) bs)))) \<and>
      represents s' qs (drop_named name (map (content_of (cells s)) ((as @ [b]) @ bs)))"
      by (rule Cons.IH) (use Cons.prems False n in auto)
    with False n show ?thesis by (auto simp: remove_loop.simps)
  qed
qed

lemma remove_represents:
  assumes "represents s ps cs"
  shows "\<exists>s' qs. remove_client_from_list s name =
      Some (Ok (s', map_option client_address (find (\<lambda>c. client_name c = name) cs))) \<and>
    represents s' qs (drop_named name cs)"
proof -
  have cs: "cs = map (content_of (cells s)) ps" and p: "path (cells s) (head s) ps 0"
    using assms by (simp_all add: represents_def)
  from remove_loop_represents [of s "[]" ps "head s" 0 name] assms p show ?thesis
    unfolding remove_client_from_list_def by (simp add: cs)
qed

text \<open>Overwriting the node of the first client with a property, its link kept.\<close>

lemma update_first_represents:
  assumes rep: "represents s ps cs" and p: "p = first_ptr P ps cs" and n: "cells s p = Some n"
    and nz: "p \<noteq> 0" and n': "nxt n' = nxt n" "client.truncate n' = f (client.truncate n)"
  shows "represents (s\<lparr>cells := (cells s)(p \<mapsto> n')\<rparr>) ps (update_first P f cs)"
proof -
  let ?h = "(cells s)(p \<mapsto> n')"
  have path: "path ?h (head s) ps 0"
    by (rule path_same_next [where h = "cells s"]) (use rep n n'(1) in \<open>auto simp: represents_def\<close>)
  have dom: "dom ?h = dom (cells s)" using n by auto
  have "map (content_of ?h) ps = update_first P f cs"
    if "distinct ps" "cs = map (content_of (cells s)) ps" "p = first_ptr P ps cs"
    using that nz
  proof (induction ps arbitrary: cs)
    case Nil
    then show ?case by simp
  next
    case (Cons q qs)
    show ?case
    proof (cases "P (content_of (cells s) q)")
      case True
      have pq: "p = q" using Cons.prems(2,3) True by simp
      have rest: "map (content_of ?h) qs = map (content_of (cells s)) qs"
        using Cons.prems(1) pq by (intro map_cong) auto
      have new: "content_of ?h q = f (client.truncate n)" using pq n'(2) by simp
      have cs: "cs = client.truncate n # map (content_of (cells s)) qs"
        using Cons.prems(2) pq n by (simp add: content_of_Some)
      have "P (client.truncate n)" using True pq n by (simp add: content_of_Some)
      then show ?thesis unfolding cs list.map rest new by simp
    next
      case False
      with Cons.prems have eq: "p = first_ptr P qs (map (content_of (cells s)) qs)" by simp
      have "first_ptr P xs ys = 0 \<or> first_ptr P xs ys \<in> set xs" for xs ys
        by (induction P xs ys rule: first_ptr.induct) auto
      then have "p \<in> set qs" using eq nz by metis
      then have "q \<noteq> p" using Cons.prems(1) by auto
      then have same: "content_of ?h q = content_of (cells s) q" by simp
      have rest: "map (content_of ?h) qs = update_first P f (map (content_of (cells s)) qs)"
        by (rule Cons.IH [OF _ refl eq nz]) (use Cons.prems(1) in simp)
      show ?thesis unfolding Cons.prems(2) list.map rest same using False by simp
    qed
  qed
  with rep p path dom show ?thesis by (simp add: represents_def)
qed

lemma deref_first_ptr:
  assumes "represents s ps cs"
  shows "find P cs = None \<Longrightarrow> first_ptr P ps cs = 0"
    and "find P cs = Some c \<Longrightarrow> \<exists>n. deref s (first_ptr P ps cs) = Ok n \<and> client.truncate n = c \<and>
      first_ptr P ps cs \<noteq> 0 \<and> cells s (first_ptr P ps cs) = Some n"
  using first_ptr_find [OF assms, of P] by (auto simp: deref_def)

lemma first_ptr_case:
  assumes "represents s ps cs"
  shows "case find P cs of None \<Rightarrow> first_ptr P ps cs = 0
    | Some c \<Rightarrow> first_ptr P ps cs \<noteq> 0 \<and> (\<exists>n. deref s (first_ptr P ps cs) = Ok n \<and> client.truncate n = c)"
  using deref_first_ptr [OF assms, of P] by (cases "find P cs") auto

lemma truncate_sel [simp]:
  "client_address (client.truncate n) = client_address n"
  "client_name (client.truncate n) = client_name n"
  "last_active (client.truncate n) = last_active n"
  "ping_sent (client.truncate n) = ping_sent n"
  by (simp_all add: client.defs)

lemma represents_head:
  assumes "represents s ps cs"
  shows "cs = [] \<Longrightarrow> head s = 0"
    and "cs = c # ds \<Longrightarrow> \<exists>n. deref s (head s) = Ok n \<and> client.truncate n = c \<and> head s \<noteq> 0"
  using assms by (auto simp: represents_def deref_def content_of_def split: option.splits)

lemma touch_maps [simp]:
  "map client_address (touch now addr cs) = map client_address cs"
  "map client_name (touch now addr cs) = map client_name cs"
  by (induction cs) auto

lemma length_touch [simp]: "length (touch now addr cs) = length cs"
  by (induction cs) auto

section \<open>Sequences of operations\<close>

datatype roster_op =
  Join nat int sockaddr_in string
| Leave string
| Touch int sockaddr_in

fun roster_exec :: "roster_op \<Rightarrow> store \<Rightarrow> (store \<times> sockaddr_in option) run" where
  "roster_exec (Join p now addr name) s =
     Some (res_bind (add_client_to_list p now s addr name) (\<lambda>s'. Ok (s', None)))"
| "roster_exec (Leave name) s = remove_client_from_list s name"
| "roster_exec (Touch now addr) s =
     run_bind (update_client_activity now s addr) (\<lambda>s'. Some (Ok (s', None)))"

fun roster_spec :: "roster_op \<Rightarrow> client list \<Rightarrow> client list \<times> sockaddr_in option" where
  "roster_spec (Join p now addr name) cs = (cs @ [new_client addr name now], None)"
| "roster_spec (Leave name) cs =
     (drop_named name cs, map_option client_address (find (\<lambda>c. client_name c = name) cs))"
| "roster_spec (Touch now addr) cs = (touch now addr cs, None)"

text \<open>What \<open>malloc\<close> promises: a block that is not null and not in use.\<close>

fun roster_guard :: "roster_op \<Rightarrow> store \<Rightarrow> client list \<Rightarrow> bool" where
  "roster_guard (Join p now addr name) s cs \<longleftrightarrow> p \<noteq> 0 \<and> cells s p = None"
| "roster_guard op s cs \<longleftrightarrow> True"

definition roster_rep :: "store \<Rightarrow> client list \<Rightarrow> bool" where
  "roster_rep s cs \<longleftrightarrow> (\<exists>ps. represents s ps cs)"

interpretation roster: refinement roster_rep roster_guard roster_exec roster_spec
proof unfold_locales
  fix s cs op
  assume "roster_rep s cs" and g: "roster_guard op s cs"
  then obtain ps where rep: "represents s ps cs" by (auto simp: roster_rep_def)
  show "\<exists>s'. roster_exec op s = Some (Ok (s', snd (roster_spec op cs))) \<and>
    roster_rep s' (fst (roster_spec op cs))"
  proof (cases op)
    case (Join p now addr name)
    with g add_represents [OF rep, of p now addr name] show ?thesis
      by (auto simp: roster_rep_def)
  next
    case (Leave name)
    with remove_represents [OF rep, of name] show ?thesis by (auto simp: roster_rep_def)
  next
    case (Touch now addr)
    with update_represents [OF rep, of now addr] show ?thesis by (auto simp: roster_rep_def)
  qed
qed

definition empty_store :: store where
  "empty_store = \<lparr>cells = Map.empty, head = 0, tail = 0\<rparr>"

text \<open>
  C13. The linked list is correct as a list: any sequence of additions, removals and activity
  updates on the empty list returns without touching a null or freed pointer, reports the
  removed addresses the plain list operations report, and leaves a well-formed list (head and
  tail right, no cycle, no leaked node) that holds exactly the clients they leave. The hypothesis
  is that \<open>malloc\<close> returns unused blocks.
\<close>

theorem client_list_refines:
  assumes "guarded roster_guard roster_exec roster_spec empty_store [] ops"
  shows "\<exists>s ps. exec_run roster_exec empty_store ops = Some (Ok (s, snd (spec_run roster_spec [] ops)))
    \<and> represents s ps (fst (spec_run roster_spec [] ops))"
  using roster.run_simulates [OF _ assms] represents_empty
  by (auto simp: roster_rep_def empty_store_def)

theorem client_list_refines_witness:
  "\<exists>s ps. exec_run roster_exec empty_store
      [Join 8 1 zero_addr ''A'', Join 16 2 zero_addr ''B'', Leave ''B'', Join 16 3 zero_addr ''C'',
       Leave ''A'', Leave ''D''] =
      Some (Ok (s, [None, None, Some zero_addr, None, Some zero_addr, None]))
    \<and> represents s ps [new_client zero_addr ''C'' 3]"
proof -
  let ?ops = "[Join 8 1 zero_addr ''A'', Join 16 2 zero_addr ''B'', Leave ''B'',
    Join 16 3 zero_addr ''C'', Leave ''A'', Leave ''D'']"
  have g: "guarded roster_guard roster_exec roster_spec empty_store [] ?ops"
    by (simp add: empty_store_def add_client_to_list_def Let_def remove_client_from_list_def
        remove_loop.simps unlink_def NAME_SIZE_def)
  have eq: "spec_run roster_spec [] ?ops =
    ([new_client zero_addr ''C'' 3], [None, None, Some zero_addr, None, Some zero_addr, None])"
    by (simp add: new_client_def NAME_SIZE_def)
  show ?thesis using client_list_refines [OF g] by (simp only: eq fst_conv snd_conv)
qed

end
