(* ===== verification/Server.thy ===== *)
theory Server
  imports Client_List
begin

text \<open>
  The request handlers of \<open>server_interface.c\<close> and \<open>join_args\<close> of \<open>server_types.h\<close>. A handler
  runs in a thread of its own and is cut where it enters or leaves a critical section of the
  monitor: each piece is a definition, and the handler is their composition. The buffers sent
  are the texts in them; what follows the NUL is uninitialised memory.
\<close>

definition MAX_NAME_LEN :: nat where "MAX_NAME_LEN = 30"
definition CHAT_HISTORY_SIZE :: nat where "CHAT_HISTORY_SIZE = 15"

lemmas server_consts = cmd_consts MAX_NAME_LEN_def CHAT_HISTORY_SIZE_def

section \<open>Joining the arguments of a command\<close>

text \<open>
  \<open>strcat\<close> appends to a buffer of \<open>max_len\<close> bytes; \<open>current_len\<close> is the count the code keeps
  beside it.
\<close>

function join_args_loop :: "string list \<Rightarrow> nat \<Rightarrow> nat \<Rightarrow> bool \<Rightarrow> nat \<Rightarrow> string \<Rightarrow> string res" where
  "join_args_loop rows i max_len first current_len result =
     (if i < MAX_CMD_SIZE \<and> rows ! i \<noteq> '''' then
        (let sep = \<not> first \<and> current_len < max_len - 1;
             len1 = (if sep then current_len + 1 else current_len);
             arg_len = length (rows ! i)
         in case (if sep then strcat max_len result '' '' else Ok result) of
              Inl e \<Rightarrow> Fault e
            | Inr r1 \<Rightarrow>
                if len1 + arg_len < max_len - 1 then
                  (case strcat max_len r1 (rows ! i) of
                     Inl e \<Rightarrow> Fault e
                   | Inr r2 \<Rightarrow> join_args_loop rows (i + 1) max_len False (len1 + arg_len) r2)
                else Ok r1)
      else Ok result)"
  by pat_completeness auto
termination
  by (relation "measure (\<lambda>(rows, i, _). MAX_CMD_SIZE - i)") auto

declare join_args_loop.simps [simp del]

definition join_args :: "string list \<Rightarrow> nat \<Rightarrow> nat \<Rightarrow> string res" where
  "join_args rows start_index max_len = join_args_loop rows start_index max_len True 0 ''''"

section \<open>State\<close>

text \<open>
  The state the handler threads share: the client list, and the chat history, an array of
  \<open>MAX_MSGS\<close> pointers with a counter, which no lock protects.
\<close>

record server =
  clients :: store
  chat_history :: "string option list"
  chat_historyc :: nat

definition server_init :: server where
  "server_init = \<lparr>clients = empty_store, chat_history = replicate MAX_MSGS None, chat_historyc = 0\<rparr>"

definition arg :: "command_t \<Rightarrow> nat \<Rightarrow> string" where
  "arg cmd i = args cmd ! i"

section \<open>connect\<close>

definition connect_add :: "nat \<Rightarrow> int \<Rightarrow> command_t \<Rightarrow> sockaddr_in \<Rightarrow> server \<Rightarrow> server res" where
  "connect_add p now cmd from st =
     res_bind (add_client_to_list p now (clients st) from (arg cmd 0))
       (\<lambda>s. Ok (st\<lparr>clients := s\<rparr>))"

definition history_start :: "nat \<Rightarrow> nat" where
  "history_start c = (if c > CHAT_HISTORY_SIZE then c - CHAT_HISTORY_SIZE else 0)"

definition history_slot :: "sockaddr_in \<Rightarrow> nat \<Rightarrow> server \<Rightarrow> datagram list res" where
  "history_slot from i st =
     (if i < length (chat_history st)
      then Ok (case chat_history st ! i of
                 None \<Rightarrow> []
               | Some m \<Rightarrow> [udp_socket_write from (snprintf RESPONSE_BUFFER_SIZE (''say$ '' @ m))
                             RESPONSE_BUFFER_SIZE])
      else Fault OutOfBounds)"

text \<open>The loop reads the counter anew before each line.\<close>

function send_history :: "sockaddr_in \<Rightarrow> nat \<Rightarrow> server \<Rightarrow> datagram list res" where
  "send_history from i st =
     (if i < chat_historyc st
      then res_bind (history_slot from i st) (\<lambda>d.
             res_bind (send_history from (i + 1) st) (\<lambda>ds. Ok (d @ ds)))
      else Ok [])"
  by pat_completeness auto
termination
  by (relation "measure (\<lambda>(from, i, st). chat_historyc st - i)") auto

declare send_history.simps [simp del]

lemma send_history_end [simp]: "chat_historyc st \<le> i \<Longrightarrow> send_history from i st = Ok []"
  by (simp add: send_history.simps)

definition connect_reply :: "command_t \<Rightarrow> sockaddr_in \<Rightarrow> datagram list res" where
  "connect_reply cmd from =
     res_bind (strcpy BUFFER_SIZE (''connsuccess$ '' @ arg cmd 0))
       (\<lambda>r. Ok [udp_socket_write from r MAX_MESSAGE])"

definition connect_to_server ::
  "nat \<Rightarrow> int \<Rightarrow> command_t \<Rightarrow> sockaddr_in \<Rightarrow> server \<Rightarrow> (server \<times> datagram list) run" where
  "connect_to_server p now cmd from st =
     Some (res_bind (connect_add p now cmd from st) (\<lambda>st1.
       res_bind (connect_reply cmd from) (\<lambda>ds.
       res_bind (send_history from (history_start (chat_historyc st1)) st1) (\<lambda>hs.
         Ok (st1, ds @ hs)))))"

section \<open>sayto\<close>

definition sayto_lookup :: "command_t \<Rightarrow> sockaddr_in \<Rightarrow> server \<Rightarrow> (nat \<times> nat) run" where
  "sayto_lookup cmd from st =
     run_bind (find_client (clients st) (arg cmd 0)) (\<lambda>client.
     run_bind (find_client_by_address (clients st) from) (\<lambda>from_who.
     Some (Ok (client, from_who))))"

text \<open>
  In the last branch the address of a field of \<open>from_who\<close> is taken, not its content; for a null
  \<open>from_who\<close> the kernel refuses the bad address (\<open>EFAULT\<close>) and nothing is sent.
\<close>

definition sayto_send :: "command_t \<Rightarrow> nat \<Rightarrow> nat \<Rightarrow> server \<Rightarrow> datagram list res" where
  "sayto_send cmd client from_who st =
     res_bind (join_args (args cmd) 1 MAX_MESSAGE) (\<lambda>message.
       if client \<noteq> 0 then
         res_bind (deref (clients st) from_who) (\<lambda>f.
         res_bind (deref (clients st) client) (\<lambda>c.
           Ok [udp_socket_write (client_address c)
                 (snprintf RESPONSE_BUFFER_SIZE
                    (''say$ '' @ client_name f @ '':(private message) '' @ message))
                 RESPONSE_BUFFER_SIZE,
               udp_socket_write (client_address f)
                 (snprintf RESPONSE_BUFFER_SIZE
                    (''say$ you to '' @ arg cmd 0 @ '':(private message) '' @ message))
                 RESPONSE_BUFFER_SIZE]))
       else if from_who = 0 then Ok []
       else res_bind (deref (clients st) from_who) (\<lambda>f.
              Ok [udp_socket_write (client_address f)
                    (snprintf RESPONSE_BUFFER_SIZE (''error$ User not found. ('' @ arg cmd 0 @ '')''))
                    RESPONSE_BUFFER_SIZE]))"

definition sayto :: "command_t \<Rightarrow> sockaddr_in \<Rightarrow> server \<Rightarrow> (server \<times> datagram list) run" where
  "sayto cmd from st =
     run_bind (sayto_lookup cmd from st) (\<lambda>(client, from_who).
       Some (res_bind (sayto_send cmd client from_who st) (\<lambda>ds. Ok (st, ds))))"

section \<open>say\<close>

text \<open>The first node is read before the monitor is entered.\<close>

definition say_head :: "server \<Rightarrow> nat" where
  "say_head st = head (clients st)"

definition say_lookup :: "sockaddr_in \<Rightarrow> server \<Rightarrow> nat run" where
  "say_lookup from st = find_client_by_address (clients st) from"

text \<open>Formatting the line and recording it, outside the monitor.\<close>

definition say_record :: "command_t \<Rightarrow> nat \<Rightarrow> server \<Rightarrow> (server \<times> string) res" where
  "say_record cmd from_who st =
     res_bind (join_args (args cmd) 0 MAX_MESSAGE) (\<lambda>message.
     res_bind (deref (clients st) from_who) (\<lambda>f.
       let full_message = snprintf (MAX_MESSAGE + MAX_NAME_LEN + 2) (client_name f @ '': '' @ message);
           server_response = snprintf RESPONSE_BUFFER_SIZE (''say$ '' @ full_message);
           st' = (if chat_historyc st < MAX_MSGS
                  then st\<lparr>chat_history := (chat_history st)[chat_historyc st := Some full_message],
                          chat_historyc := chat_historyc st + 1\<rparr>
                  else st)
       in Ok (st', server_response)))"

partial_function (option) broadcast_loop ::
  "string \<Rightarrow> (nat \<rightharpoonup> client_node) \<Rightarrow> datagram list \<Rightarrow> nat \<Rightarrow> datagram list run" where
  "broadcast_loop text h sent node =
     (if node = 0 then Some (Ok sent)
      else case h node of
             None \<Rightarrow> Some (Fault UseAfterFree)
           | Some n \<Rightarrow>
               broadcast_loop text h
                 (sent @ [udp_socket_write (client_address n) text RESPONSE_BUFFER_SIZE]) (nxt n))"

definition broadcast :: "string \<Rightarrow> server \<Rightarrow> nat \<Rightarrow> datagram list run" where
  "broadcast text st node = broadcast_loop text (cells (clients st)) [] node"

definition say :: "command_t \<Rightarrow> sockaddr_in \<Rightarrow> server \<Rightarrow> (server \<times> datagram list) run" where
  "say cmd from st =
     (let node = say_head st in
      run_bind (say_lookup from st) (\<lambda>from_who.
      run_bind (Some (say_record cmd from_who st)) (\<lambda>(st1, text).
      run_bind (broadcast text st1 node) (\<lambda>ds. Some (Ok (st1, ds))))))"

section \<open>disconnect\<close>

definition disconnect_lookup :: "sockaddr_in \<Rightarrow> server \<Rightarrow> nat run" where
  "disconnect_lookup from st = find_client_by_address (clients st) from"

text \<open>
  \<open>node\<close> is the node found before; the name compared with is the field of that node, read when
  the list is searched.
\<close>

definition disconnect_remove :: "nat \<Rightarrow> server \<Rightarrow> (server \<times> sockaddr_in option) run" where
  "disconnect_remove node st =
     (if head (clients st) = 0 then Some (Ok (st, None))
      else run_bind (Some (deref (clients st) node)) (\<lambda>n.
           run_bind (remove_client_from_list (clients st) (client_name n)) (\<lambda>(s, addr).
           Some (Ok (st\<lparr>clients := s\<rparr>, addr)))))"

definition disconnect_reply :: "sockaddr_in option \<Rightarrow> datagram list" where
  "disconnect_reply addr =
     (case addr of
        None \<Rightarrow> []
      | Some a \<Rightarrow> [udp_socket_write a (snprintf MAX_MESSAGE ''disconnresponse$'') MAX_MESSAGE])"

definition disconnect :: "sockaddr_in \<Rightarrow> server \<Rightarrow> (server \<times> datagram list) run" where
  "disconnect from st =
     run_bind (disconnect_lookup from st) (\<lambda>node.
       if node = 0 then Some (Ok (st, []))
       else run_bind (disconnect_remove node st) (\<lambda>(st1, addr).
              Some (Ok (st1, disconnect_reply addr))))"

section \<open>mute, unmute, unknown commands\<close>

definition mute :: "command_t \<Rightarrow> sockaddr_in \<Rightarrow> datagram list" where
  "mute cmd from = [udp_socket_write from (snprintf MAX_MESSAGE (''mute$ '' @ arg cmd 0)) MAX_MESSAGE]"

definition unmute :: "command_t \<Rightarrow> sockaddr_in \<Rightarrow> datagram list" where
  "unmute cmd from = [udp_socket_write from (snprintf MAX_MESSAGE (''unmute$ '' @ arg cmd 0)) MAX_MESSAGE]"

definition handle_unknown_command :: "sockaddr_in \<Rightarrow> datagram list" where
  "handle_unknown_command from =
     [udp_socket_write from (snprintf MAX_MESSAGE ''error$ Unknown command'') MAX_MESSAGE]"

section \<open>rename\<close>

definition rename_update :: "command_t \<Rightarrow> sockaddr_in \<Rightarrow> server \<Rightarrow> server run" where
  "rename_update cmd from st =
     run_bind (find_client_by_address (clients st) from) (\<lambda>client.
     run_bind (Some (deref (clients st) client)) (\<lambda>n.
     run_bind (Some (strcpy NAME_SIZE (arg cmd 0))) (\<lambda>name.
       Some (Ok (st\<lparr>clients := (clients st)
         \<lparr>cells := (cells (clients st))(client \<mapsto> n\<lparr>client_name := name\<rparr>)\<rparr>\<rparr>)))))"

definition rename_reply :: "command_t \<Rightarrow> sockaddr_in \<Rightarrow> datagram list" where
  "rename_reply cmd from =
     [udp_socket_write from (snprintf MAX_MESSAGE (''rename$ '' @ arg cmd 0)) MAX_MESSAGE]"

definition rename_client :: "command_t \<Rightarrow> sockaddr_in \<Rightarrow> server \<Rightarrow> (server \<times> datagram list) run" where
  "rename_client cmd from st =
     run_bind (rename_update cmd from st) (\<lambda>st1. Some (Ok (st1, rename_reply cmd from)))"

section \<open>kick\<close>

definition kick_is_admin :: "sockaddr_in \<Rightarrow> server \<Rightarrow> bool res" where
  "kick_is_admin from st =
     (let head_node = head (clients st)
      in if head_node = 0 then Ok False
         else res_bind (deref (clients st) head_node) (\<lambda>n. Ok (client_address n = from)))"

definition kick_denied :: "sockaddr_in \<Rightarrow> datagram list" where
  "kick_denied from =
     [udp_socket_write from
        (snprintf MAX_MESSAGE ''error$ Permission denied. Only admin can kick users.'') MAX_MESSAGE]"

definition kick_remove :: "command_t \<Rightarrow> server \<Rightarrow> (server \<times> sockaddr_in option) run" where
  "kick_remove cmd st =
     run_bind (remove_client_from_list (clients st) (arg cmd 0)) (\<lambda>(s, addr).
       Some (Ok (st\<lparr>clients := s\<rparr>, addr)))"

definition kick_announce :: "command_t \<Rightarrow> server \<Rightarrow> datagram list run" where
  "kick_announce cmd st =
     broadcast (snprintf RESPONSE_BUFFER_SIZE (''say$ SERVER: '' @ arg cmd 0 @ '' has been kicked''))
       st (head (clients st))"

definition kick :: "command_t \<Rightarrow> sockaddr_in \<Rightarrow> server \<Rightarrow> (server \<times> datagram list) run" where
  "kick cmd from st =
     run_bind (Some (kick_is_admin from st)) (\<lambda>is_admin.
       if \<not> is_admin then Some (Ok (st, kick_denied from))
       else run_bind (kick_remove cmd st) (\<lambda>(st1, addr).
              case addr of
                None \<Rightarrow> Some (Ok (st1, []))
              | Some a \<Rightarrow>
                  run_bind (kick_announce cmd st1) (\<lambda>ds.
                    Some (Ok (st1, disconnect_reply (Some a) @ ds)))))"

section \<open>Dispatch\<close>

text \<open>
  \<open>spawn_execute_command_threads\<close> marks the sender as active, without the monitor, and starts
  the thread of the command; some kinds start none.
\<close>

definition mark_active :: "int \<Rightarrow> command_t \<Rightarrow> sockaddr_in \<Rightarrow> server \<Rightarrow> server run" where
  "mark_active now cmd from st =
     (if kind cmd \<noteq> CONN
      then run_bind (update_client_activity now (clients st) from) (\<lambda>s. Some (Ok (st\<lparr>clients := s\<rparr>)))
      else Some (Ok st))"

definition run_handler ::
  "nat \<Rightarrow> int \<Rightarrow> command_t \<Rightarrow> sockaddr_in \<Rightarrow> server \<Rightarrow> (server \<times> datagram list) run" where
  "run_handler p now cmd from st =
     (case kind cmd of
        CONN \<Rightarrow> connect_to_server p now cmd from st
      | SAY \<Rightarrow> say cmd from st
      | SAYTO \<Rightarrow> sayto cmd from st
      | DISCONN \<Rightarrow> disconnect from st
      | MUTE \<Rightarrow> Some (Ok (st, mute cmd from))
      | UNMUTE \<Rightarrow> Some (Ok (st, unmute cmd from))
      | RENAME \<Rightarrow> rename_client cmd from st
      | KICK \<Rightarrow> kick cmd from st
      | RETPING \<Rightarrow> Some (Ok (st, []))
      | UNKNOWN \<Rightarrow> Some (Ok (st, handle_unknown_command from))
      | _ \<Rightarrow> Some (Ok (st, [])))"

text \<open>One request served from dispatch to the end of its handler with nothing in between.\<close>

definition serve ::
  "nat \<Rightarrow> int \<Rightarrow> command_t \<Rightarrow> sockaddr_in \<Rightarrow> server \<Rightarrow> (server \<times> datagram list) run" where
  "serve p now cmd from st =
     run_bind (mark_active now cmd from st) (\<lambda>st1. run_handler p now cmd from st1)"

end
