(* ===== verification/Chat_Room.thy ===== *)
theory Chat_Room
  imports Server
begin

text \<open>
  The abstract server: a chat room is the list of its members in the order they joined and the
  log of the recorded lines. \<open>room_serve\<close> says what each request does to the room and which
  datagrams answer it; the handlers of theory \<open>Server\<close>, on the heap of nodes and the array of
  pointers, are shown to do the same.
\<close>

record room =
  members :: "client list"
  log :: "string list"

section \<open>The text of a message\<close>

fun joined_from :: "nat \<Rightarrow> bool \<Rightarrow> string \<Rightarrow> string list \<Rightarrow> string" where
  "joined_from max_len first acc [] = acc"
| "joined_from max_len first acc (w # ws) =
     (let acc' = (if \<not> first \<and> length acc < max_len - 1 then acc @ '' '' else acc)
      in if length acc' + length w < max_len - 1 then joined_from max_len False (acc' @ w) ws
         else acc')"

text \<open>The arguments that count: the rows from \<open>i\<close> to the first empty one.\<close>

definition args_from :: "nat \<Rightarrow> command_t \<Rightarrow> string list" where
  "args_from i cmd = takeWhile (\<lambda>w. w \<noteq> '''') (drop i (args cmd))"

definition message_of :: "nat \<Rightarrow> command_t \<Rightarrow> string" where
  "message_of i cmd = joined_from MAX_MESSAGE True '''' (args_from i cmd)"

lemma join_args_loop_eq:
  assumes "length rows = MAX_CMD_SIZE" and "length acc < max_len"
  shows "join_args_loop rows i max_len first (length acc) acc =
    Ok (joined_from max_len first acc (takeWhile (\<lambda>w. w \<noteq> '''') (drop i rows)))"
  using assms(2)
proof (induction "MAX_CMD_SIZE - i" arbitrary: i first acc)
  case 0
  then show ?case using assms(1) by (subst join_args_loop.simps) simp
next
  case (Suc k)
  then have i: "i < length rows" using assms(1) by simp
  then have dr: "drop i rows = rows ! i # drop (Suc i) rows"
    by (simp add: Cons_nth_drop_Suc)
  let ?acc = "if \<not> first \<and> length acc < max_len - 1 then acc @ '' '' else acc"
  show ?case
  proof (cases "rows ! i = '''' \<or> \<not> length ?acc + length (rows ! i) < max_len - 1")
    case True
    then show ?thesis
      using Suc.prems i assms(1)
      by (subst join_args_loop.simps) (auto simp: dr strcat_def Let_def)
  next
    case False
    have "k = MAX_CMD_SIZE - Suc i" using Suc.hyps(2) by simp
    moreover have "length (?acc @ rows ! i) < max_len" using False by auto
    ultimately have "join_args_loop rows (Suc i) max_len False (length (?acc @ rows ! i)) (?acc @ rows ! i)
        = Ok (joined_from max_len False (?acc @ rows ! i) (takeWhile (\<lambda>w. w \<noteq> '''') (drop (Suc i) rows)))"
      by (rule Suc.hyps(1))
    then show ?thesis
      using False Suc.prems i assms(1)
      by (subst join_args_loop.simps) (auto simp: dr strcat_def Let_def split: if_splits)
  qed
qed

lemma joined_from_length: "length acc < max_len \<Longrightarrow> length (joined_from max_len first acc ws) < max_len"
  by (induction max_len first acc ws rule: joined_from.induct) (auto simp: Let_def)

lemma joined_from_no_nul:
  "no_nul acc \<Longrightarrow> \<forall>w \<in> set ws. no_nul w \<Longrightarrow> no_nul (joined_from max_len first acc ws)"
  by (induction max_len first acc ws rule: joined_from.induct) (auto simp: Let_def)

lemma joined_from_fits:
  "\<forall>w \<in> set ws. w \<noteq> [] \<Longrightarrow> ws \<noteq> [] \<Longrightarrow>
   length acc + (if first then 0 else 1) + length (unwords ws) < max_len - 1 \<Longrightarrow>
   joined_from max_len first acc ws = (if first then acc else acc @ '' '') @ unwords ws"
proof (induction ws arbitrary: first acc)
  case Nil
  then show ?case by simp
next
  case (Cons w ws)
  show ?case
  proof (cases "ws = []")
    case True
    with Cons.prems show ?thesis by (auto simp: Let_def)
  next
    case False
    then have u: "unwords (w # ws) = w @ SP # unwords ws" by (cases ws) simp_all
    let ?acc = "(if first then acc else acc @ '' '') @ w"
    have "joined_from max_len False ?acc ws = ?acc @ '' '' @ unwords ws"
      using Cons.IH [of ?acc False] Cons.prems False by (auto simp: u)
    moreover have "joined_from max_len first acc (w # ws) = joined_from max_len False ?acc ws"
      using Cons.prems by (auto simp: u Let_def)
    ultimately show ?thesis by (simp add: u)
  qed
qed

text \<open>
  Joining never overruns the message buffer: for every full command it returns a text
  shorter than the buffer, which is the arguments joined by single spaces whenever they fit with
  one byte to spare.
\<close>

lemma join_args_safe:
  assumes "length (args cmd) = MAX_CMD_SIZE" and "0 < max_len"
  shows "\<exists>r. join_args (args cmd) i max_len = Ok r \<and> length r < max_len \<and>
    (length (unwords (args_from i cmd)) + 1 < max_len \<longrightarrow> r = unwords (args_from i cmd))"
proof -
  have "join_args (args cmd) i max_len = Ok (joined_from max_len True '''' (args_from i cmd))"
    using join_args_loop_eq [OF assms(1), of "''''" max_len i True] assms(2)
    by (simp add: join_args_def args_from_def)
  moreover have "joined_from max_len True '''' (args_from i cmd) = unwords (args_from i cmd)"
    if "length (unwords (args_from i cmd)) + 1 < max_len"
  proof (cases "args_from i cmd = []")
    case True
    then show ?thesis by simp
  next
    case False
    have "\<forall>w \<in> set (args_from i cmd). w \<noteq> []"
      by (auto simp: args_from_def dest: set_takeWhileD)
    with False that show ?thesis
      using joined_from_fits [of "args_from i cmd" "''''" True max_len] by simp
  qed
  ultimately show ?thesis
    using joined_from_length [of "''''" max_len True "args_from i cmd"] assms(2) by simp
qed

lemma join_args_message:
  "length (args cmd) = MAX_CMD_SIZE \<Longrightarrow> join_args (args cmd) i MAX_MESSAGE = Ok (message_of i cmd)"
  using join_args_loop_eq [of "args cmd" "''''" MAX_MESSAGE i True]
  by (simp add: join_args_def args_from_def message_of_def MAX_MESSAGE_def)

lemma message_of_length: "length (message_of i cmd) < MAX_MESSAGE"
  unfolding message_of_def by (rule joined_from_length) (simp add: MAX_MESSAGE_def)

section \<open>Requests\<close>

text \<open>The line of a broadcast, as it is recorded and sent.\<close>

definition line_of :: "string \<Rightarrow> string \<Rightarrow> string" where
  "line_of name message = snprintf (MAX_MESSAGE + MAX_NAME_LEN + 2) (name @ '': '' @ message)"

definition say_text :: "string \<Rightarrow> string" where
  "say_text line = snprintf RESPONSE_BUFFER_SIZE (''say$ '' @ line)"

definition to_all :: "string \<Rightarrow> client list \<Rightarrow> datagram list" where
  "to_all text cs = map (\<lambda>c. udp_socket_write (client_address c) text RESPONSE_BUFFER_SIZE) cs"

definition recent :: "string list \<Rightarrow> string list" where
  "recent lines = drop (length lines - CHAT_HISTORY_SIZE) lines"

definition by_address :: "sockaddr_in \<Rightarrow> client \<Rightarrow> bool" where
  "by_address a c \<longleftrightarrow> client_address c = a"

definition by_name :: "string \<Rightarrow> client \<Rightarrow> bool" where
  "by_name n c \<longleftrightarrow> client_name c = n"

definition room_connect :: "int \<Rightarrow> command_t \<Rightarrow> sockaddr_in \<Rightarrow> room \<Rightarrow> room \<times> datagram list" where
  "room_connect now cmd from r =
     (r\<lparr>members := members r @ [new_client from (arg cmd 0) now]\<rparr>,
      udp_socket_write from (''connsuccess$ '' @ arg cmd 0) MAX_MESSAGE #
      map (\<lambda>m. udp_socket_write from (say_text m) RESPONSE_BUFFER_SIZE) (recent (log r)))"

definition room_say :: "command_t \<Rightarrow> sockaddr_in \<Rightarrow> room \<Rightarrow> room \<times> datagram list" where
  "room_say cmd from r =
     (case find (by_address from) (members r) of
        None \<Rightarrow> (r, [])
      | Some c \<Rightarrow>
          (let line = line_of (client_name c) (message_of 0 cmd)
           in (if length (log r) < MAX_MSGS then r\<lparr>log := log r @ [line]\<rparr> else r,
               to_all (say_text line) (members r))))"

definition room_sayto :: "command_t \<Rightarrow> sockaddr_in \<Rightarrow> room \<Rightarrow> datagram list" where
  "room_sayto cmd from r =
     (case (find (by_name (arg cmd 0)) (members r), find (by_address from) (members r)) of
        (Some c, Some f) \<Rightarrow>
          [udp_socket_write (client_address c)
             (say_text (client_name f @ '':(private message) '' @ message_of 1 cmd)) RESPONSE_BUFFER_SIZE,
           udp_socket_write (client_address f)
             (say_text (''you to '' @ arg cmd 0 @ '':(private message) '' @ message_of 1 cmd))
             RESPONSE_BUFFER_SIZE]
      | (None, Some f) \<Rightarrow>
          [udp_socket_write (client_address f)
             (snprintf RESPONSE_BUFFER_SIZE (''error$ User not found. ('' @ arg cmd 0 @ '')''))
             RESPONSE_BUFFER_SIZE]
      | _ \<Rightarrow> [])"

definition room_disconnect :: "sockaddr_in \<Rightarrow> room \<Rightarrow> room \<times> datagram list" where
  "room_disconnect from r =
     (case find (by_address from) (members r) of
        None \<Rightarrow> (r, [])
      | Some c \<Rightarrow>
          (r\<lparr>members := drop_named (client_name c) (members r)\<rparr>,
           disconnect_reply (map_option client_address (find (by_name (client_name c)) (members r)))))"

definition room_rename :: "command_t \<Rightarrow> sockaddr_in \<Rightarrow> room \<Rightarrow> room \<times> datagram list" where
  "room_rename cmd from r =
     (r\<lparr>members := update_first (by_address from) (\<lambda>c. c\<lparr>client_name := arg cmd 0\<rparr>) (members r)\<rparr>,
      rename_reply cmd from)"

definition room_kick :: "command_t \<Rightarrow> sockaddr_in \<Rightarrow> room \<Rightarrow> room \<times> datagram list" where
  "room_kick cmd from r =
     (if members r = [] \<or> client_address (hd (members r)) \<noteq> from then (r, kick_denied from)
      else
        let rest = drop_named (arg cmd 0) (members r)
        in case find (by_name (arg cmd 0)) (members r) of
             None \<Rightarrow> (r\<lparr>members := rest\<rparr>, [])
           | Some c \<Rightarrow>
               (r\<lparr>members := rest\<rparr>,
                disconnect_reply (Some (client_address c)) @
                to_all (snprintf RESPONSE_BUFFER_SIZE
                         (''say$ SERVER: '' @ arg cmd 0 @ '' has been kicked'')) rest))"

definition room_handle :: "int \<Rightarrow> command_t \<Rightarrow> sockaddr_in \<Rightarrow> room \<Rightarrow> room \<times> datagram list" where
  "room_handle now cmd from r =
     (case kind cmd of
        CONN \<Rightarrow> room_connect now cmd from r
      | SAY \<Rightarrow> room_say cmd from r
      | SAYTO \<Rightarrow> (r, room_sayto cmd from r)
      | DISCONN \<Rightarrow> room_disconnect from r
      | MUTE \<Rightarrow> (r, mute cmd from)
      | UNMUTE \<Rightarrow> (r, unmute cmd from)
      | RENAME \<Rightarrow> room_rename cmd from r
      | KICK \<Rightarrow> room_kick cmd from r
      | UNKNOWN \<Rightarrow> (r, handle_unknown_command from)
      | _ \<Rightarrow> (r, []))"

definition room_touch :: "int \<Rightarrow> command_t \<Rightarrow> sockaddr_in \<Rightarrow> room \<Rightarrow> room" where
  "room_touch now cmd from r =
     (if kind cmd \<noteq> CONN then r\<lparr>members := touch now from (members r)\<rparr> else r)"

definition room_serve :: "int \<Rightarrow> command_t \<Rightarrow> sockaddr_in \<Rightarrow> room \<Rightarrow> room \<times> datagram list" where
  "room_serve now cmd from r = room_handle now cmd from (room_touch now cmd from r)"

lemmas room_defs = room_serve_def room_handle_def room_touch_def room_connect_def room_say_def
  room_sayto_def room_disconnect_def room_rename_def room_kick_def

section \<open>The heap server does what the room does\<close>

definition server_rep :: "server \<Rightarrow> room \<Rightarrow> bool" where
  "server_rep st r \<longleftrightarrow> (\<exists>ps. represents (clients st) ps (members r)) \<and>
     chat_historyc st = length (log r) \<and> length (log r) \<le> MAX_MSGS \<and>
     chat_history st = map Some (log r) @ replicate (MAX_MSGS - length (log r)) None"

text \<open>
  \<open>valid_request\<close> is what a request needs to be served without a fault: a command that fits its
  structure, a fresh block from \<open>malloc\<close> to connect, and a sender on the list to speak,
  to rename, or to write to somebody who is on the list.
\<close>

definition valid_request :: "nat \<Rightarrow> command_t \<Rightarrow> sockaddr_in \<Rightarrow> server \<Rightarrow> room \<Rightarrow> bool" where
  "valid_request p cmd from st r \<longleftrightarrow> well_formed_command cmd \<and>
     (kind cmd = CONN \<longrightarrow> p \<noteq> 0 \<and> cells (clients st) p = None) \<and>
     (kind cmd \<in> {SAY, RENAME} \<longrightarrow> (\<exists>c \<in> set (members r). by_address from c)) \<and>
     (kind cmd = SAYTO \<longrightarrow> (\<exists>c \<in> set (members r). by_address from c) \<or>
        (\<forall>c \<in> set (members r). \<not> by_name (arg cmd 0) c))"

lemma full_arg: "well_formed_command cmd \<Longrightarrow> i < MAX_CMD_SIZE \<Longrightarrow> length (arg cmd i) < NAME_SIZE"
  by (simp add: well_formed_command_def arg_def)

lemma full_arg0: "well_formed_command cmd \<Longrightarrow> length (arg cmd 0) < NAME_SIZE"
  by (rule full_arg) (simp_all add: MAX_CMD_SIZE_def)

lemma find_touch:
  "(\<exists>c \<in> set (touch now a cs). by_address f c) \<longleftrightarrow> (\<exists>c \<in> set cs. by_address f c)"
  "(\<exists>c \<in> set (touch now a cs). by_name n c) \<longleftrightarrow> (\<exists>c \<in> set cs. by_name n c)"
  by (induction cs) (auto simp: by_address_def by_name_def)

lemma broadcast_loop_path:
  "path h node ps 0 \<Longrightarrow> broadcast_loop text h sent node =
     Some (Ok (sent @ to_all text (map (content_of h) ps)))"
proof (induction ps arbitrary: node sent)
  case Nil
  then show ?case by (simp add: broadcast_loop.simps to_all_def)
next
  case (Cons a ps)
  then obtain n where n: "node = a" "a \<noteq> 0" "h a = Some n" "path h (nxt n) ps 0"
    by (auto split: option.splits)
  with Cons.IH [OF n(4)] show ?case by (simp add: broadcast_loop.simps to_all_def)
qed

lemma broadcast_represents:
  "represents (clients st) ps cs \<Longrightarrow> broadcast text st (head (clients st)) = Some (Ok (to_all text cs))"
  using broadcast_loop_path [of "cells (clients st)" "head (clients st)" ps "text" "[]"]
  by (simp add: broadcast_def represents_def)

text \<open>The history array, read from its start index.\<close>

lemma send_history_from:
  assumes "server_rep st r"
  shows "send_history from i st =
    Ok (map (\<lambda>m. udp_socket_write from (say_text m) RESPONSE_BUFFER_SIZE) (drop i (log r)))"
proof -
  have st: "chat_historyc st = length (log r)"
    "chat_history st = map Some (log r) @ replicate (MAX_MSGS - length (log r)) None"
    using assms by (simp_all add: server_rep_def)
  show ?thesis
  proof (induction "length (log r) - i" arbitrary: i)
    case 0
    then show ?case by (subst send_history.simps) (simp add: st(1))
  next
    case (Suc k)
    then have i: "i < length (log r)" "k = length (log r) - Suc i" by simp_all
    have "history_slot from i st = Ok [udp_socket_write from (say_text (log r ! i)) RESPONSE_BUFFER_SIZE]"
      using i(1) by (simp add: history_slot_def st(2) nth_append say_text_def)
    with Suc.hyps(1) [OF i(2)] i(1) show ?case
      by (subst send_history.simps) (simp add: st(1) Cons_nth_drop_Suc [symmetric])
  qed
qed

lemma send_history_rep:
  assumes "server_rep st r"
  shows "send_history from (history_start (chat_historyc st)) st =
    Ok (map (\<lambda>m. udp_socket_write from (say_text m) RESPONSE_BUFFER_SIZE) (recent (log r)))"
  using assms send_history_from [OF assms] by (simp add: server_rep_def recent_def history_start_def)

lemma server_rep_clients:
  "server_rep st r \<Longrightarrow> represents s ps cs \<Longrightarrow> server_rep (st\<lparr>clients := s\<rparr>) (r\<lparr>members := cs\<rparr>)"
  by (auto simp: server_rep_def)

lemma server_rep_record:
  assumes "server_rep st r"
  shows "server_rep
    (if chat_historyc st < MAX_MSGS
     then st\<lparr>chat_history := (chat_history st)[chat_historyc st := Some m],
             chat_historyc := chat_historyc st + 1\<rparr> else st)
    (if length (log r) < MAX_MSGS then r\<lparr>log := log r @ [m]\<rparr> else r)"
proof (cases "length (log r) < MAX_MSGS")
  case True
  then obtain k where "MAX_MSGS - length (log r) = Suc k" "MAX_MSGS - Suc (length (log r)) = k"
    by (metis Suc_diff_Suc)
  with True assms show ?thesis by (auto simp: server_rep_def list_update_append)
next
  case False
  with assms show ?thesis by (auto simp: server_rep_def)
qed

lemma by_fun [simp]:
  "(\<lambda>c. client_address c = a) = by_address a" "(\<lambda>c. client_name c = n) = by_name n"
  by (auto simp: fun_eq_iff by_address_def by_name_def)

lemma connect_refines:
  assumes rep: "server_rep st r" and full: "well_formed_command cmd"
    and p: "p \<noteq> 0" "cells (clients st) p = None"
  shows "\<exists>st'. connect_to_server p now cmd from st = Some (Ok (st', snd (room_connect now cmd from r)))
    \<and> server_rep st' (fst (room_connect now cmd from r))"
proof -
  obtain ps where ps: "represents (clients st) ps (members r)"
    using rep by (auto simp: server_rep_def)
  from add_represents [OF ps p] obtain s where
    s: "add_client_to_list p now (clients st) from (arg cmd 0) = Ok s"
      "represents s (ps @ [p]) (members r @ [new_client from (arg cmd 0) now])" by blast
  let ?st = "st\<lparr>clients := s\<rparr>"
  have rep': "server_rep ?st (r\<lparr>members := members r @ [new_client from (arg cmd 0) now]\<rparr>)"
    using rep s(2) by (rule server_rep_clients)
  have "length (arg cmd 0) < NAME_SIZE" using full by (rule full_arg0)
  then have "strcpy BUFFER_SIZE (''connsuccess$ '' @ arg cmd 0) = Ok (''connsuccess$ '' @ arg cmd 0)"
    by (simp add: strcpy_def BUFFER_SIZE_def NAME_SIZE_def)
  then show ?thesis
    using s(1) rep' send_history_rep [OF rep', of "from"]
    by (auto simp: connect_to_server_def connect_add_def connect_reply_def room_connect_def simp del: append_assoc)
qed

lemma say_refines:
  assumes rep: "server_rep st r" and full: "well_formed_command cmd"
    and mem: "\<exists>c \<in> set (members r). by_address from c"
  shows "\<exists>st'. say cmd from st = Some (Ok (st', snd (room_say cmd from r)))
    \<and> server_rep st' (fst (room_say cmd from r))"
proof -
  obtain ps where ps: "represents (clients st) ps (members r)"
    using rep by (auto simp: server_rep_def)
  obtain c where c: "find (by_address from) (members r) = Some c"
    using mem by (cases "find (by_address from) (members r)") (auto simp: find_None_iff)
  obtain n where n: "deref (clients st) (first_ptr (by_address from) ps (members r)) = Ok n"
    "client.truncate n = c"
    using deref_first_ptr(2) [OF ps c] by blast
  have j: "join_args (args cmd) 0 MAX_MESSAGE = Ok (message_of 0 cmd)"
    using full by (simp add: join_args_message well_formed_command_def)
  let ?l = "line_of (client_name c) (message_of 0 cmd)"
  let ?st = "if chat_historyc st < MAX_MSGS
     then st\<lparr>chat_history := (chat_history st)[chat_historyc st := Some ?l],
             chat_historyc := chat_historyc st + 1\<rparr> else st"
  have look: "say_lookup from st = Some (Ok (first_ptr (by_address from) ps (members r)))"
    using find_client_by_address_represents [OF ps, of "from"] by (simp add: say_lookup_def)
  have rec: "say_record cmd (first_ptr (by_address from) ps (members r)) st = Ok (?st, say_text ?l)"
    using n j by (auto simp: say_record_def Let_def line_of_def say_text_def)
  have "clients ?st = clients st" by simp
  then have "broadcast (say_text ?l) ?st (head (clients st)) = Some (Ok (to_all (say_text ?l) (members r)))"
    using broadcast_represents [of ?st ps "members r"] ps by metis
  then have "say cmd from st = Some (Ok (?st, to_all (say_text ?l) (members r)))"
    unfolding say_def by (simp only: Let_def say_head_def look rec run_bind_simps prod.case)
  then show ?thesis
    using server_rep_record [OF rep, of ?l] c by (simp add: room_say_def Let_def)
qed

lemma sayto_refines:
  assumes rep: "server_rep st r" and full: "well_formed_command cmd"
    and ok: "(\<exists>c \<in> set (members r). by_address from c) \<or> (\<forall>c \<in> set (members r). \<not> by_name (arg cmd 0) c)"
  shows "sayto cmd from st = Some (Ok (st, room_sayto cmd from r))"
proof -
  obtain ps where ps: "represents (clients st) ps (members r)"
    using rep by (auto simp: server_rep_def)
  let ?C = "first_ptr (by_name (arg cmd 0)) ps (members r)"
    and ?F = "first_ptr (by_address from) ps (members r)"
  have look: "sayto_lookup cmd from st = Some (Ok (?C, ?F))"
    using find_client_by_address_represents [OF ps, of "from"] find_client_represents [OF ps, of "arg cmd 0"]
    by (simp add: sayto_lookup_def)
  have j: "join_args (args cmd) 1 MAX_MESSAGE = Ok (message_of 1 cmd)"
    using full by (simp add: join_args_message well_formed_command_def)
  have C: "case find (by_name (arg cmd 0)) (members r) of None \<Rightarrow> ?C = 0
      | Some c \<Rightarrow> ?C \<noteq> 0 \<and> (\<exists>n. deref (clients st) ?C = Ok n \<and> client.truncate n = c)"
    by (rule first_ptr_case [OF ps])
  have F: "case find (by_address from) (members r) of None \<Rightarrow> ?F = 0
      | Some c \<Rightarrow> ?F \<noteq> 0 \<and> (\<exists>n. deref (clients st) ?F = Ok n \<and> client.truncate n = c)"
    by (rule first_ptr_case [OF ps])
  have "\<not> (find (by_address from) (members r) = None \<and> find (by_name (arg cmd 0)) (members r) \<noteq> None)"
    using ok by (auto simp: find_None_iff)
  then have "sayto_send cmd ?C ?F st = Ok (room_sayto cmd from r)"
    using C F unfolding sayto_send_def j room_sayto_def
    by (auto simp: say_text_def split: option.splits)
  then show ?thesis by (simp add: sayto_def look)
qed

lemma disconnect_refines:
  assumes rep: "server_rep st r"
  shows "\<exists>st'. disconnect from st = Some (Ok (st', snd (room_disconnect from r)))
    \<and> server_rep st' (fst (room_disconnect from r))"
proof -
  obtain ps where ps: "represents (clients st) ps (members r)"
    using rep by (auto simp: server_rep_def)
  let ?F = "first_ptr (by_address from) ps (members r)"
  have look: "disconnect_lookup from st = Some (Ok ?F)"
    using find_client_by_address_represents [OF ps, of "from"] by (simp add: disconnect_lookup_def)
  show ?thesis
  proof (cases "find (by_address from) (members r)")
    case None
    then have "?F = 0" using deref_first_ptr(1) [OF ps] by blast
    with None rep show ?thesis by (simp add: disconnect_def look room_disconnect_def)
  next
    case (Some c)
    obtain n where n: "deref (clients st) ?F = Ok n" "client.truncate n = c" "?F \<noteq> 0"
      using deref_first_ptr(2) [OF ps Some] by blast
    have "members r \<noteq> []" using Some by auto
    then have hd: "head (clients st) \<noteq> 0"
      using represents_head(2) [OF ps] by (metis list.exhaust)
    from remove_represents [OF ps, of "client_name n"] obtain s qs where
      s: "remove_client_from_list (clients st) (client_name n) =
          Some (Ok (s, map_option client_address (find (by_name (client_name n)) (members r))))"
        "represents s qs (drop_named (client_name n) (members r))" by auto
    have "disconnect_remove ?F st = Some (Ok (st\<lparr>clients := s\<rparr>,
        map_option client_address (find (by_name (client_name n)) (members r))))"
      using hd n(1) s(1) by (simp add: disconnect_remove_def)
    with n look Some server_rep_clients [OF rep s(2)] show ?thesis
      by (auto simp: disconnect_def room_disconnect_def)
  qed
qed

lemma rename_refines:
  assumes rep: "server_rep st r" and full: "well_formed_command cmd"
    and mem: "\<exists>c \<in> set (members r). by_address from c"
  shows "\<exists>st'. rename_client cmd from st = Some (Ok (st', snd (room_rename cmd from r)))
    \<and> server_rep st' (fst (room_rename cmd from r))"
proof -
  obtain ps where ps: "represents (clients st) ps (members r)"
    using rep by (auto simp: server_rep_def)
  let ?F = "first_ptr (by_address from) ps (members r)"
  obtain c where c: "find (by_address from) (members r) = Some c"
    using mem by (cases "find (by_address from) (members r)") (auto simp: find_None_iff)
  obtain n where n: "deref (clients st) ?F = Ok n" "client.truncate n = c" "?F \<noteq> 0"
    "cells (clients st) ?F = Some n"
    using deref_first_ptr(2) [OF ps c] by blast
  let ?s = "(clients st)\<lparr>cells := (cells (clients st))(?F \<mapsto> n\<lparr>client_name := arg cmd 0\<rparr>)\<rparr>"
  have "strcpy NAME_SIZE (arg cmd 0) = Ok (arg cmd 0)"
    using full_arg0 [OF full] by (simp add: strcpy_def)
  then have "rename_update cmd from st = Some (Ok (st\<lparr>clients := ?s\<rparr>))"
    using n(1) find_client_by_address_represents [OF ps, of "from"] by (simp add: rename_update_def)
  moreover have "represents ?s ps
      (update_first (by_address from) (\<lambda>c. c\<lparr>client_name := arg cmd 0\<rparr>) (members r))"
    by (rule update_first_represents [OF ps refl n(4,3)]) (simp_all add: client.defs)
  ultimately show ?thesis
    using server_rep_clients [OF rep] by (auto simp: rename_client_def room_rename_def)
qed

lemma kick_refines:
  assumes rep: "server_rep st r"
  shows "\<exists>st'. kick cmd from st = Some (Ok (st', snd (room_kick cmd from r)))
    \<and> server_rep st' (fst (room_kick cmd from r))"
proof -
  obtain ps where ps: "represents (clients st) ps (members r)"
    using rep by (auto simp: server_rep_def)
  have admin: "kick_is_admin from st = Ok (members r \<noteq> [] \<and> client_address (hd (members r)) = from)"
    using represents_head [OF ps] by (cases "members r") (auto simp: kick_is_admin_def)
  from remove_represents [OF ps, of "arg cmd 0"] obtain s qs where
    s: "remove_client_from_list (clients st) (arg cmd 0) =
        Some (Ok (s, map_option client_address (find (by_name (arg cmd 0)) (members r))))"
      "represents s qs (drop_named (arg cmd 0) (members r))" by auto
  have "kick_announce cmd (st\<lparr>clients := s\<rparr>) = Some (Ok (to_all (snprintf RESPONSE_BUFFER_SIZE
        (''say$ SERVER: '' @ arg cmd 0 @ '' has been kicked'')) (drop_named (arg cmd 0) (members r))))"
    using broadcast_represents [of "st\<lparr>clients := s\<rparr>" qs] s(2) by (simp add: kick_announce_def)
  then show ?thesis
    using rep server_rep_clients [OF rep s(2)] s(1)
    by (cases "members r = [] \<or> client_address (hd (members r)) \<noteq> from")
       (auto simp: kick_def admin kick_remove_def room_kick_def Let_def split: option.splits)
qed

section \<open>Every request\<close>

lemma room_touch_refines:
  assumes rep: "server_rep st r"
  shows "\<exists>st'. mark_active now cmd from st = Some (Ok st') \<and> server_rep st' (room_touch now cmd from r)
    \<and> (kind cmd = CONN \<longrightarrow> st' = st)"
proof (cases "kind cmd = CONN")
  case True
  with rep show ?thesis by (simp add: mark_active_def room_touch_def)
next
  case False
  obtain ps where ps: "represents (clients st) ps (members r)"
    using rep by (auto simp: server_rep_def)
  from update_represents [OF ps, of now "from"] obtain s where
    "update_client_activity now (clients st) from = Some (Ok s)"
    "represents s ps (touch now from (members r))" by blast
  with False server_rep_clients [OF rep] show ?thesis
    by (auto simp: mark_active_def room_touch_def)
qed

lemma handler_refines:
  assumes rep: "server_rep st r" and valid: "valid_request p cmd from st r"
  shows "\<exists>st'. run_handler p now cmd from st = Some (Ok (st', snd (room_handle now cmd from r)))
    \<and> server_rep st' (fst (room_handle now cmd from r))"
proof -
  have full: "well_formed_command cmd" using valid by (simp add: valid_request_def)
  show ?thesis
  proof (cases "kind cmd")
    case CONN
    then have "p \<noteq> 0" "cells (clients st) p = None" using valid by (simp_all add: valid_request_def)
    from connect_refines [OF rep full this] CONN show ?thesis
      by (simp add: run_handler_def room_handle_def)
  next
    case SAY
    then have "\<exists>c \<in> set (members r). by_address from c" using valid by (simp add: valid_request_def)
    from say_refines [OF rep full this] SAY show ?thesis
      by (simp add: run_handler_def room_handle_def)
  next
    case SAYTO
    then have "(\<exists>c \<in> set (members r). by_address from c) \<or> (\<forall>c \<in> set (members r). \<not> by_name (arg cmd 0) c)"
      using valid by (simp add: valid_request_def)
    from sayto_refines [OF rep full this] SAYTO rep show ?thesis
      by (simp add: run_handler_def room_handle_def)
  next
    case RENAME
    then have "\<exists>c \<in> set (members r). by_address from c" using valid by (simp add: valid_request_def)
    from rename_refines [OF rep full this] RENAME show ?thesis
      by (simp add: run_handler_def room_handle_def)
  next
    case DISCONN
    with disconnect_refines [OF rep, of "from"] show ?thesis
      by (simp add: run_handler_def room_handle_def)
  next
    case KICK
    with kick_refines [OF rep, of cmd "from"] show ?thesis
      by (simp add: run_handler_def room_handle_def)
  qed (use rep in \<open>simp_all add: run_handler_def room_handle_def\<close>)
qed

lemma serve_refines:
  assumes rep: "server_rep st r" and valid: "valid_request p cmd from st r"
  shows "\<exists>st'. serve p now cmd from st = Some (Ok (st', snd (room_serve now cmd from r)))
    \<and> server_rep st' (fst (room_serve now cmd from r))"
proof -
  let ?r = "room_touch now cmd from r"
  obtain st1 where st1: "mark_active now cmd from st = Some (Ok st1)" "server_rep st1 ?r"
      "kind cmd = CONN \<longrightarrow> st1 = st"
    using room_touch_refines [OF rep, of now cmd "from"] by blast
  have "(\<exists>c \<in> set (members ?r). by_address from c) \<longleftrightarrow> (\<exists>c \<in> set (members r). by_address from c)"
    "(\<exists>c \<in> set (members ?r). by_name n c) \<longleftrightarrow> (\<exists>c \<in> set (members r). by_name n c)" for n
    by (simp_all add: room_touch_def find_touch)
  then have "valid_request p cmd from st1 ?r" using valid st1(3) by (auto simp: valid_request_def)
  from handler_refines [OF st1(2) this, of now] show ?thesis by (simp add: serve_def st1(1) room_serve_def)
qed

section \<open>A server with two clients\<close>

text \<open>Concrete states: the clients stand at the addresses 8 and 16 of the heap.\<close>

definition peer :: "16 word \<Rightarrow> sockaddr_in" where
  "peer port = \<lparr>sin_family = AF_INET, sin_port = port, sin_addr = 1, sin_zero = 0\<rparr>"

definition demo_cmd :: "command_kind \<Rightarrow> string list \<Rightarrow> command_t" where
  "demo_cmd k ws = \<lparr>kind = k, args = ws @ replicate (MAX_CMD_SIZE - length ws) ''''\<rparr>"

definition demo_server :: "string \<Rightarrow> string \<Rightarrow> string list \<Rightarrow> server" where
  "demo_server a b lines =
     \<lparr>clients = \<lparr>cells = [8 \<mapsto> \<lparr>client_address = peer 1, client_name = a, last_active = 100, ping_sent = 0, nxt = 16\<rparr>,
                          16 \<mapsto> \<lparr>client_address = peer 2, client_name = b, last_active = 200, ping_sent = 0, nxt = 0\<rparr>],
                 head = 8, tail = 16\<rparr>,
      chat_history = map Some lines @ replicate (MAX_MSGS - length lines) None,
      chat_historyc = length lines\<rparr>"

definition demo_room :: "string \<Rightarrow> string \<Rightarrow> string list \<Rightarrow> room" where
  "demo_room a b lines =
     \<lparr>members = [\<lparr>client_address = peer 1, client_name = a, last_active = 100, ping_sent = 0\<rparr>,
                 \<lparr>client_address = peer 2, client_name = b, last_active = 200, ping_sent = 0\<rparr>],
      log = lines\<rparr>"

lemma peer_eq [simp]: "peer p = peer q \<longleftrightarrow> p = q"
  by (simp add: peer_def)

lemma demo_cmd_sel [simp]: "kind (demo_cmd k ws) = k" "arg (demo_cmd k (w # ws)) 0 = w"
  by (simp_all add: demo_cmd_def arg_def)

lemma demo_cmd_full [simp]:
  "length ws \<le> MAX_CMD_SIZE \<Longrightarrow> (\<forall>w \<in> set ws. no_nul w \<and> length w < NAME_SIZE) \<Longrightarrow> well_formed_command (demo_cmd k ws)"
  by (auto simp: well_formed_command_def demo_cmd_def NAME_SIZE_def)

lemma demo_rep [simp]: "length lines \<le> MAX_MSGS \<Longrightarrow> server_rep (demo_server a b lines) (demo_room a b lines)"
proof -
  have "represents (clients (demo_server a b lines)) [8, 16] (members (demo_room a b lines))"
    by (auto simp: represents_def demo_server_def demo_room_def content_of_def client.defs split: if_splits)
  then show "length lines \<le> MAX_MSGS \<Longrightarrow> server_rep (demo_server a b lines) (demo_room a b lines)"
    by (auto simp: server_rep_def demo_server_def demo_room_def)
qed

lemma join_args_safe_instance:
  "\<exists>r. join_args (args (demo_cmd SAYTO [''eve'', ''good'', ''day''])) 1 12 = Ok r \<and> length r < 12 \<and> r = ''good day''"
  using join_args_safe [of "demo_cmd SAYTO [''eve'', ''good'', ''day'']" 12 1]
  by (simp add: demo_cmd_def args_from_def MAX_CMD_SIZE_def)

section \<open>Sequences of requests\<close>

text \<open>A request as an operation: the block \<open>malloc\<close> would return, the time, command, sender.\<close>

datatype request = Request nat int command_t sockaddr_in

fun request_exec :: "request \<Rightarrow> server \<Rightarrow> (server \<times> datagram list) run" where
  "request_exec (Request p now cmd from) st = serve p now cmd from st"

fun request_spec :: "request \<Rightarrow> room \<Rightarrow> room \<times> datagram list" where
  "request_spec (Request p now cmd from) r = room_serve now cmd from r"

fun request_guard :: "request \<Rightarrow> server \<Rightarrow> room \<Rightarrow> bool" where
  "request_guard (Request p now cmd from) st r \<longleftrightarrow> valid_request p cmd from st r"

interpretation server: refinement server_rep request_guard request_exec request_spec
proof unfold_locales
  fix st r op
  assume "server_rep st r" "request_guard op st r"
  then show "\<exists>st'. request_exec op st = Some (Ok (st', snd (request_spec op r))) \<and>
      server_rep st' (fst (request_spec op r))"
    by (cases op) (simp add: serve_refines)
qed

definition empty_room :: room where
  "empty_room = \<lparr>members = [], log = []\<rparr>"

lemma server_rep_init: "server_rep server_init empty_room"
  using represents_empty by (auto simp: server_rep_def server_init_def empty_room_def empty_store_def)

text \<open>
  C2. The server implements the chat room: started empty, it serves any sequence of requests
  that are valid when they arrive, each run to its end before the next, without a fault; the
  datagrams it sends are those of the room, and the heap and the history array end up
  representing the room's members and log.
\<close>

theorem server_refines_room:
  assumes "guarded request_guard request_exec request_spec server_init empty_room rs"
  shows "\<exists>st. exec_run request_exec server_init rs = Some (Ok (st, snd (spec_run request_spec empty_room rs)))
    \<and> server_rep st (fst (spec_run request_spec empty_room rs))"
  using assms by (rule server.run_simulates [OF server_rep_init])

theorem server_refines_room_witness:
  "\<exists>st. exec_run request_exec server_init
      [Request 8 1 (demo_cmd CONN [''ann'']) (peer 1), Request 0 2 (demo_cmd DISCONN []) (peer 1)] =
      Some (Ok (st, [[udp_socket_write (peer 1) ''connsuccess$ ann'' 256],
                     [udp_socket_write (peer 1) ''disconnresponse$'' 256]]))
    \<and> server_rep st empty_room"
proof -
  let ?rs = "[Request 8 1 (demo_cmd CONN [''ann'']) (peer 1), Request 0 2 (demo_cmd DISCONN []) (peer 1)]"
  have g: "guarded request_guard request_exec request_spec server_init empty_room ?rs"
    by (auto simp: valid_request_def server_init_def empty_store_def NAME_SIZE_def MAX_CMD_SIZE_def
        split: option.splits sum.splits)
  have "spec_run request_spec empty_room ?rs =
    (empty_room, [[udp_socket_write (peer 1) ''connsuccess$ ann'' 256],
                  [udp_socket_write (peer 1) ''disconnresponse$'' 256]])"
    by (simp add: room_defs empty_room_def by_address_def by_name_def new_client_def NAME_SIZE_def
        recent_def disconnect_reply_def snprintf_def MAX_MESSAGE_def)
  with server_refines_room [OF g] show ?thesis by (simp only: fst_conv snd_conv)
qed

end
