(* ===== verification/Server_Properties.thy ===== *)
theory Server_Properties
  imports Chat_Room
begin

text \<open>
  What the server promises its clients, request by request, stated on the handlers and proved
  through the chat room they implement; and where a request breaks the server.
\<close>

section \<open>Well-formed rooms\<close>

definition name_ok :: "string \<Rightarrow> bool" where
  "name_ok n \<longleftrightarrow> no_nul n \<and> length n < NAME_SIZE"

definition line_ok :: "string \<Rightarrow> bool" where
  "line_ok l \<longleftrightarrow> no_nul l \<and> length l < MAX_MESSAGE + MAX_NAME_LEN + 2"

definition room_ok :: "room \<Rightarrow> bool" where
  "room_ok r \<longleftrightarrow> (\<forall>c \<in> set (members r). name_ok (client_name c)) \<and> (\<forall>l \<in> set (log r). line_ok l) \<and>
     length (log r) \<le> MAX_MSGS"

lemma command_ok_arg: "well_formed_command cmd \<Longrightarrow> name_ok (arg cmd 0)"
  by (simp add: well_formed_command_def arg_def name_ok_def MAX_CMD_SIZE_def)

lemma set_update_first: "c \<in> set (update_first P f cs) \<Longrightarrow> c \<in> set cs \<or> (\<exists>d \<in> set cs. c = f d)"
  by (induction cs) (auto split: if_splits)

lemma set_drop_named: "set (drop_named n cs) \<subseteq> set cs"
  by (induction cs) auto

lemma message_no_nul: "well_formed_command cmd \<Longrightarrow> no_nul (message_of i cmd)"
  unfolding message_of_def args_from_def
  by (rule joined_from_no_nul)
     (auto simp: well_formed_command_def dest!: set_takeWhileD in_set_dropD)

lemma line_of_exact:
  assumes "length name < NAME_SIZE" and "length message < MAX_MESSAGE"
  shows "line_of name message = name @ '': '' @ message"
  using assms by (simp add: line_of_def snprintf_def MAX_NAME_LEN_def NAME_SIZE_def)

lemma say_text_exact:
  "length line < MAX_MESSAGE + MAX_NAME_LEN + 2 \<Longrightarrow> say_text line = ''say$ '' @ line"
  by (simp add: say_text_def snprintf_def server_consts)

lemma line_of_ok: "no_nul n \<Longrightarrow> no_nul m \<Longrightarrow> line_ok (line_of n m)"
  by (simp add: line_ok_def line_of_def snprintf_def)

lemma room_serve_ok:
  assumes "room_ok r" and "well_formed_command cmd"
  shows "room_ok (fst (room_serve now cmd from r))"
proof -
  let ?r = "room_touch now cmd from r"
  have a: "name_ok (arg cmd 0)" using assms(2) by (rule command_ok_arg)
  have r: "room_ok ?r"
    using assms(1) by (auto simp: room_touch_def room_ok_def touch_def dest!: set_update_first)
  have m: "no_nul (message_of 0 cmd)" using assms(2) by (rule message_no_nul)
  have new: "name_ok (client_name (new_client from (arg cmd 0) now))"
    using a by (auto simp: new_client_def name_ok_def)
  have ren: "name_ok (client_name c)"
    if "c \<in> set (update_first (by_address from) (\<lambda>c. c\<lparr>client_name := arg cmd 0\<rparr>) (members ?r))" for c
    using set_update_first [OF that] r a by (auto simp: room_ok_def)
  have drop: "name_ok (client_name c)" if "c \<in> set (drop_named n (members ?r))" for c n
    using that set_drop_named r by (auto simp: room_ok_def)
  have say: "line_ok (line_of (client_name c) (message_of 0 cmd))"
    if "find (by_address from) (members ?r) = Some c" for c
    using that r m by (intro line_of_ok) (auto simp: room_ok_def name_ok_def find_Some_iff)
  have "room_ok (fst (room_handle now cmd from ?r))"
    by (cases "kind cmd")
       (use r new ren drop say in \<open>auto simp: room_handle_def room_connect_def room_say_def
          room_disconnect_def room_rename_def room_kick_def room_ok_def Let_def split: option.splits\<close>)
  then show ?thesis by (simp add: room_serve_def)
qed

lemma demo_room_ok [simp]:
  "name_ok a \<Longrightarrow> name_ok b \<Longrightarrow> \<forall>l \<in> set lines. line_ok l \<Longrightarrow> length lines \<le> MAX_MSGS \<Longrightarrow> room_ok (demo_room a b lines)"
  by (simp add: room_ok_def demo_room_def)

lemma demo_room_sel [simp]:
  "members (demo_room a b lines) =
     [\<lparr>client_address = peer 1, client_name = a, last_active = 100, ping_sent = 0\<rparr>,
      \<lparr>client_address = peer 2, client_name = b, last_active = 200, ping_sent = 0\<rparr>]"
  "log (demo_room a b lines) = lines"
  by (simp_all add: demo_room_def)

lemma demo_name_ok [simp]: "name_ok ''ann''" "name_ok ''bob''"
  by (simp_all add: name_ok_def NAME_SIZE_def)

section \<open>Broadcasts\<close>

lemma say_room:
  assumes "room_ok r" and "kind cmd = SAY" and "find (by_address from) (members r) = Some c"
  shows "snd (room_serve now cmd from r) = map (\<lambda>m. udp_socket_write (client_address m)
             (''say$ '' @ client_name c @ '': '' @ message_of 0 cmd) RESPONSE_BUFFER_SIZE) (members r)"
    and "members (fst (room_serve now cmd from r)) = touch now from (members r)"
    and "log (fst (room_serve now cmd from r)) =
      (if length (log r) < 100 then log r @ [client_name c @ '': '' @ message_of 0 cmd] else log r)"
proof -
  let ?r = "room_touch now cmd from r"
  have tr: "members ?r = touch now from (members r)" "log ?r = log r"
    using assms(2) by (simp_all add: room_touch_def)
  have tc: "\<exists>d. find (by_address a) (touch now a cs) = Some d \<and> client_name d = client_name c"
    if "find (by_address a) cs = Some c" for a cs
    using that by (induction cs) (auto simp: by_address_def split: if_splits)
  obtain d where d: "find (by_address from) (members ?r) = Some d" "client_name d = client_name c"
    using tc [OF assms(3)] tr by auto
  have "c \<in> set (members r)" using assms(3) by (auto simp: find_Some_iff)
  then have n: "length (client_name c) < NAME_SIZE" using assms(1) by (auto simp: room_ok_def name_ok_def)
  then have line: "line_of (client_name c) (message_of 0 cmd) = client_name c @ '': '' @ message_of 0 cmd"
    using message_of_length by (rule line_of_exact)
  have sent: "say_text (client_name c @ '': '' @ message_of 0 cmd)
      = ''say$ '' @ client_name c @ '': '' @ message_of 0 cmd"
    by (rule say_text_exact) (use n message_of_length [of 0 cmd] in \<open>simp add: server_consts\<close>)
  have "snd (room_serve now cmd from r) = to_all (say_text (client_name c @ '': '' @ message_of 0 cmd)) (members ?r)"
    using assms(2) d line by (simp add: room_serve_def room_handle_def room_say_def Let_def)
  also have "\<dots> = map (\<lambda>a. udp_socket_write a (''say$ '' @ client_name c @ '': '' @ message_of 0 cmd)
      RESPONSE_BUFFER_SIZE) (map client_address (members ?r))"
    unfolding sent to_all_def by (simp add: comp_def)
  also have "map client_address (members ?r) = map client_address (members r)" by (simp add: tr)
  finally show "snd (room_serve now cmd from r) = map (\<lambda>m. udp_socket_write (client_address m)
      (''say$ '' @ client_name c @ '': '' @ message_of 0 cmd) RESPONSE_BUFFER_SIZE) (members r)" by (simp add: comp_def)
  show "members (fst (room_serve now cmd from r)) = touch now from (members r)"
    "log (fst (room_serve now cmd from r)) =
      (if length (log r) < 100 then log r @ [client_name c @ '': '' @ message_of 0 cmd] else log r)"
    using assms(2) d line tr by (simp_all add: room_serve_def room_handle_def room_say_def Let_def MAX_MSGS_def)
qed

lemma say_effect:
  assumes "server_rep st r" and "room_ok r" and "well_formed_command cmd" and "kind cmd = SAY"
    and "find (by_address from) (members r) = Some c"
  shows "\<exists>st' r'. serve p now cmd from st = Some (Ok (st',
      map (\<lambda>m. udp_socket_write (client_address m)
             (''say$ '' @ client_name c @ '': '' @ message_of 0 cmd) RESPONSE_BUFFER_SIZE) (members r)))
    \<and> server_rep st' r'
    \<and> map client_address (members r') = map client_address (members r)
    \<and> log r' = (if length (log r) < 100 then log r @ [client_name c @ '': '' @ message_of 0 cmd] else log r)"
proof -
  have "valid_request p cmd from st r"
    using assms(3-5) by (auto simp: valid_request_def find_Some_iff)
  moreover have "map client_address (members (fst (room_serve now cmd from r))) = map client_address (members r)"
    unfolding say_room(2) [OF assms(2,4,5)] by simp
  ultimately show ?thesis using serve_refines [OF assms(1), of p cmd "from" now] say_room(1,3) [OF assms(2,4,5), of now] by metis
qed

text \<open>
  A message said by a connected client reaches every connected client, the sender included,
  exactly once and in the order of the list, as \<open>say$ name: message\<close> with nothing cut off, and
  is appended to the history as long as the history has room.
\<close>

lemma say_reaches_everyone:
  assumes "server_rep st r" and "room_ok r" and "well_formed_command cmd" and "kind cmd = SAY"
    and "find (by_address from) (members r) = Some c"
  shows "\<exists>st' r'. serve p now cmd from st = Some (Ok (st',
      map (\<lambda>m. udp_socket_write (client_address m)
             (''say$ '' @ client_name c @ '': '' @ message_of 0 cmd) RESPONSE_BUFFER_SIZE) (members r)))
    \<and> server_rep st' r'
    \<and> map client_address (members r') = map client_address (members r)
    \<and> log r' = (if length (log r) < 100 then log r @ [client_name c @ '': '' @ message_of 0 cmd] else log r)"
  using assms by (rule say_effect)

lemma say_reaches_everyone_instance:
  "\<exists>st'. serve 0 300 (demo_cmd SAY [''good'', ''day'']) (peer 2) (demo_server ''ann'' ''bob'' []) =
      Some (Ok (st', [udp_socket_write (peer 1) ''say$ bob: good day'' 512,
                      udp_socket_write (peer 2) ''say$ bob: good day'' 512]))"
proof -
  let ?cmd = "demo_cmd SAY [''good'', ''day'']"
  have m: "message_of 0 ?cmd = ''good day''"
    by (simp add: message_of_def args_from_def demo_cmd_def MAX_CMD_SIZE_def MAX_MESSAGE_def)
  have "find (by_address (peer 2)) (members (demo_room ''ann'' ''bob'' [])) =
      Some \<lparr>client_address = peer 2, client_name = ''bob'', last_active = 200, ping_sent = 0\<rparr>"
    by (simp add: by_address_def)
  from say_reaches_everyone [OF demo_rep _ _ _ this, of "?cmd" 0 300] show ?thesis
    by (auto simp: m NAME_SIZE_def MAX_CMD_SIZE_def RESPONSE_BUFFER_SIZE_def MAX_MESSAGE_def)
qed

section \<open>Texts that fit their buffers\<close>

lemma buffer_snprintf [simp]:
  "length (snprintf MAX_MESSAGE t) < MAX_MESSAGE"
  "length (snprintf RESPONSE_BUFFER_SIZE t) < RESPONSE_BUFFER_SIZE"
  by (simp_all add: snprintf_length server_consts)

lemma say_text_ok [simp]:
  "no_nul t \<Longrightarrow> no_nul (say_text t)" "length (say_text t) < RESPONSE_BUFFER_SIZE"
  by (simp_all add: say_text_def snprintf_length server_consts)

section \<open>Requests that crash the server\<close>

lemma mark_active_frame:
  assumes "server_rep st r" and "mark_active now cmd from st = Some (Ok st1)"
  shows "server_rep st1 (room_touch now cmd from r)"
  using room_touch_refines [OF assms(1), of now cmd "from"] assms(2) by auto

lemma lookup_missing:
  assumes "server_rep st r" and "\<not> (\<exists>c \<in> set (members r). by_address from c)"
  shows "find_client_by_address (clients st) from = Some (Ok 0)"
proof -
  obtain ps where ps: "represents (clients st) ps (members r)"
    using assms(1) by (auto simp: server_rep_def)
  have "find (by_address from) (members r) = None" using assms(2) by (auto simp: find_None_iff)
  then show ?thesis
    using find_client_by_address_represents [OF ps, of "from"] deref_first_ptr(1) [OF ps] by auto
qed

lemma lookup_present:
  assumes "server_rep st r" and "\<exists>c \<in> set (members r). by_name n c"
  shows "\<exists>p. find_client (clients st) n = Some (Ok p) \<and> p \<noteq> 0"
proof -
  obtain ps where ps: "represents (clients st) ps (members r)"
    using assms(1) by (auto simp: server_rep_def)
  obtain c where "find (by_name n) (members r) = Some c"
    using assms(2) by (cases "find (by_name n) (members r)") (auto simp: find_None_iff)
  then show ?thesis
    using find_client_represents [OF ps, of n] deref_first_ptr(2) [OF ps] by fastforce
qed

lemma room_touch_mem:
  "(\<exists>c \<in> set (members (room_touch now cmd a r)). by_address f c) \<longleftrightarrow> (\<exists>c \<in> set (members r). by_address f c)"
  "(\<exists>c \<in> set (members (room_touch now cmd a r)). by_name n c) \<longleftrightarrow> (\<exists>c \<in> set (members r). by_name n c)"
  by (simp_all add: room_touch_def find_touch)

text \<open>
  C14. Exactly these requests take the server down: \<open>say$\<close> or \<open>rename$\<close> from an address that is
  not connected, and \<open>sayto$\<close> from such an address to somebody who is; the handler reads the
  name through the null pointer its search returned. Every other request is served.
\<close>

theorem serve_crashes_iff:
  assumes "server_rep st r" and "well_formed_command cmd"
    and "kind cmd = CONN \<longrightarrow> p \<noteq> 0 \<and> cells (clients st) p = None"
  shows "(serve p now cmd from st = Some (Fault NullDeref) \<longleftrightarrow>
      (\<forall>c \<in> set (members r). client_address c \<noteq> from) \<and>
      (kind cmd \<in> {SAY, RENAME} \<or>
       kind cmd = SAYTO \<and> (\<exists>c \<in> set (members r). client_name c = arg cmd 0)))
      \<and> (serve p now cmd from st \<noteq> Some (Fault NullDeref) \<longrightarrow>
         (\<exists>st' ds. serve p now cmd from st = Some (Ok (st', ds))))"
proof -
  let ?bad = "(\<forall>c \<in> set (members r). client_address c \<noteq> from) \<and>
      (kind cmd \<in> {SAY, RENAME} \<or>
       kind cmd = SAYTO \<and> (\<exists>c \<in> set (members r). client_name c = arg cmd 0))"
  have good: "\<exists>st' ds. serve p now cmd from st = Some (Ok (st', ds))" if "\<not> ?bad"
  proof -
    have "valid_request p cmd from st r"
      using that assms(2,3) by (auto simp: valid_request_def by_address_def by_name_def)
    with serve_refines [OF assms(1)] show ?thesis by blast
  qed
  have bad: "serve p now cmd from st = Some (Fault NullDeref)" if b: "?bad"
  proof -
    let ?r = "room_touch now cmd from r"
    obtain st1 where st1: "mark_active now cmd from st = Some (Ok st1)" "server_rep st1 ?r"
      using room_touch_refines [OF assms(1), of now cmd "from"] by blast
    have "\<not> (\<exists>c \<in> set (members r). by_address from c)"
      using b by (auto simp: by_address_def)
    then have no: "\<not> (\<exists>c \<in> set (members ?r). by_address from c)"
      unfolding room_touch_mem .
    note miss = lookup_missing [OF st1(2) no]
    have j: "join_args (args cmd) i MAX_MESSAGE = Ok (message_of i cmd)" for i
      using assms(2) by (simp add: join_args_message well_formed_command_def)
    from b consider "kind cmd = SAY" | "kind cmd = RENAME"
      | "kind cmd = SAYTO" "\<exists>c \<in> set (members r). by_name (arg cmd 0) c"
      by (auto simp: by_name_def)
    then have "run_handler p now cmd from st1 = Some (Fault NullDeref)"
    proof cases
      case 1
      then show ?thesis
        by (simp add: run_handler_def say_def say_lookup_def miss say_record_def j deref_def)
    next
      case 2
      then show ?thesis
        by (simp add: run_handler_def rename_client_def rename_update_def miss deref_def)
    next
      case 3
      have "\<exists>c \<in> set (members ?r). by_name (arg cmd 0) c"
        using 3(2) unfolding room_touch_mem .
      then obtain q where "find_client (clients st1) (arg cmd 0) = Some (Ok q)" "q \<noteq> 0"
        using lookup_present [OF st1(2)] by blast
      with 3(1) show ?thesis
        by (simp add: run_handler_def sayto_def sayto_lookup_def miss sayto_send_def j deref_def)
    qed
    then show ?thesis by (simp add: serve_def st1(1))
  qed
  show ?thesis using good bad by fastforce
qed

theorem serve_crashes_iff_witness:
  "serve 0 300 (demo_cmd SAYTO [''ann'', ''hi'']) (peer 3) (demo_server ''ann'' ''bob'' []) = Some (Fault NullDeref)"
  using serve_crashes_iff [OF demo_rep, of "[]" "demo_cmd SAYTO [''ann'', ''hi'']" 0 "''ann''" "''bob''" 300 "peer 3"]
  by (simp add: NAME_SIZE_def MAX_CMD_SIZE_def)

section \<open>Joining, leaving and being removed\<close>

text \<open>
  A newcomer becomes the last of the list, is told \<open>connsuccess$ name\<close>, and then gets the
  last fifteen recorded lines, oldest first, each as \<open>say$ line\<close>; nobody else is told anything.
\<close>

lemma connect_joins:
  assumes "server_rep st r" and "room_ok r" and "well_formed_command cmd" and "kind cmd = CONN"
    and "p \<noteq> 0" and "cells (clients st) p = None"
  shows "\<exists>st'. serve p now cmd from st = Some (Ok (st',
      udp_socket_write from (''connsuccess$ '' @ arg cmd 0) MAX_MESSAGE #
      map (\<lambda>l. udp_socket_write from (''say$ '' @ l) RESPONSE_BUFFER_SIZE)
        (drop (length (log r) - 15) (log r))))
    \<and> server_rep st' (r\<lparr>members := members r @
        [\<lparr>client_address = from, client_name = arg cmd 0, last_active = now, ping_sent = 0\<rparr>]\<rparr>)"
proof -
  have "valid_request p cmd from st r"
    using assms by (simp add: valid_request_def)
  from serve_refines [OF assms(1) this, of now] obtain st' where
    st': "serve p now cmd from st = Some (Ok (st', snd (room_serve now cmd from r)))"
      "server_rep st' (fst (room_serve now cmd from r))" by blast
  have "map (\<lambda>l. udp_socket_write from (say_text l) RESPONSE_BUFFER_SIZE) (recent (log r)) =
      map (\<lambda>l. udp_socket_write from (''say$ '' @ l) RESPONSE_BUFFER_SIZE) (recent (log r))"
  proof (rule map_cong [OF refl])
    fix l
    assume "l \<in> set (recent (log r))"
    then have "say_text l = ''say$ '' @ l"
      using assms(2) by (intro say_text_exact) (auto simp: recent_def room_ok_def line_ok_def dest!: in_set_dropD)
    then show "udp_socket_write from (say_text l) RESPONSE_BUFFER_SIZE =
        udp_socket_write from (''say$ '' @ l) RESPONSE_BUFFER_SIZE"
      by (simp only:)
  qed
  moreover have "new_client from (arg cmd 0) now =
      \<lparr>client_address = from, client_name = arg cmd 0, last_active = now, ping_sent = 0\<rparr>"
    using command_ok_arg [OF assms(3)] by (simp add: new_client_def name_ok_def NAME_SIZE_def)
  ultimately show ?thesis
    using st' assms(4)
    by (auto simp: room_serve_def room_handle_def room_touch_def room_connect_def recent_def CHAT_HISTORY_SIZE_def)
qed

lemma connect_joins_instance:
  "\<exists>st'. serve 24 300 (demo_cmd CONN [''eve'']) (peer 3) (demo_server ''ann'' ''bob'' [''ann: hi'']) = Some (Ok (st',
      [udp_socket_write (peer 3) ''connsuccess$ eve'' 256, udp_socket_write (peer 3) ''say$ ann: hi'' 512]))"
  using connect_joins [OF demo_rep, of "[''ann: hi'']" "''ann''" "''bob''" "demo_cmd CONN [''eve'']" 24 300 "peer 3"]
  by (auto simp: NAME_SIZE_def MAX_CMD_SIZE_def MAX_MSGS_def line_ok_def server_consts demo_server_def)

lemma drop_named_first:
  "find (by_name n) cs = Some d \<Longrightarrow> \<exists>as bs. cs = as @ d # bs \<and> drop_named n cs = as @ bs"
proof (induction cs)
  case Nil
  then show ?case by simp
next
  case (Cons c cs)
  show ?case
  proof (cases "client_name c = n")
    case True
    with Cons.prems show ?thesis by (intro exI [of _ "[]"] exI [of _ cs]) (simp add: by_name_def)
  next
    case False
    with Cons obtain as bs where "cs = as @ d # bs" "drop_named n cs = as @ bs"
      by (auto simp: by_name_def)
    with False show ?thesis by (intro exI [of _ "c # as"] exI [of _ bs]) simp
  qed
qed

lemma find_distinct:
  "distinct (map f cs) \<Longrightarrow> c \<in> set cs \<Longrightarrow> f c = k \<Longrightarrow> find (\<lambda>x. f x = k) cs = Some c"
  by (induction cs) (auto simp: rev_image_eqI)

lemma disconnect_serve:
  assumes "server_rep st r" and "well_formed_command cmd" and "kind cmd = DISCONN"
    and "find (by_address from) (touch now from (members r)) = Some c"
    and "find (by_name (client_name c)) (touch now from (members r)) = Some d"
  shows "\<exists>st'. serve p now cmd from st =
      Some (Ok (st', [udp_socket_write (client_address d) ''disconnresponse$'' MAX_MESSAGE]))
    \<and> server_rep st' (r\<lparr>members := drop_named (client_name c) (touch now from (members r))\<rparr>)"
proof -
  have "valid_request p cmd from st r" using assms by (simp add: valid_request_def)
  from serve_refines [OF assms(1) this, of now] assms(3,4,5) show ?thesis
    by (auto simp: room_serve_def room_handle_def room_touch_def room_disconnect_def
        disconnect_reply_def snprintf_def MAX_MESSAGE_def)
qed

text \<open>
  When no two connected clients share a name, a client that disconnects, and only that
  client, leaves the list, and the confirmation goes to it alone.
\<close>

lemma disconnect_removes_requester:
  assumes "server_rep st r" and "well_formed_command cmd" and "kind cmd = DISCONN"
    and "members r = as @ c # bs" and "client_address c = from"
    and "distinct (map client_name (members r))" and "distinct (map client_address (members r))"
  shows "\<exists>st'. serve p now cmd from st =
      Some (Ok (st', [udp_socket_write from ''disconnresponse$'' MAX_MESSAGE]))
    \<and> server_rep st' (r\<lparr>members := as @ bs\<rparr>)"
proof -
  have "from \<notin> client_address ` set as" using assms(4,5,7) by auto
  then have t: "touch now from (as @ c # bs) = as @ c\<lparr>last_active := now, ping_sent := 0\<rparr> # bs"
    using assms(5) by (induction as) auto
  let ?c = "c\<lparr>last_active := now, ping_sent := 0\<rparr>"
  have f: "find (by_address from) (as @ ?c # bs) = Some ?c" "find (by_name (client_name c)) (as @ ?c # bs) = Some ?c"
    using find_distinct [of client_address "as @ ?c # bs" ?c] find_distinct [of client_name "as @ ?c # bs" ?c]
      assms(4,5,6,7) by (simp_all)
  have "client_name c \<notin> client_name ` set as" using assms(4,6) by auto
  then have "drop_named (client_name c) (as @ ?c # bs) = as @ bs" by (induction as) auto
  with disconnect_serve [OF assms(1-3), of "from" now ?c ?c p] t f assms(4,5) show ?thesis by simp
qed

lemma disconnect_removes_requester_instance:
  "\<exists>st'. serve 0 300 (demo_cmd DISCONN []) (peer 2) (demo_server ''ann'' ''bob'' []) =
      Some (Ok (st', [udp_socket_write (peer 2) ''disconnresponse$'' 256]))"
  using disconnect_removes_requester [OF demo_rep, of "[]" "demo_cmd DISCONN []" "''ann''" "''bob''"
      "[\<lparr>client_address = peer 1, client_name = ''ann'', last_active = 100, ping_sent = 0\<rparr>]" _ "[]" "peer 2" 0 300]
  by (auto simp: MAX_MESSAGE_def)

text \<open>
  C37. Names are not checked for uniqueness, and a disconnect removes the first client with the
  requester's name. If a namesake \<open>d\<close> at another address stands before the requester \<open>c\<close>, then
  \<open>d\<close> is removed and told so, while \<open>c\<close> stays connected and hears nothing.
\<close>

theorem disconnect_removes_namesake:
  assumes "server_rep st r" and "well_formed_command cmd" and "kind cmd = DISCONN"
    and "members r = as @ d # bs @ c # cs" and "client_name d = client_name c"
    and "client_address c = from" and "from \<notin> client_address ` set (as @ d # bs)"
    and "client_name c \<notin> client_name ` set as"
  shows "\<exists>st'. serve p now cmd from st =
      Some (Ok (st', [udp_socket_write (client_address d) ''disconnresponse$'' MAX_MESSAGE]))
    \<and> server_rep st' (r\<lparr>members := as @ bs @ c\<lparr>last_active := now, ping_sent := 0\<rparr> # cs\<rparr>)"
proof -
  let ?c = "c\<lparr>last_active := now, ping_sent := 0\<rparr>"
  have t: "touch now from (xs @ c # cs) = xs @ ?c # cs" if "from \<notin> client_address ` set xs" for xs
    using that assms(6) by (induction xs) auto
  have m: "touch now from (members r) = as @ d # bs @ ?c # cs"
    using t [of "as @ d # bs"] assms(4,7) by simp
  have "find (by_address from) (xs @ ?c # cs) = Some ?c" if "from \<notin> client_address ` set xs" for xs
    using that assms(6) by (induction xs) (auto simp: by_address_def)
  from this [of "as @ d # bs"] have f: "find (by_address from) (as @ d # bs @ ?c # cs) = Some ?c"
    using assms(7) by simp
  have n: "find (by_name (client_name ?c)) (as @ d # bs @ ?c # cs) = Some d"
    using assms(5,8) by (induction as) (auto simp: by_name_def)
  have "drop_named (client_name c) (as @ d # bs @ ?c # cs) = as @ bs @ ?c # cs"
    using assms(5,8) by (induction as) auto
  with disconnect_serve [OF assms(1-3) f [folded m] n [folded m], of p] m show ?thesis by simp
qed

theorem disconnect_removes_namesake_witness:
  "\<exists>st'. serve 0 300 (demo_cmd DISCONN []) (peer 2) (demo_server ''ann'' ''ann'' []) =
      Some (Ok (st', [udp_socket_write (peer 1) ''disconnresponse$'' 256]))"
  using disconnect_removes_namesake [OF demo_rep, of "[]" "demo_cmd DISCONN []" "''ann''" "''ann''"
      "[]" _ "[]" _ "[]" "peer 2" 0 300]
  by (auto simp: MAX_MESSAGE_def)

text \<open>
  C38. Only the first client of the list can remove others: a kick from any other address leaves
  the list of names and addresses as it is and is answered by a refusal to the requester alone.
\<close>

theorem kick_needs_admin:
  assumes "server_rep st r" and "well_formed_command cmd" and "kind cmd = KICK"
    and "members r = [] \<or> client_address (hd (members r)) \<noteq> from"
  shows "\<exists>st'. serve p now cmd from st = Some (Ok (st',
      [udp_socket_write from ''error$ Permission denied. Only admin can kick users.'' MAX_MESSAGE]))
    \<and> server_rep st' (r\<lparr>members := touch now from (members r)\<rparr>)"
proof -
  have "valid_request p cmd from st r" using assms by (simp add: valid_request_def)
  moreover have "touch now from (members r) = [] \<or> client_address (hd (touch now from (members r))) \<noteq> from"
    using assms(4) by (cases "members r") auto
  ultimately show ?thesis
    using serve_refines [OF assms(1), of p cmd "from" now] assms(3)
    by (auto simp: room_serve_def room_handle_def room_touch_def room_kick_def kick_denied_def
        snprintf_def MAX_MESSAGE_def)
qed

theorem kick_needs_admin_witness:
  "\<exists>st'. serve 0 300 (demo_cmd KICK [''ann'']) (peer 2) (demo_server ''ann'' ''bob'' []) = Some (Ok (st',
      [udp_socket_write (peer 2) ''error$ Permission denied. Only admin can kick users.'' 256]))"
  using kick_needs_admin [OF demo_rep, of "[]" "demo_cmd KICK [''ann'']" "''ann''" "''bob''" "peer 2" 0 300]
  by (auto simp: MAX_MESSAGE_def NAME_SIZE_def MAX_CMD_SIZE_def)

text \<open>
  A kick by the admin removes the first client of that name, tells it so, and announces the
  removal to every remaining client; a name nobody bears changes nothing and is not answered.
\<close>

lemma kick_by_admin:
  assumes "server_rep st r" and "well_formed_command cmd" and "kind cmd = KICK"
    and "members r = a # cs" and "client_address a = from"
  shows "\<exists>st' ms. serve p now cmd from st = Some (Ok (st',
      (case find (\<lambda>c. client_name c = arg cmd 0) (members r) of
         None \<Rightarrow> []
       | Some v \<Rightarrow> udp_socket_write (client_address v) ''disconnresponse$'' MAX_MESSAGE #
           map (\<lambda>m. udp_socket_write (client_address m)
                 (''say$ SERVER: '' @ arg cmd 0 @ '' has been kicked'') RESPONSE_BUFFER_SIZE) ms)))
    \<and> ms = drop_named (arg cmd 0) (touch now from (members r))
    \<and> server_rep st' (r\<lparr>members := ms\<rparr>)"
proof -
  have "valid_request p cmd from st r"
    using assms by (simp add: valid_request_def)
  from serve_refines [OF assms(1) this, of now] obtain st' where
    st': "serve p now cmd from st = Some (Ok (st', snd (room_serve now cmd from r)))"
      "server_rep st' (fst (room_serve now cmd from r))" by blast
  have tn: "map_option client_address (find (by_name n) (touch now from xs)) = map_option client_address (find (by_name n) xs)" for n xs
    by (induction xs) (auto simp: by_name_def)
  have kicked: "snprintf RESPONSE_BUFFER_SIZE (''say$ SERVER: '' @ arg cmd 0 @ '' has been kicked'')
      = ''say$ SERVER: '' @ arg cmd 0 @ '' has been kicked''"
    using command_ok_arg [OF assms(2)]
    by (intro snprintf_fits) (simp add: name_ok_def server_consts)
  have "hd (touch now from (members r)) = a\<lparr>last_active := now, ping_sent := 0\<rparr>" "touch now from (members r) \<noteq> []"
    using assms(4,5) by simp_all
  then have rk: "room_kick cmd from (r\<lparr>members := touch now from (members r)\<rparr>) =
      (r\<lparr>members := drop_named (arg cmd 0) (touch now from (members r))\<rparr>,
       case find (by_name (arg cmd 0)) (touch now from (members r)) of
         None \<Rightarrow> []
       | Some c \<Rightarrow> disconnect_reply (Some (client_address c)) @
           to_all (''say$ SERVER: '' @ arg cmd 0 @ '' has been kicked'')
             (drop_named (arg cmd 0) (touch now from (members r))))"
    using assms(5) unfolding room_kick_def Let_def kicked by (simp split: option.splits)
  have dr: "disconnect_reply (Some x) = [udp_socket_write x ''disconnresponse$'' MAX_MESSAGE]" for x
    by (simp add: disconnect_reply_def snprintf_def MAX_MESSAGE_def)
  have bn: "(\<lambda>c. client_name c = arg cmd 0) = by_name (arg cmd 0)"
    by (rule ext) (simp add: by_name_def)
  have out: "snd (room_serve now cmd from r) = (case find (by_name (arg cmd 0)) (members r) of
         None \<Rightarrow> []
       | Some v \<Rightarrow> udp_socket_write (client_address v) ''disconnresponse$'' MAX_MESSAGE #
           map (\<lambda>m. udp_socket_write (client_address m)
                 (''say$ SERVER: '' @ arg cmd 0 @ '' has been kicked'') RESPONSE_BUFFER_SIZE)
             (drop_named (arg cmd 0) (touch now from (members r))))"
    using assms(3) tn [of "arg cmd 0" "members r"]
    by (cases "find (by_name (arg cmd 0)) (members r)")
       (auto simp: room_serve_def room_handle_def room_touch_def rk dr to_all_def)
  have fst: "fst (room_serve now cmd from r) = r\<lparr>members := drop_named (arg cmd 0) (touch now from (members r))\<rparr>"
    using assms(3) by (simp add: room_serve_def room_handle_def room_touch_def rk)
  show ?thesis
    unfolding bn using st' unfolding out fst
    by (intro exI [of _ st'] exI [of _ "drop_named (arg cmd 0) (touch now from (members r))"] conjI refl)
qed

lemma kick_by_admin_instance:
  "\<exists>st'. serve 0 300 (demo_cmd KICK [''bob'']) (peer 1) (demo_server ''ann'' ''bob'' []) = Some (Ok (st',
      [udp_socket_write (peer 2) ''disconnresponse$'' 256,
       udp_socket_write (peer 1) ''say$ SERVER: bob has been kicked'' 512]))"
  using kick_by_admin [OF demo_rep, of "[]" "demo_cmd KICK [''bob'']" "''ann''" "''bob''" _ _ "peer 1" 0 300]
  by (auto simp: by_name_def MAX_MESSAGE_def RESPONSE_BUFFER_SIZE_def NAME_SIZE_def MAX_CMD_SIZE_def)

text \<open>
  The history is not a window on the latest lines: once it holds a hundred lines no request
  changes it any more, so every later newcomer is sent the same fifteen old lines.
\<close>

lemma history_freezes:
  assumes "server_rep st r" and "length (log r) = 100" and "valid_request p cmd from st r"
  shows "\<exists>st' ds. serve p now cmd from st = Some (Ok (st', ds)) \<and>
    chat_history st' = chat_history st \<and> chat_historyc st' = chat_historyc st \<and>
    (\<forall>a i. send_history a i st' = send_history a i st)"
proof -
  from serve_refines [OF assms(1,3), of now] obtain st' where
    st': "serve p now cmd from st = Some (Ok (st', snd (room_serve now cmd from r)))"
      "server_rep st' (fst (room_serve now cmd from r))" by blast
  have l: "log (fst (room_serve now cmd from r)) = log r"
    using assms(2)
    by (cases "kind cmd") (auto simp: room_defs MAX_MSGS_def Let_def split: option.splits)
  then have "chat_history st' = chat_history st" "chat_historyc st' = chat_historyc st"
    using st'(2) assms(1) by (simp_all add: server_rep_def)
  moreover have "send_history a i st' = send_history a i st"
    if "chat_history st' = chat_history st" "chat_historyc st' = chat_historyc st" for a i
    using that
  proof (induction a i st rule: send_history.induct)
    case (1 a i st)
    then show ?case
      by (simp add: send_history.simps [of a i st'] send_history.simps [of a i st] history_slot_def res_bind_def)
  qed
  ultimately show ?thesis using st'(1) by simp
qed

lemma history_freezes_instance:
  "\<exists>st' ds. serve 0 300 (demo_cmd SAY [''news'']) (peer 1) (demo_server ''ann'' ''bob'' (replicate 100 ''bob: old'')) =
      Some (Ok (st', ds)) \<and>
    chat_history st' = chat_history (demo_server ''ann'' ''bob'' (replicate 100 ''bob: old''))"
  using history_freezes [OF demo_rep, of "replicate 100 ''bob: old''" "''ann''" "''bob''" 0 "demo_cmd SAY [''news'']" "peer 1" 300]
  by (auto simp: valid_request_def by_address_def NAME_SIZE_def MAX_CMD_SIZE_def MAX_MSGS_def)

end
