(* ===== verification/Connection_Manager.thy ===== *)
theory Connection_Manager
  imports Server_Properties
begin

text \<open>
  The connection manager of \<open>server_interface.c\<close>: a thread that once a second looks for a client
  that has been silent too long, pings it, and removes it if the ping stays unanswered. One turn
  of its loop is split where it leaves the monitor: the scan, the ping, the removal.
\<close>

definition INACTIVITY_THRESHOLD :: int where "INACTIVITY_THRESHOLD = 180"
definition PING_TIMEOUT :: int where "PING_TIMEOUT = 10"

lemmas cm_consts = INACTIVITY_THRESHOLD_def PING_TIMEOUT_def

section \<open>One turn of the loop\<close>

text \<open>What the scan found; the node is kept as a pointer, the name is copied to \<open>kick_name\<close>.\<close>

datatype cm_choice = Quiet | To_Ping nat | To_Kick nat string

partial_function (option) cm_scan :: "int \<Rightarrow> (nat \<rightharpoonup> client_node) \<Rightarrow> nat \<Rightarrow> cm_choice run" where
  "cm_scan current_time h node =
     (if node = 0 then Some (Ok Quiet)
      else case h node of
             None \<Rightarrow> Some (Fault UseAfterFree)
           | Some n \<Rightarrow>
               if current_time - last_active n > INACTIVITY_THRESHOLD then
                 (if ping_sent n = 0 then Some (Ok (To_Ping node))
                  else if current_time - ping_sent n > PING_TIMEOUT
                  then Some (Ok (To_Kick node (take (NAME_SIZE - 1) (client_name n))))
                  else cm_scan current_time h (nxt n))
               else cm_scan current_time h (nxt n))"

definition cm_ping :: "int \<Rightarrow> nat \<Rightarrow> server \<Rightarrow> (server \<times> datagram list) res" where
  "cm_ping current_time to_ping st =
     res_bind (deref (clients st) to_ping) (\<lambda>n.
       Ok (st\<lparr>clients := (clients st)
             \<lparr>cells := (cells (clients st))(to_ping \<mapsto> n\<lparr>ping_sent := current_time\<rparr>)\<rparr>\<rparr>,
           [udp_socket_write (client_address n) (snprintf MAX_MESSAGE ''ping$'') MAX_MESSAGE]))"

definition cm_notify :: "nat \<Rightarrow> server \<Rightarrow> datagram list res" where
  "cm_notify to_kick st =
     res_bind (deref (clients st) to_kick) (\<lambda>n.
       Ok [udp_socket_write (client_address n) (snprintf MAX_MESSAGE ''disconnresponse$'') MAX_MESSAGE])"

definition cm_remove :: "string \<Rightarrow> server \<Rightarrow> server run" where
  "cm_remove kick_name st =
     run_bind (remove_client_from_list (clients st) kick_name) (\<lambda>(s, removed_addr).
       Some (Ok (st\<lparr>clients := s\<rparr>)))"

definition connection_manager_turn :: "int \<Rightarrow> server \<Rightarrow> (server \<times> datagram list) run" where
  "connection_manager_turn current_time st =
     run_bind (cm_scan current_time (cells (clients st)) (head (clients st))) (\<lambda>choice.
       case choice of
         Quiet \<Rightarrow> Some (Ok (st, []))
       | To_Ping node \<Rightarrow> Some (cm_ping current_time node st)
       | To_Kick node name \<Rightarrow>
           run_bind (Some (cm_notify node st)) (\<lambda>ds.
           run_bind (cm_remove name st) (\<lambda>st1. Some (Ok (st1, ds)))))"

section \<open>What a turn does to the room\<close>

definition idle :: "int \<Rightarrow> client \<Rightarrow> bool" where
  "idle now c \<longleftrightarrow> now - last_active c > INACTIVITY_THRESHOLD"

definition acted_on :: "int \<Rightarrow> client \<Rightarrow> bool" where
  "acted_on now c \<longleftrightarrow> idle now c \<and> (ping_sent c = 0 \<or> now - ping_sent c > PING_TIMEOUT)"

definition cm_room :: "int \<Rightarrow> room \<Rightarrow> room \<times> datagram list" where
  "cm_room now r =
     (case find (acted_on now) (members r) of
        None \<Rightarrow> (r, [])
      | Some c \<Rightarrow>
          if ping_sent c = 0
          then (r\<lparr>members := update_first (acted_on now) (\<lambda>d. d\<lparr>ping_sent := now\<rparr>) (members r)\<rparr>,
                [udp_socket_write (client_address c) ''ping$'' MAX_MESSAGE])
          else (r\<lparr>members := drop_named (client_name c) (members r)\<rparr>,
                [udp_socket_write (client_address c) ''disconnresponse$'' MAX_MESSAGE]))"

lemma cm_scan_path:
  assumes "path h node ps 0"
  shows "cm_scan now h node = Some (Ok
    (case find (acted_on now) (map (content_of h) ps) of
       None \<Rightarrow> Quiet
     | Some c \<Rightarrow>
         if ping_sent c = 0 then To_Ping (first_ptr (acted_on now) ps (map (content_of h) ps))
         else To_Kick (first_ptr (acted_on now) ps (map (content_of h) ps))
                (take (NAME_SIZE - 1) (client_name c))))"
  using assms
proof (induction ps arbitrary: node)
  case Nil
  then show ?case by (simp add: cm_scan.simps)
next
  case (Cons a ps)
  then obtain n where n: "node = a" "a \<noteq> 0" "h a = Some n" "path h (nxt n) ps 0"
    by (auto split: option.splits)
  have due: "acted_on now (content_of h a) \<longleftrightarrow> now - last_active n > INACTIVITY_THRESHOLD \<and>
      (ping_sent n = 0 \<or> now - ping_sent n > PING_TIMEOUT)"
    using n(3) by (simp add: acted_on_def idle_def)
  show ?case
    using Cons.IH [OF n(4)] n by (subst cm_scan.simps) (auto simp: due split: option.split)
qed

lemma cm_refines:
  assumes rep: "server_rep st r" and names: "\<forall>c \<in> set (members r). length (client_name c) < NAME_SIZE"
  shows "\<exists>st'. connection_manager_turn now st = Some (Ok (st', snd (cm_room now r)))
    \<and> server_rep st' (fst (cm_room now r))"
proof -
  obtain ps where ps: "represents (clients st) ps (members r)"
    using rep by (auto simp: server_rep_def)
  let ?F = "first_ptr (acted_on now) ps (members r)"
  have scan: "cm_scan now (cells (clients st)) (head (clients st)) = Some (Ok
    (case find (acted_on now) (members r) of
       None \<Rightarrow> Quiet
     | Some c \<Rightarrow> if ping_sent c = 0 then To_Ping ?F else To_Kick ?F (take (NAME_SIZE - 1) (client_name c))))"
  proof -
    have "path (cells (clients st)) (head (clients st)) ps 0" "map (content_of (cells (clients st))) ps = members r"
      using ps by (simp_all add: represents_def)
    with cm_scan_path [OF this(1), of now] show ?thesis by (simp only:)
  qed
  show ?thesis
  proof (cases "find (acted_on now) (members r)")
    case None
    with rep show ?thesis by (simp add: connection_manager_turn_def scan cm_room_def)
  next
    case (Some c)
    obtain n where n: "deref (clients st) ?F = Ok n" "client.truncate n = c" "?F \<noteq> 0"
      "cells (clients st) ?F = Some n"
      using deref_first_ptr(2) [OF ps Some] by blast
    have texts: "snprintf MAX_MESSAGE ''ping$'' = ''ping$''"
      "snprintf MAX_MESSAGE ''disconnresponse$'' = ''disconnresponse$''"
      by (simp_all add: snprintf_def MAX_MESSAGE_def)
    show ?thesis
    proof (cases "ping_sent c = 0")
      case True
      have "represents ((clients st)\<lparr>cells := (cells (clients st))(?F \<mapsto> n\<lparr>ping_sent := now\<rparr>)\<rparr>) ps
          (update_first (acted_on now) (\<lambda>d. d\<lparr>ping_sent := now\<rparr>) (members r))"
        by (rule update_first_represents [OF ps refl n(4,3)]) (simp_all add: client.defs)
      with True Some n server_rep_clients [OF rep] show ?thesis
        by (auto simp: connection_manager_turn_def scan cm_room_def cm_ping_def texts)
    next
      case False
      have "c \<in> set (members r)" using Some by (auto simp: find_Some_iff)
      then have "take (NAME_SIZE - 1) (client_name c) = client_name c"
        using names by (auto simp: NAME_SIZE_def)
      then have nm: "take (NAME_SIZE - Suc 0) (client_name n) = client_name n"
        using n(2) by auto
      from remove_represents [OF ps, of "client_name c"] obtain s qs addr where
        s: "remove_client_from_list (clients st) (client_name c) = Some (Ok (s, addr))"
           "represents s qs (drop_named (client_name c) (members r))" by blast
      with False Some n server_rep_clients [OF rep s(2)] show ?thesis
        by (auto simp: connection_manager_turn_def scan cm_room_def cm_notify_def cm_remove_def nm texts)
    qed
  qed
qed

text \<open>The turns as operations on the server: the clock reading of each.\<close>

definition cm_guard :: "int \<Rightarrow> server \<Rightarrow> room \<Rightarrow> bool" where
  "cm_guard now st r \<longleftrightarrow> (\<forall>c \<in> set (members r). length (client_name c) < NAME_SIZE)"

interpretation manager: refinement server_rep cm_guard connection_manager_turn cm_room
  by unfold_locales (simp add: cm_guard_def cm_refines)

section \<open>Properties\<close>

lemma cm_room_frame: "log (fst (cm_room now r)) = log r"
  by (simp add: cm_room_def split: option.splits)

text \<open>
  The connection manager acts on at most one client a second, the first in the list that is
  due: one that has been silent for more than 180 seconds is sent a ping, and the time of the
  ping is noted; one that has also left a ping unanswered for more than 10 seconds is told that
  it is disconnected and the first client of its name is removed. Nothing else changes.
\<close>

lemma connection_manager_turn_effect:
  assumes "server_rep st r" and "\<forall>d \<in> set (members r). length (client_name d) < 20"
    and "members r = as @ c # bs" and "\<forall>d \<in> set as. \<not> acted_on now d"
    and "now - last_active c > 180" and "ping_sent c = 0 \<or> now - ping_sent c > 10"
  shows "\<exists>st'. connection_manager_turn now st = Some (Ok (st',
      [udp_socket_write (client_address c) (if ping_sent c = 0 then ''ping$'' else ''disconnresponse$'') MAX_MESSAGE]))
    \<and> server_rep st' (r\<lparr>members := if ping_sent c = 0 then as @ c\<lparr>ping_sent := now\<rparr> # bs
                                   else drop_named (client_name c) (members r)\<rparr>)"
proof -
  have c: "acted_on now c" using assms(5,6) by (simp add: acted_on_def idle_def cm_consts)
  have "find (acted_on now) (members r) = Some c"
    using assms(4) c unfolding assms(3) by (induction as) auto
  moreover have "update_first (acted_on now) g (members r) = as @ g c # bs" for g
    using assms(4) c unfolding assms(3) by (induction as) auto
  ultimately show ?thesis
    using cm_refines [OF assms(1), of now] assms(2)
    by (auto simp: cm_room_def NAME_SIZE_def)
qed

lemma connection_manager_turn_effect_instance:
  "\<exists>st'. connection_manager_turn 290 (demo_server ''ann'' ''bob'' []) = Some (Ok (st',
      [udp_socket_write (peer 1) ''ping$'' 256]))"
  using connection_manager_turn_effect [OF demo_rep, of "[]" "''ann''" "''bob''" "[]" _ _ 290]
  by (auto simp: MAX_MESSAGE_def)

lemma drop_named_spares:
  "distinct (map client_name cs) \<Longrightarrow> c \<in> set cs \<Longrightarrow> d \<in> set cs \<Longrightarrow> c \<noteq> d \<Longrightarrow> c \<in> set (drop_named (client_name d) cs)"
  by (induction cs) (auto simp: rev_image_eqI)

lemma update_first_spares:
  "c \<in> set cs \<Longrightarrow> \<not> P c \<Longrightarrow> c \<in> set (update_first P f cs)"
  by (induction cs) auto

text \<open>
  When names are unique, the connection manager never harms a client that behaves: a client
  whose last command is at most 180 seconds old, or whose ping is at most 10 seconds old, keeps
  its place with its record unchanged.
\<close>

lemma responsive_client_spared:
  assumes "server_rep st r" and "\<forall>d \<in> set (members r). length (client_name d) < 20"
    and "distinct (map client_name (members r))" and "c \<in> set (members r)"
    and "now - last_active c \<le> 180 \<or> ping_sent c \<noteq> 0 \<and> now - ping_sent c \<le> 10"
  shows "\<exists>st' ds r'. connection_manager_turn now st = Some (Ok (st', ds))
    \<and> server_rep st' r' \<and> c \<in> set (members r')"
proof -
  have c: "\<not> acted_on now c" using assms(5) by (auto simp: acted_on_def idle_def cm_consts)
  have "c \<in> set (members (fst (cm_room now r)))"
  proof (cases "find (acted_on now) (members r)")
    case None
    with assms(4) show ?thesis by (simp add: cm_room_def)
  next
    case (Some d)
    then have "d \<in> set (members r)" "acted_on now d" by (auto simp: find_Some_iff)
    with c drop_named_spares [OF assms(3,4), of d]
      update_first_spares [OF assms(4), of "acted_on now" "\<lambda>d. d\<lparr>ping_sent := now\<rparr>"] Some show ?thesis
      by (auto simp: cm_room_def)
  qed
  with cm_refines [OF assms(1), of now] assms(2) show ?thesis by (fastforce simp: NAME_SIZE_def)
qed

lemma responsive_client_spared_instance:
  "\<exists>st' ds r'. connection_manager_turn 290 (demo_server ''ann'' ''bob'' []) = Some (Ok (st', ds))
    \<and> server_rep st' r'
    \<and> \<lparr>client_address = peer 2, client_name = ''bob'', last_active = 200, ping_sent = 0\<rparr> \<in> set (members r')"
  using responsive_client_spared [OF demo_rep, of "[]" "''ann''" "''bob''"
      "\<lparr>client_address = peer 2, client_name = ''bob'', last_active = 200, ping_sent = 0\<rparr>" 290]
  by simp

text \<open>
  The removal goes by name. If the due client \<open>c\<close> has a namesake \<open>d\<close> earlier in the list,
  who is active, then \<open>c\<close> is told that it is disconnected but stays connected, and \<open>d\<close> is removed
  without being told.
\<close>

lemma timeout_removes_namesake:
  assumes "server_rep st r" and "\<forall>e \<in> set (members r). length (client_name e) < 20"
    and "members r = d # bs @ c # cs" and "client_name d = client_name c"
    and "\<forall>e \<in> set (d # bs). now - last_active e \<le> 180"
    and "now - last_active c > 180" and "ping_sent c \<noteq> 0" and "now - ping_sent c > 10"
  shows "\<exists>st'. connection_manager_turn now st = Some (Ok (st',
      [udp_socket_write (client_address c) ''disconnresponse$'' MAX_MESSAGE]))
    \<and> server_rep st' (r\<lparr>members := bs @ c # cs\<rparr>)"
proof -
  have "\<forall>e \<in> set (d # bs). \<not> acted_on now e"
    using assms(5) by (auto simp: acted_on_def idle_def cm_consts)
  then have "find (acted_on now) (members r) = Some c"
    using assms(6,7,8) unfolding assms(3)
    by (induction bs) (auto simp: acted_on_def idle_def cm_consts)
  then show ?thesis
    using cm_refines [OF assms(1), of now] assms(2,3,4,7) by (auto simp: cm_room_def NAME_SIZE_def)
qed

lemma timeout_removes_namesake_instance:
  "\<exists>st'. connection_manager_turn 500
      (demo_server ''ann'' ''ann'' []\<lparr>clients := (clients (demo_server ''ann'' ''ann'' []))
         \<lparr>cells := [8 \<mapsto> \<lparr>client_address = peer 1, client_name = ''ann'', last_active = 450, ping_sent = 0, nxt = 16\<rparr>,
                    16 \<mapsto> \<lparr>client_address = peer 2, client_name = ''ann'', last_active = 200, ping_sent = 480, nxt = 0\<rparr>]\<rparr>\<rparr>) =
     Some (Ok (st', [udp_socket_write (peer 2) ''disconnresponse$'' 256]))"
proof -
  let ?c = "\<lparr>client_address = peer 2, client_name = ''ann'', last_active = 200, ping_sent = 480\<rparr>"
  let ?d = "\<lparr>client_address = peer 1, client_name = ''ann'', last_active = 450, ping_sent = 0\<rparr>"
  let ?st = "demo_server ''ann'' ''ann'' []\<lparr>clients := (clients (demo_server ''ann'' ''ann'' []))
         \<lparr>cells := [8 \<mapsto> \<lparr>client_address = peer 1, client_name = ''ann'', last_active = 450, ping_sent = 0, nxt = 16\<rparr>,
                    16 \<mapsto> \<lparr>client_address = peer 2, client_name = ''ann'', last_active = 200, ping_sent = 480, nxt = 0\<rparr>]\<rparr>\<rparr>"
  have "represents (clients ?st) [8, 16] [?d, ?c]"
    by (auto simp: represents_def demo_server_def content_of_def client.defs split: if_splits)
  then have "server_rep ?st \<lparr>members = [?d, ?c], log = []\<rparr>"
    by (auto simp: server_rep_def demo_server_def)
  from timeout_removes_namesake [OF this, of ?d "[]" ?c "[]" 500] show ?thesis
    by (auto simp: MAX_MESSAGE_def)
qed

section \<open>A silent room empties\<close>

fun turns :: "int list \<Rightarrow> room \<Rightarrow> room" where
  "turns [] r = r"
| "turns (t # ts) r = turns ts (fst (cm_room t r))"

definition silent_work :: "client list \<Rightarrow> nat" where
  "silent_work cs = (\<Sum>c \<leftarrow> cs. if ping_sent c = 0 then 2 else 1)"

lemma silent_work_0: "silent_work cs = 0 \<longleftrightarrow> cs = []"
  by (cases cs) (auto simp: silent_work_def)

lemma silent_work_le: "silent_work cs \<le> 2 * length cs"
  by (induction cs) (auto simp: silent_work_def)

text \<open>
  At a turn at time \<open>now\<close> everybody has been idle too long, and all pings are earlier. When
  everybody has been pinged, at most \<open>k\<close> turns can pass without an act.
\<close>

definition silent :: "int \<Rightarrow> nat \<Rightarrow> client list \<Rightarrow> bool" where
  "silent now k cs \<longleftrightarrow> (\<forall>c \<in> set cs. idle now c \<and> ping_sent c < now) \<and>
     ((\<exists>c \<in> set cs. ping_sent c = 0) \<and> 10 \<le> k \<or> (\<forall>c \<in> set cs. ping_sent c \<noteq> 0 \<and> ping_sent c + 11 \<le> now + int k))"

lemma silentI:
  assumes "\<And>c. c \<in> set cs \<Longrightarrow> idle now c \<and> ping_sent c < now" and "10 \<le> k"
  shows "silent now k cs"
  using assms by (force simp: silent_def)

lemma silent_later:
  assumes "silent now k cs" and "now < later" and "set ds \<subseteq> set cs"
  shows "silent later k ds"
proof (cases "10 \<le> k")
  case True
  with assms show ?thesis by (intro silentI) (fastforce simp: silent_def idle_def)+
next
  case False
  with assms show ?thesis by (fastforce simp: silent_def idle_def)
qed

lemma silent_work_append [simp]: "silent_work (xs @ ys) = silent_work xs + silent_work ys"
  by (simp add: silent_work_def)

lemma silent_work_Cons [simp]: "silent_work (c # cs) = (if ping_sent c = 0 then 2 else 1) + silent_work cs"
  by (simp add: silent_work_def)

lemma update_first_found: "find P cs = Some c \<Longrightarrow> \<exists>as bs. cs = as @ c # bs \<and> update_first P f cs = as @ f c # bs"
proof (induction cs)
  case Nil
  then show ?case by simp
next
  case (Cons a cs)
  show ?case
  proof (cases "P a")
    case True
    with Cons.prems have "a # cs = [] @ c # cs \<and> update_first P f (a # cs) = [] @ f c # cs" by simp
    then show ?thesis by blast
  next
    case False
    with Cons obtain as bs where s: "cs = as @ c # bs" "update_first P f cs = as @ f c # bs" by auto
    have "a # cs = (a # as) @ c # bs" using s(1) by simp
    moreover have "update_first P f (a # cs) = (a # as) @ f c # bs" using False s(2) by simp
    ultimately show ?thesis by blast
  qed
qed

text \<open>Each turn pings somebody, removes somebody, or lets one of the \<open>k\<close> turns pass.\<close>

lemma silent_turn:
  assumes "silent now k (members r)" and "0 < now" and "now < later" and "members r \<noteq> []"
  shows "\<exists>k'. silent later k' (members (fst (cm_room now r))) \<and>
    silent_work (members (fst (cm_room now r))) + k' < silent_work (members r) + k"
proof (cases "find (acted_on now) (members r)")
  case None
  have all: "ping_sent c \<noteq> 0 \<and> now \<le> ping_sent c + 10" if "c \<in> set (members r)" for c
    using None that assms(1) by (auto simp: find_None_iff acted_on_def silent_def PING_TIMEOUT_def)
  obtain c where c: "c \<in> set (members r)" using assms(4) by (cases "members r") auto
  have p: "ping_sent d + 11 \<le> now + int k" if "d \<in> set (members r)" for d
    using all that assms(1) by (auto simp: silent_def)
  have k: "1 \<le> k" using p [OF c] all [OF c] by simp
  then have "silent later (k - 1) (members r)"
    using assms(1,3) all p by (fastforce simp: silent_def idle_def of_nat_diff)
  with None k show ?thesis by (intro exI [of _ "k - 1"]) (simp add: cm_room_def)
next
  case (Some c)
  show ?thesis
  proof (cases "ping_sent c = 0")
    case True
    obtain as bs where s: "members r = as @ c # bs"
      "update_first (acted_on now) (\<lambda>d. d\<lparr>ping_sent := now\<rparr>) (members r) = as @ c\<lparr>ping_sent := now\<rparr> # bs"
      using update_first_found [OF Some] by blast
    have "10 \<le> k" using assms(1) True s(1) by (auto simp: silent_def)
    then have "silent later k (as @ c\<lparr>ping_sent := now\<rparr> # bs)"
    proof (intro silentI)
      fix d
      assume "d \<in> set (as @ c\<lparr>ping_sent := now\<rparr> # bs)"
      then show "idle later d \<and> ping_sent d < later"
        using assms(1,3) s(1) by (force simp: silent_def idle_def)
    qed
    with Some True s assms(2) show ?thesis by (intro exI [of _ k]) (simp add: cm_room_def)
  next
    case False
    have "c \<in> set (members r)" using Some by (auto simp: find_Some_iff)
    then obtain d where "find (by_name (client_name c)) (members r) = Some d"
      by (cases "find (by_name (client_name c)) (members r)") (auto simp: find_None_iff by_name_def)
    from drop_named_first [OF this] obtain as bs where
      s: "members r = as @ d # bs" "drop_named (client_name c) (members r) = as @ bs" by blast
    have "silent later k (as @ bs)" by (rule silent_later [OF assms(1,3)]) (use s(1) in auto)
    with Some False s show ?thesis by (intro exI [of _ k]) (simp add: cm_room_def)
  qed
qed

lemma silent_turns:
  assumes "silent t k (members r)" and "0 < t" and "sorted_wrt (<) (t # ts)"
    and "silent_work (members r) + k \<le> length (t # ts)"
  shows "members (turns (t # ts) r) = []"
  using assms
proof (induction ts arbitrary: t k r)
  case Nil
  show ?case
  proof (cases "members r = []")
    case True
    then show ?thesis by (simp add: cm_room_def)
  next
    case False
    from silent_turn [OF Nil(1,2) _ False, of "t + 1"] Nil(4)
    have "silent_work (members (fst (cm_room t r))) = 0" by auto
    then show ?thesis by (simp add: silent_work_0)
  qed
next
  case (Cons u us)
  show ?case
  proof (cases "members r = []")
    case True
    have "members (turns vs q) = []" if "members q = []" for vs q
      using that by (induction vs arbitrary: q) (simp_all add: cm_room_def)
    with True show ?thesis by blast
  next
    case False
    have "t < u" using Cons.prems(3) by simp
    from silent_turn [OF Cons.prems(1,2) this False] obtain k' where
      k': "silent u k' (members (fst (cm_room t r)))"
        "silent_work (members (fst (cm_room t r))) + k' < silent_work (members r) + k" by blast
    with Cons.IH [OF k'(1)] Cons.prems(2-4) show ?thesis by auto
  qed
qed

lemma turns_spec_run: "turns ts r = fst (spec_run cm_room r ts)"
  by (induction ts arbitrary: r) (auto simp: Let_def split: prod.splits)

lemma turns_log: "log (turns ts r) = log r"
  by (induction ts arbitrary: r) (simp_all add: cm_room_frame)

lemma cm_room_names:
  "\<forall>c \<in> set (members r). length (client_name c) < k \<Longrightarrow>
   \<forall>c \<in> set (members (fst (cm_room now r))). length (client_name c) < k"
  by (auto simp: cm_room_def split: option.splits dest!: set_update_first set_drop_named [THEN subsetD])

lemma guarded_manager:
  "server_rep st r \<Longrightarrow> \<forall>c \<in> set (members r). length (client_name c) < NAME_SIZE \<Longrightarrow>
   guarded cm_guard connection_manager_turn cm_room st r ts"
proof (induction ts arbitrary: st r)
  case Nil
  then show ?case by simp
next
  case (Cons t ts)
  from cm_refines [OF Cons.prems, of t] obtain st' where
    st': "connection_manager_turn t st = Some (Ok (st', snd (cm_room t r)))" "server_rep st' (fst (cm_room t r))"
    by blast
  with Cons.IH [OF st'(2) cm_room_names [OF Cons.prems(2)]] Cons.prems show ?case
    by (simp add: cm_guard_def)
qed

text \<open>
  C23. Dead clients do not stay. The manager sleeps a second between its turns, so each reads a later
  clock, and it acts on one client a turn at most. If all of the connected clients have been
  silent for more than 180 seconds, pinged or not, and none sends anything any more, then two turns
  per client and ten more leave the list empty, however long the manager sleeps in between, with
  nothing faulting on the way and the history untouched. So with a turn a second \<open>n\<close> clients are
  gone after \<open>2 * n + 10\<close> seconds.
\<close>

theorem silent_clients_are_removed:
  assumes "server_rep st r" and "\<forall>c \<in> set (members r). length (client_name c) < 20"
    and "\<forall>c \<in> set (members r). t - last_active c > 180 \<and> ping_sent c < t" and "0 < t"
    and "sorted_wrt (<) (t # ts)" and "2 * length (members r) + 10 \<le> length (t # ts)"
  shows "\<exists>st' outs. exec_run connection_manager_turn st (t # ts) = Some (Ok (st', outs))
    \<and> server_rep st' (r\<lparr>members := []\<rparr>)"
proof -
  have names: "\<forall>c \<in> set (members r). length (client_name c) < NAME_SIZE"
    using assms(2) by (simp add: NAME_SIZE_def)
  have "silent t 10 (members r)" using assms(3) by (intro silentI) (auto simp: idle_def cm_consts)
  moreover have "silent_work (members r) + 10 \<le> length (t # ts)"
    using silent_work_le [of "members r"] assms(6) by linarith
  ultimately have "members (turns (t # ts) r) = []"
    using silent_turns assms(4,5) by blast
  then have "turns (t # ts) r = r\<lparr>members := []\<rparr>"
    using turns_log [of "t # ts" r] by (cases r; cases "turns (t # ts) r") simp
  with manager.run_simulates [OF assms(1) guarded_manager [OF assms(1) names], of "t # ts"]
  show ?thesis by (auto simp: turns_spec_run)
qed

theorem silent_clients_are_removed_witness:
  "\<exists>st' outs. exec_run connection_manager_turn (demo_server ''ann'' ''bob'' [])
      [400, 401, 402, 403, 404, 405, 406, 407, 408, 409, 410, 411, 412, 413] = Some (Ok (st', outs))
    \<and> server_rep st' empty_room"
  using silent_clients_are_removed [OF demo_rep, of "[]" "''ann''" "''bob''" 400
      "[401, 402, 403, 404, 405, 406, 407, 408, 409, 410, 411, 412, 413]"]
  by (auto simp: demo_room_def empty_room_def)

end
