(* ===== verification/Server_Threads.thy ===== *)
theory Server_Threads
  imports Connection_Manager
begin

text \<open>
  The server as it runs: one thread per request and the connection manager, interleaved. A
  handler of theory \<open>Server\<close> is cut where it enters or leaves the monitor, and where it touches
  the history array, which nothing protects; what it keeps across a cut is what the C code keeps
  in its local variables, pointers to nodes above all. The sections inside the monitor are
  atomic with respect to each other by mutual exclusion (theory \<open>Monitor\<close>).
\<close>

section \<open>Threads\<close>

datatype hthread =
    Activity command_t sockaddr_in nat
  | Connect_Add command_t sockaddr_in
  | Connect_Reply command_t sockaddr_in
  | Connect_History sockaddr_in nat
  | Sayto_Lookup command_t sockaddr_in
  | Sayto_Send command_t nat nat
  | Say_Head command_t sockaddr_in
  | Say_Lookup command_t sockaddr_in nat
  | Say_Format command_t nat nat
  | Say_Store string nat
  | Say_Count string nat
  | Say_Broadcast string nat
  | Disconnect_Lookup sockaddr_in
  | Disconnect_Remove nat
  | Disconnect_Reply "sockaddr_in option"
  | Mute_Reply command_t sockaddr_in
  | Unmute_Reply command_t sockaddr_in
  | Rename_Update command_t sockaddr_in
  | Rename_Reply command_t sockaddr_in
  | Kick_Check command_t sockaddr_in
  | Kick_Refuse sockaddr_in
  | Kick_Remove command_t
  | Kick_Notify command_t sockaddr_in
  | Kick_Announce command_t
  | Unknown_Reply sockaddr_in
  | Manager_Sleep
  | Manager_Ping int nat
  | Manager_Notify nat string
  | Manager_Remove string
  | Done

definition spawn :: "command_t \<Rightarrow> sockaddr_in \<Rightarrow> hthread" where
  "spawn cmd from =
     (case kind cmd of
        CONN \<Rightarrow> Connect_Add cmd from
      | SAY \<Rightarrow> Say_Head cmd from
      | SAYTO \<Rightarrow> Sayto_Lookup cmd from
      | DISCONN \<Rightarrow> Disconnect_Lookup from
      | MUTE \<Rightarrow> Mute_Reply cmd from
      | UNMUTE \<Rightarrow> Unmute_Reply cmd from
      | RENAME \<Rightarrow> Rename_Update cmd from
      | KICK \<Rightarrow> Kick_Check cmd from
      | UNKNOWN \<Rightarrow> Unknown_Reply from
      | _ \<Rightarrow> Done)"

text \<open>
  Before it starts the handler, the dispatcher walks through the list to mark the sender as active,
  and does so without the monitor: \<open>Activity\<close> is the dispatcher at one node of its way. When the walk
  is over it becomes the handler thread it starts. The walk starts at the head, unless somebody
  connects.
\<close>

definition dispatch_start :: "command_t \<Rightarrow> sockaddr_in \<Rightarrow> server \<Rightarrow> hthread" where
  "dispatch_start cmd from st =
     (if kind cmd \<noteq> CONN then Activity cmd from (head (clients st)) else spawn cmd from)"

fun walking :: "hthread \<Rightarrow> bool" where
  "walking (Activity cmd from node) = True"
| "walking th = False"

text \<open>
  \<open>say_record\<close> in its pieces: format the line, then test the counter; store at the index the
  counter has by then; increment it.
\<close>

definition say_format :: "command_t \<Rightarrow> nat \<Rightarrow> server \<Rightarrow> string res" where
  "say_format cmd from_who st =
     res_bind (join_args (args cmd) 0 MAX_MESSAGE) (\<lambda>message.
     res_bind (deref (clients st) from_who) (\<lambda>f. Ok (line_of (client_name f) message)))"

definition say_store :: "string \<Rightarrow> server \<Rightarrow> server res" where
  "say_store line st =
     (if chat_historyc st < length (chat_history st)
      then Ok (st\<lparr>chat_history := (chat_history st)[chat_historyc st := Some line]\<rparr>)
      else Fault BufferOverflow)"

definition say_count :: "server \<Rightarrow> server" where
  "say_count st = st\<lparr>chat_historyc := chat_historyc st + 1\<rparr>"

fun thread_step :: "nat \<Rightarrow> int \<Rightarrow> hthread \<Rightarrow> server \<Rightarrow> (server \<times> hthread \<times> datagram list) run" where
  "thread_step p now (Activity cmd from node) st =
     (if node = 0 then Some (Ok (st, spawn cmd from, []))
      else run_bind (Some (deref (clients st) node)) (\<lambda>n.
        if client_address n = from
        then Some (Ok (st\<lparr>clients := (clients st)
               \<lparr>cells := (cells (clients st))(node \<mapsto> n\<lparr>last_active := now, ping_sent := 0\<rparr>)\<rparr>\<rparr>,
             spawn cmd from, []))
        else Some (Ok (st, Activity cmd from (nxt n), []))))"
| "thread_step p now (Connect_Add cmd from) st =
     run_bind (Some (connect_add p now cmd from st)) (\<lambda>st1. Some (Ok (st1, Connect_Reply cmd from, [])))"
| "thread_step p now (Connect_Reply cmd from) st =
     run_bind (Some (connect_reply cmd from)) (\<lambda>ds.
       Some (Ok (st, Connect_History from (history_start (chat_historyc st)), ds)))"
| "thread_step p now (Connect_History from i) st =
     (if i < chat_historyc st
      then run_bind (Some (history_slot from i st)) (\<lambda>ds. Some (Ok (st, Connect_History from (i + 1), ds)))
      else Some (Ok (st, Done, [])))"
| "thread_step p now (Sayto_Lookup cmd from) st =
     run_bind (sayto_lookup cmd from st) (\<lambda>(c, f). Some (Ok (st, Sayto_Send cmd c f, [])))"
| "thread_step p now (Sayto_Send cmd c f) st =
     run_bind (Some (sayto_send cmd c f st)) (\<lambda>ds. Some (Ok (st, Done, ds)))"
| "thread_step p now (Say_Head cmd from) st = Some (Ok (st, Say_Lookup cmd from (say_head st), []))"
| "thread_step p now (Say_Lookup cmd from node) st =
     run_bind (say_lookup from st) (\<lambda>f. Some (Ok (st, Say_Format cmd node f, [])))"
| "thread_step p now (Say_Format cmd node f) st =
     run_bind (Some (say_format cmd f st)) (\<lambda>line.
       Some (Ok (st, if chat_historyc st < MAX_MSGS then Say_Store line node else Say_Broadcast line node, [])))"
| "thread_step p now (Say_Store line node) st =
     run_bind (Some (say_store line st)) (\<lambda>st1. Some (Ok (st1, Say_Count line node, [])))"
| "thread_step p now (Say_Count line node) st = Some (Ok (say_count st, Say_Broadcast line node, []))"
| "thread_step p now (Say_Broadcast line node) st =
     run_bind (broadcast (say_text line) st node) (\<lambda>ds. Some (Ok (st, Done, ds)))"
| "thread_step p now (Disconnect_Lookup from) st =
     run_bind (disconnect_lookup from st) (\<lambda>node.
       Some (Ok (st, if node = 0 then Done else Disconnect_Remove node, [])))"
| "thread_step p now (Disconnect_Remove node) st =
     run_bind (disconnect_remove node st) (\<lambda>(st1, addr). Some (Ok (st1, Disconnect_Reply addr, [])))"
| "thread_step p now (Disconnect_Reply addr) st = Some (Ok (st, Done, disconnect_reply addr))"
| "thread_step p now (Mute_Reply cmd from) st = Some (Ok (st, Done, mute cmd from))"
| "thread_step p now (Unmute_Reply cmd from) st = Some (Ok (st, Done, unmute cmd from))"
| "thread_step p now (Rename_Update cmd from) st =
     run_bind (rename_update cmd from st) (\<lambda>st1. Some (Ok (st1, Rename_Reply cmd from, [])))"
| "thread_step p now (Rename_Reply cmd from) st = Some (Ok (st, Done, rename_reply cmd from))"
| "thread_step p now (Kick_Check cmd from) st =
     run_bind (Some (kick_is_admin from st)) (\<lambda>is_admin.
       Some (Ok (st, if is_admin then Kick_Remove cmd else Kick_Refuse from, [])))"
| "thread_step p now (Kick_Refuse from) st = Some (Ok (st, Done, kick_denied from))"
| "thread_step p now (Kick_Remove cmd) st =
     run_bind (kick_remove cmd st) (\<lambda>(st1, addr).
       Some (Ok (st1, case addr of None \<Rightarrow> Done | Some a \<Rightarrow> Kick_Notify cmd a, [])))"
| "thread_step p now (Kick_Notify cmd a) st = Some (Ok (st, Kick_Announce cmd, disconnect_reply (Some a)))"
| "thread_step p now (Kick_Announce cmd) st =
     run_bind (kick_announce cmd st) (\<lambda>ds. Some (Ok (st, Done, ds)))"
| "thread_step p now (Unknown_Reply from) st = Some (Ok (st, Done, handle_unknown_command from))"
| "thread_step p now Manager_Sleep st =
     run_bind (cm_scan now (cells (clients st)) (head (clients st))) (\<lambda>choice.
       Some (Ok (st, case choice of Quiet \<Rightarrow> Manager_Sleep | To_Ping q \<Rightarrow> Manager_Ping now q
                                  | To_Kick q name \<Rightarrow> Manager_Notify q name, [])))"
| "thread_step p now (Manager_Ping t q) st =
     run_bind (Some (cm_ping t q st)) (\<lambda>(st1, ds). Some (Ok (st1, Manager_Sleep, ds)))"
| "thread_step p now (Manager_Notify q name) st =
     run_bind (Some (cm_notify q st)) (\<lambda>ds. Some (Ok (st, Manager_Remove name, ds)))"
| "thread_step p now (Manager_Remove name) st =
     run_bind (cm_remove name st) (\<lambda>st1. Some (Ok (st1, Manager_Sleep, [])))"
| "thread_step p now Done st = Some (Ok (st, Done, []))"

section \<open>A thread that runs alone\<close>

fun run_thread :: "nat \<Rightarrow> nat \<Rightarrow> int \<Rightarrow> hthread \<Rightarrow> server \<Rightarrow> (server \<times> datagram list) run" where
  "run_thread n p now Done st = Some (Ok (st, []))"
| "run_thread 0 p now th st = None"
| "run_thread (Suc n) p now th st =
     run_bind (thread_step p now th st) (\<lambda>(st1, th1, ds).
     run_bind (run_thread n p now th1 st1) (\<lambda>(st2, ds2). Some (Ok (st2, ds @ ds2))))"

lemma run_bind_assoc [run_simps]:
  "run_bind (run_bind r f) g = run_bind r (\<lambda>x. run_bind (f x) g)"
  by (simp add: run_bind_def split: option.splits sum.splits)

lemma run_bind_pair [run_simps]:
  "run_bind (run_bind r (\<lambda>(x, y). f x y)) g = run_bind r (\<lambda>(x, y). run_bind (f x y) g)"
  by (simp add: run_bind_def split: option.splits sum.splits prod.splits)

lemma run_bind_if [run_simps]: "run_bind (if b then r else s) f = (if b then run_bind r f else run_bind s f)"
  by simp

lemma say_record_pieces:
  assumes "length (chat_history st) = MAX_MSGS"
  shows "say_record cmd f st = res_bind (say_format cmd f st) (\<lambda>line.
    if chat_historyc st < MAX_MSGS
    then res_bind (say_store line st) (\<lambda>st1. Ok (say_count st1, say_text line))
    else Ok (st, say_text line))"
  using assms
  by (simp add: say_record_def say_format_def say_store_def say_count_def line_of_def say_text_def
      res_bind_def Let_def split: sum.splits)

text \<open>Going through the history takes a step for each line and one to find the end.\<close>

lemma run_thread_history:
  "chat_historyc st - i < n \<Longrightarrow>
   run_thread n p now (Connect_History from i) st = Some (res_bind (send_history from i st) (\<lambda>ds. Ok (st, ds)))"
proof (induction n arbitrary: i)
  case 0
  then show ?case by simp
next
  case (Suc n)
  show ?case
  proof (cases "i < chat_historyc st")
    case True
    with Suc.prems have "chat_historyc st - Suc i < n" by simp
    from Suc.IH [OF this] True show ?thesis
      by (subst send_history.simps) (simp add: run_bind_def res_bind_def split: sum.splits)
  next
    case False
    then show ?thesis by (subst send_history.simps) (cases n; simp)
  qed
qed

lemma history_window: "chat_historyc st - history_start (chat_historyc st) < Suc (Suc CHAT_HISTORY_SIZE)"
  by (simp add: history_start_def)

lemma run_thread_handler:
  assumes "length (chat_history st) = MAX_MSGS"
  shows "run_thread 18 p now (spawn cmd from) st = run_handler p now cmd from st"
proof (cases "kind cmd")
  case CONN
  obtain n :: nat where n: "n = 16" by simp
  then have "run_thread n p now (Connect_History a (history_start (chat_historyc s))) s =
      Some (res_bind (send_history a (history_start (chat_historyc s)) s) (\<lambda>ds. Ok (s, ds)))" for a s
    by (intro run_thread_history) (simp add: history_start_def CHAT_HISTORY_SIZE_def)
  then have "run_thread (Suc (Suc n)) p now (Connect_Add cmd from) st = connect_to_server p now cmd from st"
    by (simp add: connect_to_server_def run_bind_def res_bind_def split: sum.splits)
  moreover have "18 = Suc (Suc n)" using n by simp
  ultimately show ?thesis using CONN by (simp only: spawn_def run_handler_def command_kind.simps)
next
  case SAY
  show ?thesis
    using SAY assms
    by (simp add: eval_nat_numeral spawn_def run_handler_def say_def Let_def say_record_pieces)
       (simp add: run_bind_def res_bind_def broadcast_def say_store_def say_count_def split: option.splits sum.splits)
next
  case SAYTO
  then show ?thesis
    by (simp add: eval_nat_numeral spawn_def run_handler_def sayto_def run_bind_def res_bind_def
        split: option.splits sum.splits prod.splits)
next
  case DISCONN
  then show ?thesis
    by (simp add: eval_nat_numeral spawn_def run_handler_def disconnect_def run_bind_def
        split: option.splits sum.splits prod.splits)
next
  case RENAME
  then show ?thesis
    by (simp add: eval_nat_numeral spawn_def run_handler_def rename_client_def run_bind_def
        split: option.splits sum.splits)
next
  case KICK
  then show ?thesis
    by (simp add: eval_nat_numeral spawn_def run_handler_def kick_def run_bind_def
        split: option.splits sum.splits prod.splits)
qed (simp_all add: eval_nat_numeral spawn_def run_handler_def)

text \<open>
  C19. A handler thread that runs alone does what the chat room does. From every state of the server
  that represents a room, the thread of a valid request of any kind, from its start to its end and
  with no other thread in between, returns within eighteen steps without a fault, sends exactly
  the datagrams of the room, and leaves a state that represents the room afterwards.
\<close>

theorem thread_alone_serves_room:
  assumes "server_rep st r" and "valid_request p cmd from st r"
  shows "\<exists>st'. run_thread 18 p now (spawn cmd from) st = Some (Ok (st', snd (room_handle now cmd from r)))
    \<and> server_rep st' (fst (room_handle now cmd from r))"
proof -
  have len: "length (chat_history st) = MAX_MSGS" using assms(1) by (auto simp: server_rep_def)
  show ?thesis unfolding run_thread_handler [OF len] by (rule handler_refines [OF assms])
qed

theorem thread_alone_serves_room_witness:
  "\<exists>st'. run_thread 18 0 300 (spawn (demo_cmd KICK [''bob'']) (peer 1)) (demo_server ''ann'' ''bob'' []) =
      Some (Ok (st', [udp_socket_write (peer 2) ''disconnresponse$'' 256,
        udp_socket_write (peer 1) ''say$ SERVER: bob has been kicked'' 512])) \<and>
    server_rep st' \<lparr>members = [\<lparr>client_address = peer 1, client_name = ''ann'', last_active = 100, ping_sent = 0\<rparr>], log = []\<rparr>"
proof -
  let ?cmd = "demo_cmd KICK [''bob'']" and ?st = "demo_server ''ann'' ''bob'' []" and ?r = "demo_room ''ann'' ''bob'' []"
  have "valid_request 0 ?cmd (peer 1) ?st ?r"
    by (simp add: valid_request_def NAME_SIZE_def MAX_CMD_SIZE_def)
  from thread_alone_serves_room [OF demo_rep this, of 300] show ?thesis
    by (simp add: room_handle_def room_kick_def demo_room_def demo_cmd_def arg_def by_name_def Let_def
        disconnect_reply_def to_all_def snprintf_def server_consts)
qed

section \<open>The interleaved system\<close>

record system =
  srv :: server
  pool :: "hthread list"
  sent :: "datagram list"
  crashed :: "fault option"

text \<open>
  Thread \<open>i\<close> takes its next step; \<open>malloc\<close> returns a block that is not in use. After a fault
  nothing moves.
\<close>

inductive thread_move :: "nat \<Rightarrow> system \<Rightarrow> system \<Rightarrow> bool" where
  move: "crashed s = None \<Longrightarrow> i < length (pool s) \<Longrightarrow> p \<noteq> 0 \<Longrightarrow> cells (clients (srv s)) p = None \<Longrightarrow>
     thread_step p now (pool s ! i) (srv s) = Some (Ok (st, th, ds)) \<Longrightarrow>
     thread_move i s (s\<lparr>srv := st, pool := (pool s)[i := th], sent := sent s @ ds\<rparr>)"
| move_fault: "crashed s = None \<Longrightarrow> i < length (pool s) \<Longrightarrow> p \<noteq> 0 \<Longrightarrow> cells (clients (srv s)) p = None \<Longrightarrow>
     thread_step p now (pool s ! i) (srv s) = Some (Fault e) \<Longrightarrow>
     thread_move i s (s\<lparr>crashed := Some e\<rparr>)"

text \<open>The dispatcher takes one request after the other: it must not be on its way for another one.\<close>

definition dispatched :: "command_t \<Rightarrow> sockaddr_in \<Rightarrow> system \<Rightarrow> system" where
  "dispatched cmd from s = s\<lparr>pool := pool s @ [dispatch_start cmd from (srv s)]\<rparr>"

definition dispatcher_free :: "system \<Rightarrow> bool" where
  "dispatcher_free s \<longleftrightarrow> list_all (\<lambda>th. \<not> walking th) (pool s)"

inductive sys_step :: "system \<Rightarrow> system \<Rightarrow> bool" where
  dispatch: "crashed s = None \<Longrightarrow> dispatcher_free s \<Longrightarrow> well_formed_command cmd \<Longrightarrow>
     sys_step s (dispatched cmd from s)"
| thread: "thread_move i s t \<Longrightarrow> sys_step s t"

inductive_cases sys_step_cases: "sys_step s t"
inductive_cases thread_move_cases: "thread_move i s t"

definition sys_init :: "system \<Rightarrow> bool" where
  "sys_init s \<longleftrightarrow> s = \<lparr>srv = server_init, pool = [Manager_Sleep], sent = [], crashed = None\<rparr>"

section \<open>What holds in every interleaving\<close>

lemma represents_same_shape:
  assumes "represents s ps cs" and "cells s q = Some n" and "nxt n' = nxt n"
  shows "store_inv (s\<lparr>cells := (cells s)(q \<mapsto> n')\<rparr>)"
proof -
  have "path ((cells s)(q \<mapsto> n')) (head s) ps 0"
    by (rule path_same_next [where h = "cells s"]) (use assms in \<open>auto simp: represents_def\<close>)
  moreover have "dom ((cells s)(q \<mapsto> n')) = dom (cells s)" using assms(2) by auto
  ultimately show ?thesis
    using assms(1) by (auto simp: store_inv_def represents_def)
qed

lemma represents_total:
  assumes "store_inv s"
  shows "\<exists>s' a. remove_client_from_list s name = Some (Ok (s', a)) \<and> store_inv s'"
    and "\<exists>s'. update_client_activity now s addr = Some (Ok s') \<and> store_inv s'"
    and "\<exists>q. find_client s name = Some (Ok q)" and "\<exists>q. find_client_by_address s addr = Some (Ok q)"
    and "\<exists>ch. cm_scan now (cells s) (head s) = Some (Ok ch)"
proof -
  obtain ps cs where ps: "represents s ps cs" using assms by (auto simp: store_inv_def)
  show "\<exists>s' a. remove_client_from_list s name = Some (Ok (s', a)) \<and> store_inv s'"
    using remove_represents [OF ps, of name] by (auto simp: store_inv_def)
  show "\<exists>s'. update_client_activity now s addr = Some (Ok s') \<and> store_inv s'"
    using update_represents [OF ps, of now addr] by (auto simp: store_inv_def)
  show "\<exists>q. find_client s name = Some (Ok q)" "\<exists>q. find_client_by_address s addr = Some (Ok q)"
    using find_client_represents [OF ps] find_client_by_address_represents [OF ps] by auto
  show "\<exists>ch. cm_scan now (cells s) (head s) = Some (Ok ch)"
    using ps cm_scan_path [of "cells s" "head s" ps now] by (auto simp: represents_def)
qed

lemma deref_store_inv:
  assumes "store_inv s" and "deref s q = Ok n" and "nxt n' = nxt n"
  shows "store_inv (s\<lparr>cells := (cells s)(q \<mapsto> n')\<rparr>)"
  using assms represents_same_shape by (auto simp: store_inv_def deref_def split: if_splits option.splits)

definition sys_inv :: "system \<Rightarrow> bool" where
  "sys_inv s \<longleftrightarrow> store_inv (clients (srv s)) \<and> length (chat_history (srv s)) = MAX_MSGS"

lemma add_store_inv:
  "store_inv s \<Longrightarrow> p \<noteq> 0 \<Longrightarrow> cells s p = None \<Longrightarrow> add_client_to_list p now s addr name = Ok s' \<Longrightarrow> store_inv s'"
  using add_represents [of s _ _ p now addr name] by (fastforce simp: store_inv_def)

lemma thread_step_inv:
  assumes "store_inv (clients st)" and "p \<noteq> 0" and "cells (clients st) p = None"
    and "thread_step p now th st = Some (Ok (st', th', ds))"
  shows "store_inv (clients st') \<and> length (chat_history st') = length (chat_history st)"
proof (cases th)
  case (Activity cmd a node)
  then show ?thesis
    using assms deref_store_inv [OF assms(1)]
    by (auto simp: run_bind_def split: option.splits sum.splits if_splits)
next
  case (Connect_Add cmd a)
  then show ?thesis
    using assms add_store_inv [OF assms(1-3)]
    by (auto simp: connect_add_def res_bind_def run_bind_def split: sum.splits)
next
  case (Disconnect_Remove node)
  show ?thesis
  proof (cases "deref (clients st) node")
    case (Inl e)
    with Disconnect_Remove assms show ?thesis by (auto simp: disconnect_remove_def split: if_splits)
  next
    case (Inr n)
    with Disconnect_Remove assms represents_total(1) [OF assms(1), of "client_name n"] show ?thesis
      by (auto simp: disconnect_remove_def split: if_splits)
  qed
next
  case (Kick_Remove cmd)
  then show ?thesis
    using assms represents_total(1) [OF assms(1), of "arg cmd 0"]
    by (auto simp: kick_remove_def)
next
  case (Manager_Remove name)
  then show ?thesis
    using assms represents_total(1) [OF assms(1), of name]
    by (auto simp: cm_remove_def)
next
  case (Rename_Update cmd a)
  then show ?thesis
    using assms deref_store_inv [OF assms(1)]
    by (auto simp: rename_update_def run_bind_def strcpy_def split: option.splits sum.splits if_splits)
next
  case (Manager_Ping t q)
  then show ?thesis
    using assms deref_store_inv [OF assms(1)]
    by (auto simp: cm_ping_def res_bind_def run_bind_def split: sum.splits)
next
  case (Say_Store line node)
  then show ?thesis
    using assms by (auto simp: say_store_def split: if_splits)
qed (use assms in \<open>auto simp: run_bind_def say_count_def split: option.splits sum.splits if_splits\<close>)

lemma mark_active_inv:
  assumes "store_inv (clients st)" and "mark_active now cmd from st = Some (Ok st')"
  shows "store_inv (clients st') \<and> length (chat_history st') = length (chat_history st)"
  using assms represents_total(2) [OF assms(1), of now "from"]
  by (auto simp: mark_active_def split: if_splits)

lemma dispatched_sel [simp]:
  "srv (dispatched cmd from s) = srv s" "sent (dispatched cmd from s) = sent s"
  "crashed (dispatched cmd from s) = crashed s"
  "pool (dispatched cmd from s) = pool s @ [dispatch_start cmd from (srv s)]"
  by (simp_all add: dispatched_def)

lemma thread_move_inv: "thread_move i s t \<Longrightarrow> sys_inv s \<Longrightarrow> sys_inv t"
proof (induction rule: thread_move.induct)
  case (move s i p now st th ds)
  with thread_step_inv [of "srv s" p now "pool s ! i" st th ds] show ?case by (simp add: sys_inv_def)
qed (simp add: sys_inv_def)

interpretation sys: inductive_invariant sys_init sys_step sys_inv
proof unfold_locales
  fix s t
  show "sys_init s \<Longrightarrow> sys_inv s"
    using represents_empty by (auto simp: sys_init_def sys_inv_def server_init_def empty_store_def store_inv_def)
  show "sys_step s t \<Longrightarrow> sys_inv s \<Longrightarrow> sys_inv t"
    by (erule sys_step_cases) (auto simp: sys_inv_def [of "dispatched _ _ _"] sys_inv_def [of s] intro: thread_move_inv)
qed

lemma broadcast_loop_total:
  assumes "represents s ps cs"
  shows "broadcast_loop text (cells s) acc node \<noteq> None"
proof (cases "node \<in> set ps")
  case True
  then obtain as bs where "ps = as @ node # bs" by (auto dest: split_list)
  then have "path (cells s) node (node # bs) 0"
    using assms by (auto simp: represents_def heap_simps)
  from broadcast_loop_path [OF this] show ?thesis by simp
next
  case False
  then have "cells s node = None" using assms by (auto simp: represents_def)
  then show ?thesis by (simp add: broadcast_loop.simps)
qed

lemma find_client_total:
  "store_inv s \<Longrightarrow> find_client s name \<noteq> None" "store_inv s \<Longrightarrow> find_client_by_address s addr \<noteq> None"
  using represents_total(3,4) [of s] by fastforce+

lemma remove_total: "store_inv s \<Longrightarrow> remove_client_from_list s name \<noteq> None"
  using represents_total(1) [of s name] by auto

lemma thread_step_total:
  assumes "store_inv (clients st)"
  shows "thread_step p now th st \<noteq> None"
proof -
  obtain ps cs where ps: "represents (clients st) ps cs" using assms by (auto simp: store_inv_def)
  have b: "broadcast text st node \<noteq> None" for "text" node
    unfolding broadcast_def by (rule broadcast_loop_total [OF ps])
  show ?thesis
    using represents_total(5) [OF assms, of now]
    by (cases th) (auto simp: run_bind_def sayto_lookup_def say_lookup_def disconnect_lookup_def
        disconnect_remove_def kick_remove_def kick_announce_def rename_update_def cm_remove_def
        find_client_total [OF assms] remove_total [OF assms] b split: option.splits sum.splits)
qed

section \<open>Taking steps\<close>

definition starts_connect :: "hthread \<Rightarrow> bool" where
  "starts_connect th \<longleftrightarrow> (\<exists>cmd a. th = Connect_Add cmd a)"

lemma thread_step_block: "\<not> starts_connect th \<Longrightarrow> thread_step p now th st = thread_step q now th st"
  by (cases th) (simp_all add: starts_connect_def)

lemma fresh_block:
  assumes "store_inv s"
  obtains p where "p \<noteq> 0" and "cells s p = None"
proof -
  obtain ps cs where "represents s ps cs" using assms by (auto simp: store_inv_def)
  then have "finite (insert 0 (dom (cells s)))" by (metis finite.insertI List.finite_set represents_def)
  then obtain p where "p \<notin> insert 0 (dom (cells s))" using ex_new_if_finite infinite_UNIV_nat by blast
  then have "p \<noteq> 0" "cells s p = None" by auto
  then show thesis by (rule that)
qed

lemma thread_moves:
  assumes "sys_inv s" and "crashed s = None" and "i < length (pool s)" and "\<not> starts_connect (pool s ! i)"
  shows "thread_step 0 now (pool s ! i) (srv s) = Some (Ok (st, th, ds)) \<Longrightarrow>
      thread_move i s (s\<lparr>srv := st, pool := (pool s)[i := th], sent := sent s @ ds\<rparr>)"
    and "thread_step 0 now (pool s ! i) (srv s) = Some (Fault e) \<Longrightarrow> thread_move i s (s\<lparr>crashed := Some e\<rparr>)"
proof -
  obtain p where p: "p \<noteq> 0" "cells (clients (srv s)) p = None"
    using assms(1) fresh_block by (auto simp: sys_inv_def)
  have eq: "thread_step 0 now (pool s ! i) (srv s) = thread_step p now (pool s ! i) (srv s)"
    by (rule thread_step_block [OF assms(4)])
  show "thread_step 0 now (pool s ! i) (srv s) = Some (Ok (st, th, ds)) \<Longrightarrow>
      thread_move i s (s\<lparr>srv := st, pool := (pool s)[i := th], sent := sent s @ ds\<rparr>)"
    using move [OF assms(2,3) p] eq by simp
  show "thread_step 0 now (pool s ! i) (srv s) = Some (Fault e) \<Longrightarrow> thread_move i s (s\<lparr>crashed := Some e\<rparr>)"
    using move_fault [OF assms(2,3) p] eq by simp
qed

lemmas moves = thread [OF thread_moves(1)] thread [OF thread_moves(2)]

lemma spawn_not_walking [simp]: "\<not> walking (spawn cmd from)"
  by (simp add: spawn_def split: command_kind.splits)

lemma spawn_starts_connect: "starts_connect (spawn cmd from) \<longleftrightarrow> kind cmd = CONN"
  by (auto simp: starts_connect_def spawn_def split: command_kind.splits)

lemma thread_step_next:
  "thread_step p now th st = Some (Ok (st', th', ds)) \<Longrightarrow> \<not> walking th \<Longrightarrow> \<not> walking th' \<and> \<not> starts_connect th'"
  by (cases th) (auto simp: starts_connect_def run_bind_def split: option.splits sum.splits if_splits cm_choice.splits)

lemma run_thread_moves:
  assumes "run_thread n p now (pool s ! i) (srv s) = Some (Ok (st, ds))"
    and "sys_inv s" and "crashed s = None" and "i < length (pool s)"
    and "starts_connect (pool s ! i) \<Longrightarrow> p \<noteq> 0 \<and> cells (clients (srv s)) p = None"
    and "\<not> walking (pool s ! i)"
  shows "(thread_move i)\<^sup>*\<^sup>* s (s\<lparr>srv := st, pool := (pool s)[i := Done], sent := sent s @ ds\<rparr>)"
  using assms
proof (induction n arbitrary: s ds)
  case 0
  then have "pool s ! i = Done" by (cases "pool s ! i") simp_all
  moreover from this have "(pool s)[i := Done] = pool s" by (metis list_update_id)
  ultimately show ?case using 0 by (cases s) auto
next
  case (Suc n)
  show ?case
  proof (cases "pool s ! i = Done")
    case True
    then have "(pool s)[i := Done] = pool s" by (metis list_update_id)
    with True Suc.prems show ?thesis by (cases s) auto
  next
    case False
    then have "run_thread (Suc n) p now (pool s ! i) (srv s) =
      run_bind (thread_step p now (pool s ! i) (srv s)) (\<lambda>(st1, th1, ds).
        run_bind (run_thread n p now th1 st1) (\<lambda>(st2, ds2). Some (Ok (st2, ds @ ds2))))"
      by (cases "pool s ! i") simp_all
    with Suc.prems(1) obtain st1 th1 ds1 ds2 where
      one: "thread_step p now (pool s ! i) (srv s) = Some (Ok (st1, th1, ds1))"
      and rest: "run_thread n p now th1 st1 = Some (Ok (st, ds2))" "ds = ds1 @ ds2"
      by (auto simp: run_bind_def split: option.splits sum.splits)
    let ?t = "s\<lparr>srv := st1, pool := (pool s)[i := th1], sent := sent s @ ds1\<rparr>"
    have step: "thread_move i s ?t"
    proof (cases "starts_connect (pool s ! i)")
      case True
      with Suc.prems one show ?thesis by (intro move) auto
    next
      case False
      with thread_moves(1) [OF Suc.prems(2,3,4) False] one thread_step_block [OF False] show ?thesis by metis
    qed
    have "(thread_move i)\<^sup>*\<^sup>* ?t (?t\<lparr>srv := st, pool := (pool ?t)[i := Done], sent := sent ?t @ ds2\<rparr>)"
      using Suc.prems rest(1) thread_step_next [OF one] thread_move_inv [OF step Suc.prems(2)]
      by (intro Suc.IH) simp_all
    with step rest(2) show ?thesis by (simp add: converse_rtranclp_into_rtranclp)
  qed
qed

lemma run_thread_faults:
  assumes "run_thread n p now (pool s ! i) (srv s) = Some (Fault e)"
    and "sys_inv s" and "crashed s = None" and "i < length (pool s)"
    and "starts_connect (pool s ! i) \<Longrightarrow> p \<noteq> 0 \<and> cells (clients (srv s)) p = None"
    and "\<not> walking (pool s ! i)"
  shows "\<exists>t. (thread_move i)\<^sup>*\<^sup>* s t \<and> crashed t = Some e"
  using assms
proof (induction n arbitrary: s)
  case 0
  then show ?case by (cases "pool s ! i") simp_all
next
  case (Suc n)
  have step: "thread_move i s (s\<lparr>srv := st, pool := (pool s)[i := th], sent := sent s @ ds\<rparr>)"
    if "thread_step p now (pool s ! i) (srv s) = Some (Ok (st, th, ds))" for st th ds
    using that Suc.prems thread_moves(1) [OF Suc.prems(2,3,4)] thread_step_block
    by (cases "starts_connect (pool s ! i)") (metis move)+
  have fault: "thread_move i s (s\<lparr>crashed := Some e\<rparr>)"
    if "thread_step p now (pool s ! i) (srv s) = Some (Fault e)" for e
    using that Suc.prems thread_moves(2) [OF Suc.prems(2,3,4)] thread_step_block
    by (cases "starts_connect (pool s ! i)") (metis move_fault)+
  from Suc.prems(1) have "run_bind (thread_step p now (pool s ! i) (srv s)) (\<lambda>(st1, th1, ds).
        run_bind (run_thread n p now th1 st1) (\<lambda>(st2, ds2). Some (Ok (st2, ds @ ds2)))) = Some (Fault e)"
    by (cases "pool s ! i") simp_all
  then consider "thread_step p now (pool s ! i) (srv s) = Some (Fault e)"
    | st th ds where "thread_step p now (pool s ! i) (srv s) = Some (Ok (st, th, ds))" "run_thread n p now th st = Some (Fault e)"
    by (auto simp: run_bind_def split: option.splits sum.splits)
  then show ?case
  proof cases
    case 1
    from fault [OF this] show ?thesis by (intro exI conjI) (rule r_into_rtranclp, assumption, simp)
  next
    case (2 st th ds)
    let ?t = "s\<lparr>srv := st, pool := (pool s)[i := th], sent := sent s @ ds\<rparr>"
    have "\<exists>u. (thread_move i)\<^sup>*\<^sup>* ?t u \<and> crashed u = Some e"
      using Suc.prems 2(2) thread_step_next [OF 2(1)] thread_move_inv [OF step [OF 2(1)] Suc.prems(2)]
      by (intro Suc.IH) simp_all
    with step [OF 2(1)] show ?thesis by (meson converse_rtranclp_into_rtranclp)
  qed
qed

text \<open>A walk with nothing in between does what \<open>mark_active\<close> does.\<close>

lemma thread_moves_activity:
  assumes "path (cells (clients (srv s))) node ps 0"
    and "update_loop now from (cells (clients (srv s))) node = Some (Ok h)"
    and "sys_inv s" and "crashed s = None" and "i < length (pool s)" and "pool s ! i = Activity cmd from node"
  shows "(thread_move i)\<^sup>*\<^sup>* s (s\<lparr>srv := (srv s)\<lparr>clients := (clients (srv s))\<lparr>cells := h\<rparr>\<rparr>,
     pool := (pool s)[i := spawn cmd from]\<rparr>)"
  using assms
proof (induction ps arbitrary: node s)
  case Nil
  then have "node = 0" "h = cells (clients (srv s))" by (simp_all add: update_loop.simps)
  with Nil thread_moves(1) [OF Nil(3-5), of 0 "srv s" "spawn cmd from" "[]"] show ?case
    by (auto simp: starts_connect_def)
next
  case (Cons q ps)
  from Cons.prems(1) obtain n where n: "node \<noteq> 0" "cells (clients (srv s)) node = Some n"
    "path (cells (clients (srv s))) (nxt n) ps 0"
    by (auto split: option.splits)
  show ?case
  proof (cases "client_address n = from")
    case True
    with Cons.prems n thread_moves(1) [OF Cons.prems(3-5), of now _ "spawn cmd from" "[]"] show ?thesis
      by (auto simp: update_loop.simps starts_connect_def deref_def)
  next
    case False
    let ?t = "s\<lparr>pool := (pool s)[i := Activity cmd from (nxt n)]\<rparr>"
    from False have one: "thread_move i s ?t"
      using thread_moves(1) [OF Cons.prems(3-5), of 0 "srv s" "Activity cmd from (nxt n)" "[]"] Cons.prems(6) n
      by (simp add: starts_connect_def deref_def)
    have "(thread_move i)\<^sup>*\<^sup>* ?t (?t\<lparr>srv := (srv ?t)\<lparr>clients := (clients (srv ?t))\<lparr>cells := h\<rparr>\<rparr>,
       pool := (pool ?t)[i := spawn cmd from]\<rparr>)"
      using Cons.prems n False thread_move_inv [OF one Cons.prems(3)]
      by (intro Cons.IH [of _ "nxt n"]) (simp_all add: update_loop.simps)
    with one show ?thesis by (simp add: converse_rtranclp_into_rtranclp)
  qed
qed

lemma thread_moves_steps: "(thread_move i)\<^sup>*\<^sup>* s t \<Longrightarrow> sys_step\<^sup>*\<^sup>* s t"
  by (rule rtranclp_mono [THEN predicate2D]) (auto intro: thread)

lemma dispatch_moves:
  assumes "sys_inv s" and "crashed s = None" and "mark_active now cmd from (srv s) = Some (Ok st)"
  shows "(thread_move (length (pool s)))\<^sup>*\<^sup>* (dispatched cmd from s) (s\<lparr>srv := st, pool := pool s @ [spawn cmd from]\<rparr>)"
proof (cases "kind cmd = CONN")
  case True
  with assms(3) show ?thesis by (cases s) (simp add: dispatched_def dispatch_start_def mark_active_def)
next
  case False
  obtain ps cs where "represents (clients (srv s)) ps cs" using assms(1) by (auto simp: sys_inv_def store_inv_def)
  then have "path (cells (clients (srv s))) (head (clients (srv s))) ps 0" by (simp add: represents_def)
  moreover obtain h where "update_loop now from (cells (clients (srv s))) (head (clients (srv s))) = Some (Ok h)"
    "st = (srv s)\<lparr>clients := (clients (srv s))\<lparr>cells := h\<rparr>\<rparr>"
    using assms(3) False
    by (auto simp: mark_active_def update_client_activity_def run_bind_def split: option.splits sum.splits)
  moreover have "sys_inv (dispatched cmd from s)" using assms(1) by (simp add: sys_inv_def)
  ultimately show ?thesis
    using thread_moves_activity [of "dispatched cmd from s" _ ps now "from" h "length (pool s)" cmd] assms(2) False
    by (simp add: dispatch_start_def) (simp add: dispatched_def)
qed

lemma dispatch_steps:
  assumes "sys_inv s" and "crashed s = None" and "dispatcher_free s" and "well_formed_command cmd"
    and "mark_active now cmd from (srv s) = Some (Ok st)"
  shows "sys_step\<^sup>*\<^sup>* s (s\<lparr>srv := st, pool := pool s @ [spawn cmd from]\<rparr>)"
  using dispatch [OF assms(2-4)] thread_moves_steps [OF dispatch_moves [OF assms(1,2,5)]]
  by (rule converse_rtranclp_into_rtranclp)

section \<open>Properties\<close>

text \<open>
  C4. However the handlers, the dispatcher and the connection manager interleave, the client
  list stays a well-formed list: in every reachable state the head leads along distinct allocated
  nodes to the null pointer, the tail is the last of them, and no node is leaked; and the history
  array keeps its hundred slots.
\<close>

theorem list_sound_in_every_interleaving:
  assumes "reach sys_init sys_step s"
  shows "(\<exists>ps cs. represents (clients (srv s)) ps cs) \<and> length (chat_history (srv s)) = 100"
  using sys.reach_inv [OF assms] by (simp add: sys_inv_def store_inv_def MAX_MSGS_def)

theorem list_sound_in_every_interleaving_witness:
  "length (chat_history server_init) = 100 \<and> (\<exists>ps cs. represents (clients server_init) ps cs)"
  using list_sound_in_every_interleaving
    [of "\<lparr>srv = server_init, pool = [Manager_Sleep], sent = [], crashed = None\<rparr>"]
  by (simp add: reach_init sys_init_def)

text \<open>
  C36. No thread ever gets stuck in a loop over the list: in every reachable state each step of
  each thread, with whatever stale pointer it kept, comes to an end, in a new state or in a
  fault, and so does the dispatcher's walk if nothing comes in between.
\<close>

theorem threads_never_hang:
  assumes "reach sys_init sys_step s"
  shows "thread_step p now th (srv s) \<noteq> None \<and> mark_active now cmd from (srv s) \<noteq> None"
proof -
  have "store_inv (clients (srv s))" using sys.reach_inv [OF assms] by (simp add: sys_inv_def)
  with thread_step_total [OF this] represents_total(2) [OF this, of now "from"] show ?thesis
    by (auto simp: mark_active_def)
qed

theorem threads_never_hang_witness:
  "thread_step 0 7 (Say_Broadcast ''hi'' 99) server_init \<noteq> None"
proof -
  have "reach sys_init sys_step \<lparr>srv = server_init, pool = [Manager_Sleep], sent = [], crashed = None\<rparr>"
    by (rule reach_init) (simp add: sys_init_def)
  from threads_never_hang [OF this, of 0 7 "Say_Broadcast ''hi'' 99"] show ?thesis
    by (simp only: system.simps simp_thms)
qed

lemma serve_moves:
  assumes "sys_inv s" and "crashed s = None" and "serve p now cmd from (srv s) = Some (Ok (st, ds))"
    and "kind cmd = CONN \<Longrightarrow> p \<noteq> 0 \<and> cells (clients (srv s)) p = None"
  shows "(thread_move (length (pool s)))\<^sup>*\<^sup>* (dispatched cmd from s)
     (s\<lparr>srv := st, pool := pool s @ [Done], sent := sent s @ ds\<rparr>)"
proof -
  from assms(3) obtain st1 where st1: "mark_active now cmd from (srv s) = Some (Ok st1)"
    "run_handler p now cmd from st1 = Some (Ok (st, ds))"
    by (auto simp: serve_def run_bind_def split: option.splits sum.splits)
  let ?i = "length (pool s)" and ?s = "s\<lparr>srv := st1, pool := pool s @ [spawn cmd from]\<rparr>"
  have d: "(thread_move ?i)\<^sup>*\<^sup>* (dispatched cmd from s) ?s" by (rule dispatch_moves [OF assms(1,2) st1(1)])
  have "sys_inv (dispatched cmd from s)" using assms(1) by (simp add: sys_inv_def)
  then have inv: "sys_inv ?s" using sys.steps_inv [OF thread_moves_steps [OF d]] by blast
  then have run: "run_thread 18 p now (pool ?s ! ?i) (srv ?s) = Some (Ok (st, ds))"
    using run_thread_handler [of st1 p now cmd "from"] st1(2) by (simp add: sys_inv_def)
  have "(thread_move ?i)\<^sup>*\<^sup>* ?s (?s\<lparr>srv := st, pool := (pool ?s)[?i := Done], sent := sent ?s @ ds\<rparr>)"
  proof (rule run_thread_moves [OF run inv])
    assume "starts_connect (pool ?s ! ?i)"
    then have "kind cmd = CONN" by (simp add: spawn_starts_connect)
    then show "p \<noteq> 0 \<and> cells (clients (srv ?s)) p = None" using assms(4) st1(1) by (simp add: mark_active_def)
  qed (use assms(2) in simp_all)
  with d show ?thesis by (simp add: rtranclp_trans)
qed

lemma serve_steps:
  assumes "sys_inv s" and "crashed s = None" and "serve p now cmd from (srv s) = Some (Ok (st, ds))"
    and "well_formed_command cmd" and "kind cmd = CONN \<Longrightarrow> p \<noteq> 0 \<and> cells (clients (srv s)) p = None"
    and "dispatcher_free s"
  shows "sys_step\<^sup>*\<^sup>* s (s\<lparr>srv := st, pool := pool s @ [Done], sent := sent s @ ds\<rparr>)"
  using dispatch [OF assms(2,6,4)] thread_moves_steps [OF serve_moves [OF assms(1,2,3,5)]]
  by (rule converse_rtranclp_into_rtranclp)

lemma requests_reachable:
  assumes "guarded request_guard request_exec request_spec (srv s) r rs" and "server_rep (srv s) r"
    and "sys_inv s" and "crashed s = None" and "dispatcher_free s"
  shows "\<exists>t. sys_step\<^sup>*\<^sup>* s t \<and> crashed t = None \<and> dispatcher_free t \<and>
    exec_run request_exec (srv s) rs = Some (Ok (srv t, snd (spec_run request_spec r rs))) \<and>
    server_rep (srv t) (fst (spec_run request_spec r rs)) \<and>
    sent t = sent s @ concat (snd (spec_run request_spec r rs)) \<and> pool t = pool s @ replicate (length rs) Done"
  using assms
proof (induction rs arbitrary: s r)
  case Nil
  then show ?case by (intro exI [of _ s]) simp
next
  case (Cons a rs)
  obtain p now cmd "from" where a: "a = Request p now cmd from" by (cases a)
  have v: "valid_request p cmd from (srv s) r" using Cons.prems(1) a by simp
  from serve_refines [OF Cons.prems(2) v, of now] obtain st where
    st: "serve p now cmd from (srv s) = Some (Ok (st, snd (room_serve now cmd from r)))"
      "server_rep st (fst (room_serve now cmd from r))" by blast
  let ?s = "s\<lparr>srv := st, pool := pool s @ [Done], sent := sent s @ snd (room_serve now cmd from r)\<rparr>"
  have steps: "sys_step\<^sup>*\<^sup>* s ?s"
    by (rule serve_steps [OF Cons.prems(3,4) st(1)]) (use v Cons.prems(5) in \<open>auto simp: valid_request_def\<close>)
  have "guarded request_guard request_exec request_spec (srv ?s) (fst (room_serve now cmd from r)) rs"
    using Cons.prems(1) a st(1) by simp
  have "dispatcher_free ?s" using Cons.prems(5) by (simp add: dispatcher_free_def)
  with Cons.IH [OF \<open>guarded _ _ _ (srv ?s) _ rs\<close>] st(2) sys.steps_inv [OF steps Cons.prems(3)] Cons.prems(4) obtain t where
    t: "sys_step\<^sup>*\<^sup>* ?s t" "crashed t = None" "dispatcher_free t"
      "exec_run request_exec st rs = Some (Ok (srv t, snd (spec_run request_spec (fst (room_serve now cmd from r)) rs)))"
      "server_rep (srv t) (fst (spec_run request_spec (fst (room_serve now cmd from r)) rs))"
      "sent t = sent ?s @ concat (snd (spec_run request_spec (fst (room_serve now cmd from r)) rs))"
      "pool t = pool ?s @ replicate (length rs) Done"
    by auto
  show ?case
    using rtranclp_trans [OF steps t(1)] t(2-7) st(1) a
    by (intro exI [of _ t]) (auto simp: Let_def replicate_app_Cons_same split: prod.splits)
qed

end
