(* ===== verification/Queue.thy ===== *)
theory Queue
  imports Udp
begin

text \<open>
  \<open>queue.h\<close>: the bounded message queue between a listener thread and a queue manager thread,
  a circular buffer of raw messages that are cut into tokens in place when they are popped.
  Each operation runs under the mutex of the queue, so it is one transition; an operation that
  has to sleep on a condition variable yields \<open>None\<close>.
\<close>

definition QUEUE_MAX :: nat where "QUEUE_MAX = 256"
definition QUEUE_MSG_SIZE :: nat where "QUEUE_MSG_SIZE = 512"
definition MAX_COMMAND_LEN :: nat where "MAX_COMMAND_LEN = 50"

lemmas queue_consts = QUEUE_MAX_def QUEUE_MSG_SIZE_def MAX_COMMAND_LEN_def

record queue_node_t =
  msg :: bytes
  from_addr :: sockaddr_in
  has_addr :: int

record Queue =
  q_data :: "queue_node_t list"
  q_head :: nat
  q_tail :: nat
  q_size :: int

text \<open>\<open>queue_init\<close> sets the indices only; the slots keep what the memory held.\<close>

definition queue_init :: "Queue \<Rightarrow> Queue" where
  "queue_init q = q\<lparr>q_head := 0, q_tail := 0, q_size := 0\<rparr>"

section \<open>Tokens\<close>

definition remove_dollar_sign :: "bytes \<Rightarrow> bytes" where
  "remove_dollar_sign str =
     (case strchr str DOLLAR of
        None \<Rightarrow> str
      | Some p \<Rightarrow> memmove str p (p + 1) (strlen (drop p str)))"

text \<open>
  \<open>strtok\<close> with its static position made explicit: skip delimiters, stop at the NUL, otherwise
  end the token at the next delimiter by writing a NUL over it.
\<close>

definition strtok :: "char \<Rightarrow> bytes \<Rightarrow> nat \<Rightarrow> bytes \<times> nat option \<times> nat" where
  "strtok d buf pos =
     (let start = pos + length (takeWhile (\<lambda>c. c = d) (drop pos buf))
      in if length buf \<le> start \<or> buf ! start = NUL then (buf, None, start)
         else let end = start + length (takeWhile (\<lambda>c. c \<noteq> d \<and> c \<noteq> NUL) (drop start buf))
              in if length buf \<le> end \<or> buf ! end = NUL then (buf, Some start, end)
                 else (buf[end := NUL], Some start, end + 1))"

text \<open>
  The loop of \<open>get_and_tokenise\<close>: \<open>n\<close> is the room left in the token vector. The tokens are
  offsets into the buffer, as the C tokens are pointers into it.
\<close>

fun token_loop :: "nat \<Rightarrow> nat option \<Rightarrow> bytes \<Rightarrow> nat \<Rightarrow> nat list \<times> bytes" where
  "token_loop 0 token buf pos = ([], buf)"
| "token_loop (Suc n) None buf pos = ([], buf)"
| "token_loop (Suc n) (Some t) buf pos =
     (let (buf', token, pos') = strtok SP buf pos;
          (ts, b) = token_loop n token buf' pos'
      in (t # ts, b))"

definition get_and_tokenise :: "queue_node_t \<Rightarrow> queue_node_t \<times> nat list" where
  "get_and_tokenise node =
     (let (buf, token, pos) = strtok SP (remove_dollar_sign (msg node)) 0;
          (ts, b) = token_loop (MAX_COMMAND_LEN - 1) token buf pos
      in (node\<lparr>msg := b\<rparr>, ts))"

section \<open>Append and pop\<close>

definition q_append :: "Queue \<Rightarrow> bytes \<Rightarrow> sockaddr_in option \<Rightarrow> Queue option" where
  "q_append q m from =
     (if (q_tail q + 1) mod QUEUE_MAX = q_head q then None
      else
        let node = q_data q ! q_tail q;
            node1 = node\<lparr>msg := (strncpy (msg node) m QUEUE_MSG_SIZE)[QUEUE_MSG_SIZE - 1 := NUL]\<rparr>;
            node2 = (case from of
                       Some a \<Rightarrow> node1\<lparr>from_addr := a, has_addr := 1\<rparr>
                     | None \<Rightarrow> node1\<lparr>has_addr := 0\<rparr>)
        in Some (q\<lparr>q_data := (q_data q)[q_tail q := node2],
                   q_tail := (q_tail q + 1) mod QUEUE_MAX,
                   q_size := q_size q + 1\<rparr>))"

text \<open>
  The tokens handed out are pointers into the slot: the slot index and the offsets. \<open>sender\<close>
  is the out parameter, absent when the caller passes a null pointer.
\<close>

definition q_pop :: "Queue \<Rightarrow> bool \<Rightarrow> (Queue \<times> nat \<times> nat list \<times> sockaddr_in option) option" where
  "q_pop q want_sender =
     (if q_head q = q_tail q then None
      else
        let idx = q_head q;
            (node, toks) = get_and_tokenise (q_data q ! idx);
            sender = (if want_sender
                      then Some (if has_addr node \<noteq> 0 then from_addr node else zero_addr)
                      else None)
        in Some (q\<lparr>q_data := (q_data q)[idx := node],
                   q_head := (q_head q + 1) mod QUEUE_MAX,
                   q_size := q_size q - 1\<rparr>, idx, toks, sender))"

definition token_text :: "Queue \<Rightarrow> nat \<Rightarrow> nat \<Rightarrow> string" where
  "token_text q idx off = cstr (drop off (msg (q_data q ! idx)))"

text \<open>Reading the token vector, as the queue managers do before the next pop.\<close>

definition q_take :: "Queue \<Rightarrow> (Queue \<times> string list \<times> sockaddr_in) option" where
  "q_take q =
     (case q_pop q True of
        None \<Rightarrow> None
      | Some (q', idx, toks, sender) \<Rightarrow> Some (q', map (token_text q' idx) toks, the sender))"

fun q_append_all :: "Queue \<Rightarrow> (bytes \<times> sockaddr_in option) list \<Rightarrow> Queue option" where
  "q_append_all q [] = Some q"
| "q_append_all q ((m, a) # ms) =
     (case q_append q m a of None \<Rightarrow> None | Some q' \<Rightarrow> q_append_all q' ms)"

section \<open>Tokenising in place\<close>

lemma remove_dollar_sign_cstr:
  assumes "NUL \<in> set b"
  shows "cstr (remove_dollar_sign b) = remove1 DOLLAR (cstr b)"
    and "length (remove_dollar_sign b) = length b"
    and "NUL \<in> set (remove_dollar_sign b)"
proof -
  obtain r where r: "b = cstr b @ NUL # r"
    using assms by (rule cstr_split)
  have nn: "no_nul (cstr b)" by simp
  have "cstr (remove_dollar_sign b) = remove1 DOLLAR (cstr b) \<and>
    length (remove_dollar_sign b) = length b \<and> NUL \<in> set (remove_dollar_sign b)"
  proof (cases "DOLLAR \<in> set (cstr b)")
    case False
    then have "strchr b DOLLAR = None"
      by (simp add: strchr_def strlen_def takeWhile_noop)
    with False assms show ?thesis by (simp add: remove_dollar_sign_def remove1_idem)
  next
    case True
    then obtain u v where uv: "cstr b = u @ DOLLAR # v" "DOLLAR \<notin> set u"
      by (meson split_list_first)
    have b: "b = u @ DOLLAR # v @ NUL # r"
      using r uv by simp
    have nv: "no_nul u" "no_nul v"
      using nn uv by simp_all
    have "strchr b DOLLAR = Some (length u)"
      using uv by (simp add: strchr_def strlen_def takeWhile_stop Let_def)
    moreover have "strlen (drop (length u) b) = Suc (length v)"
    proof -
      have "drop (length u) b = (DOLLAR # v) @ NUL # r" by (simp add: b)
      moreover have "cstr ((DOLLAR # v) @ NUL # r) = DOLLAR # v"
        by (rule cstr_append_nul) (simp add: nv)
      ultimately show ?thesis by (simp add: strlen_def)
    qed
    ultimately have "remove_dollar_sign b = u @ v @ NUL # NUL # r"
      by (simp add: remove_dollar_sign_def memmove_def) (simp add: b)
    moreover have "cstr ((u @ v) @ NUL # NUL # r) = u @ v"
      by (rule cstr_append_nul) (simp add: nv)
    moreover have "remove1 DOLLAR (cstr b) = u @ v"
      using uv by (simp add: remove1_append)
    ultimately show ?thesis using b by simp
  qed
  then show "cstr (remove_dollar_sign b) = remove1 DOLLAR (cstr b)"
    and "length (remove_dollar_sign b) = length b"
    and "NUL \<in> set (remove_dollar_sign b)" by blast+
qed

lemma strtok_none:
  "strtok SP (pre @ replicate k SP @ NUL # r) (length pre) =
     (pre @ replicate k SP @ NUL # r, None, length pre + k)"
proof -
  have "takeWhile (\<lambda>c. c = SP) (replicate k SP @ NUL # r) = replicate k SP"
    by (induction k) auto
  then show ?thesis by (simp add: strtok_def Let_def nth_append)
qed

lemma strtok_word:
  assumes "is_word w" and "c = SP \<or> c = NUL"
  shows "strtok SP (pre @ replicate k SP @ w @ c # r) (length pre) =
    (pre @ replicate k SP @ w @ NUL # r, Some (length pre + k),
     length pre + k + length w + (if c = NUL then 0 else 1))"
proof -
  obtain a w' where w: "w = a # w'" "a \<noteq> SP" "a \<noteq> NUL"
    using assms(1) by (cases w) (auto simp: is_word_def)
  have "takeWhile (\<lambda>c. c = SP) (replicate k SP @ w @ c # r) = replicate k SP"
    using w by (induction k) auto
  moreover have "takeWhile (\<lambda>c. c \<noteq> SP \<and> c \<noteq> NUL) (w @ c # r) = w"
    using assms by (subst takeWhile_append2) (auto simp: is_word_def no_nul_def)
  ultimately show ?thesis
    using w assms(2) by (auto simp: strtok_def Let_def nth_append list_update_append)
qed

text \<open>Every terminated text is blank or starts with a word.\<close>

lemma text_cases:
  assumes "NUL \<in> set rest"
  obtains (blank) k r where "rest = replicate k SP @ NUL # r" "words_of (cstr rest) = []"
  | (word) k w c r where "rest = replicate k SP @ w @ c # r" "is_word w" "c = SP \<or> c = NUL"
      "c = SP \<longrightarrow> NUL \<in> set r"
      "words_of (cstr rest) = w # (if c = NUL then [] else words_of (cstr r))"
  using assms
proof (induction rest arbitrary: thesis)
  case Nil
  then show ?case by simp
next
  case (Cons x xs)
  show ?case
  proof (cases "x = NUL")
    case True
    then show ?thesis using Cons.prems(1) [of 0 xs] by simp
  next
    case False
    with Cons.prems(3) have nul: "NUL \<in> set xs" by simp
    from False have cx: "cstr (x # xs) = x # cstr xs" by (simp add: cstr_def)
    show ?thesis
    proof (cases "x = SP")
      case True
      show ?thesis
      proof (rule Cons.IH [OF _ _ nul])
        fix k r assume "xs = replicate k SP @ NUL # r" "words_of (cstr xs) = []"
        then show thesis using Cons.prems(1) [of "Suc k" r] True cx by simp
      next
        fix k w c r
        assume "xs = replicate k SP @ w @ c # r" "is_word w" "c = SP \<or> c = NUL"
          "c = SP \<longrightarrow> NUL \<in> set r"
          "words_of (cstr xs) = w # (if c = NUL then [] else words_of (cstr r))"
        then show thesis using Cons.prems(2) [of "Suc k" w c r] True cx by simp
      qed
    next
      case xsp: False
      let ?p = "\<lambda>c. c \<noteq> SP \<and> c \<noteq> NUL"
      let ?v = "takeWhile ?p xs"
      obtain c r where cr: "dropWhile ?p xs = c # r"
        using nul by (cases "dropWhile ?p xs") (auto simp: dropWhile_eq_Nil_conv)
      then have c: "c = SP \<or> c = NUL" by (simp add: dropWhile_eq_Cons_conv)
      have xs: "xs = ?v @ c # r" by (metis cr takeWhile_dropWhile_id)
      have v: "SP \<notin> set ?v" "NUL \<notin> set ?v" by (auto dest: set_takeWhileD)
      have w: "is_word (x # ?v)"
        using False xsp v by (simp add: is_word_def no_nul_def)
      have rn: "c = SP \<longrightarrow> NUL \<in> set r"
        using nul v by (subst (asm) xs) auto
      have "cstr xs = (if c = NUL then ?v else ?v @ SP # cstr r)"
        using c v by (subst xs) (auto simp: cstr_def takeWhile_append takeWhile_noop)
      then have "words_of (cstr (x # xs)) = (x # ?v) # (if c = NUL then [] else words_of (cstr r))"
        using v xsp cx by (auto simp: takeWhile_noop dropWhile_noop takeWhile_stop dropWhile_stop)
      with w c rn show ?thesis
        using Cons.prems(2) [of 0 "x # ?v" c r] xs by simp
    qed
  qed
qed

lemma token_loop_spec:
  assumes "NUL \<in> set rest"
    and "strtok SP (pre @ rest) (length pre) = (buf, token, pos)"
    and "token_loop n token buf pos = (ts, b)"
  shows "\<exists>rest'. b = pre @ rest' \<and> length rest' = length rest \<and> NUL \<in> set rest'
    \<and> (words_of (cstr rest) = [] \<longrightarrow> rest' = rest)
    \<and> map (\<lambda>t. cstr (drop t b)) ts = take n (words_of (cstr rest))"
  using assms
proof (induction n arbitrary: pre rest buf token pos ts b)
  case 0
  from "0.prems"(1) show ?case
  proof (cases rule: text_cases)
    case (blank k r)
    with "0.prems" show ?thesis by (auto simp: strtok_none)
  next
    case (word k w c r)
    with "0.prems" show ?thesis
      by (intro exI [of _ "replicate k SP @ w @ NUL # r"]) (auto simp: strtok_word)
  qed
next
  case (Suc n)
  from Suc.prems(1) show ?case
  proof (cases rule: text_cases)
    case (blank k r)
    with Suc.prems show ?thesis by (auto simp: strtok_none)
  next
    case (word k w c r)
    let ?mid = "pre @ replicate k SP @ w"
    define pre1 where "pre1 = (if c = NUL then ?mid else ?mid @ [NUL])"
    define rest1 where "rest1 = (if c = NUL then NUL # r else r)"
    have st: "buf = pre1 @ rest1" "token = Some (length pre + k)" "pos = length pre1"
      using Suc.prems(2) word strtok_word [of w c pre k r]
      by (auto simp: pre1_def rest1_def split: if_splits)
    obtain buf2 token2 pos2 where s2: "strtok SP buf pos = (buf2, token2, pos2)"
      by (cases "strtok SP buf pos") auto
    obtain ts2 where l2: "token_loop n token2 buf2 pos2 = (ts2, b)" "ts = (length pre + k) # ts2"
      using Suc.prems(3) s2 st by (auto split: prod.splits)
    have nul1: "NUL \<in> set rest1" using word by (auto simp: rest1_def)
    have s1: "strtok SP (pre1 @ rest1) (length pre1) = (buf2, token2, pos2)"
      using s2 st by simp
    from Suc.IH [OF nul1 s1 l2(1)] obtain rest2 where
      r2: "b = pre1 @ rest2" "length rest2 = length rest1" "NUL \<in> set rest2"
        "words_of (cstr rest1) = [] \<longrightarrow> rest2 = rest1"
        "map (\<lambda>t. cstr (drop t b)) ts2 = take n (words_of (cstr rest1))"
      by blast
    obtain r2' where b: "b = ?mid @ NUL # r2'" "length r2' = length r"
      using r2 by (cases "c = NUL") (auto simp: pre1_def rest1_def)
    have "cstr (drop (length pre + k) b) = w"
      using word(2) by (simp add: b is_word_def cstr_append_nul)
    moreover have "words_of (cstr rest) = w # words_of (cstr rest1)"
      using word by (auto simp: rest1_def)
    ultimately show ?thesis
      using r2(5) l2(2) b word(1)
      by (intro exI [of _ "replicate k SP @ w @ NUL # r2'"]) auto
  qed
qed

lemma get_and_tokenise_spec:
  assumes "NUL \<in> set (msg node)" and "get_and_tokenise node = (node', toks)"
  shows "map (\<lambda>t. cstr (drop t (msg node'))) toks =
           take (MAX_COMMAND_LEN - 1) (words_of (remove1 DOLLAR (cstr (msg node))))"
    and "length (msg node') = length (msg node)"
    and "from_addr node' = from_addr node" and "has_addr node' = has_addr node"
proof -
  let ?m = "remove_dollar_sign (msg node)"
  obtain buf token pos where s: "strtok SP ?m 0 = (buf, token, pos)"
    by (cases "strtok SP ?m 0") auto
  obtain ts b where l: "token_loop (MAX_COMMAND_LEN - 1) token buf pos = (ts, b)"
    by fastforce
  from token_loop_spec [of ?m "[]", OF remove_dollar_sign_cstr(3) [OF assms(1)] _ l] s
  have "length b = length ?m" "map (\<lambda>t. cstr (drop t b)) ts = take (MAX_COMMAND_LEN - 1) (words_of (cstr ?m))"
    by auto
  with assms s l remove_dollar_sign_cstr [OF assms(1)]
  show "map (\<lambda>t. cstr (drop t (msg node'))) toks =
          take (MAX_COMMAND_LEN - 1) (words_of (remove1 DOLLAR (cstr (msg node))))"
    and "length (msg node') = length (msg node)"
    and "from_addr node' = from_addr node" and "has_addr node' = has_addr node"
    by (auto simp: get_and_tokenise_def)
qed

section \<open>The queue as a first-in first-out list\<close>

text \<open>
  The abstract content: for each live slot the message as a C string and the source address,
  if it has one.
\<close>

definition q_count :: "Queue \<Rightarrow> nat" where
  "q_count q = (q_tail q + QUEUE_MAX - q_head q) mod QUEUE_MAX"

definition node_view :: "queue_node_t \<Rightarrow> string \<times> sockaddr_in option" where
  "node_view n = (cstr (msg n), if has_addr n \<noteq> 0 then Some (from_addr n) else None)"

definition q_slot :: "Queue \<Rightarrow> nat \<Rightarrow> nat" where
  "q_slot q k = (q_head q + k) mod QUEUE_MAX"

definition q_contents :: "Queue \<Rightarrow> (string \<times> sockaddr_in option) list" where
  "q_contents q = map (\<lambda>k. node_view (q_data q ! q_slot q k)) [0..<q_count q]"

definition q_inv :: "Queue \<Rightarrow> bool" where
  "q_inv q \<longleftrightarrow> length (q_data q) = QUEUE_MAX \<and> q_head q < QUEUE_MAX \<and> q_tail q < QUEUE_MAX
     \<and> q_size q = int (q_count q)
     \<and> (\<forall>n \<in> set (q_data q). length (msg n) = QUEUE_MSG_SIZE)
     \<and> (\<forall>k < q_count q. NUL \<in> set (msg (q_data q ! q_slot q k)))"

text \<open>What an append stores and what a pop delivers, on the abstract content.\<close>

definition stored :: "bytes \<times> sockaddr_in option \<Rightarrow> string \<times> sockaddr_in option" where
  "stored m = (take (QUEUE_MSG_SIZE - 1) (cstr (fst m)), snd m)"

definition delivered :: "string \<times> sockaddr_in option \<Rightarrow> string list \<times> sockaddr_in" where
  "delivered e = (take (MAX_COMMAND_LEN - 1) (words_of (remove1 DOLLAR (fst e))),
                  (case snd e of Some a \<Rightarrow> a | None \<Rightarrow> zero_addr))"

subsection \<open>Indices\<close>

lemma ring_count_lt: "h < N \<Longrightarrow> t < N \<Longrightarrow> (t + N - h) mod N < (N::nat)"
  by simp

lemma ring_tail [ring_simps]:
  fixes N :: nat
  assumes "h < N" and "t < N"
  shows "(h + (t + N - h) mod N) mod N = t"
proof -
  have "(h + (t + N - h) mod N) mod N = (h + (t + N - h)) mod N"
    by (simp add: mod_add_right_eq)
  also have "\<dots> = t" using assms by simp
  finally show ?thesis .
qed

lemma ring_count_cases:
  fixes N :: nat
  assumes "h < N" and "t < N"
  shows "(t + N - h) mod N = (if h \<le> t then t - h else t + N - h)"
  using assms by (auto simp: mod_if)

lemma ring_succ_cases: "i < N \<Longrightarrow> Suc i mod N = (if Suc i = N then 0 else Suc i)"
  by (auto simp: mod_if)

lemma ring_push [ring_simps]:
  fixes N :: nat
  assumes "h < N" and "t < N" and "(t + 1) mod N \<noteq> h"
  shows "((t + 1) mod N + N - h) mod N = (t + N - h) mod N + 1"
    and "(t + N - h) mod N + 1 < N"
proof -
  define u where "u = (t + 1) mod N"
  have u: "u < N" "u = (if Suc t = N then 0 else Suc t)" "u \<noteq> h"
    using assms by (simp_all add: u_def ring_succ_cases)
  then show "((t + 1) mod N + N - h) mod N = (t + N - h) mod N + 1"
    and "(t + N - h) mod N + 1 < N"
    using assms(1,2) unfolding u_def [symmetric] ring_count_cases [OF assms(1) u(1)]
      ring_count_cases [OF assms(1,2)]
    by (auto split: if_splits)
qed

lemma ring_pop [ring_simps]:
  fixes N :: nat
  assumes "h < N" and "t < N" and "h \<noteq> t"
  shows "(t + N - (h + 1) mod N) mod N + 1 = (t + N - h) mod N"
proof -
  define u where "u = (h + 1) mod N"
  have u: "u < N" "u = (if Suc h = N then 0 else Suc h)"
    using assms by (simp_all add: u_def ring_succ_cases)
  then show ?thesis
    using assms unfolding u_def [symmetric] ring_count_cases [OF u(1) assms(2)]
      ring_count_cases [OF assms(1,2)]
    by (auto split: if_splits)
qed

lemma ring_full_iff:
  fixes N :: nat
  assumes "h < N" and "t < N"
  shows "(t + 1) mod N = h \<longleftrightarrow> (t + N - h) mod N + 1 = N"
proof -
  have u: "(t + 1) mod N = (if Suc t = N then 0 else Suc t)"
    using assms by (simp add: ring_succ_cases)
  show ?thesis
    using assms unfolding u ring_count_cases [OF assms] by (auto split: if_splits)
qed

lemma ring_empty_iff:
  fixes N :: nat
  assumes "h < N" and "t < N"
  shows "h = t \<longleftrightarrow> (t + N - h) mod N = 0"
  using assms by (auto simp: ring_count_cases split: if_splits)

lemma ring_slot_inj:
  fixes N :: nat
  assumes "h < N" and "j < N" and "k < N" and "(h + j) mod N = (h + k) mod N"
  shows "j = k"
  using assms by (auto simp: mod_if split: if_splits)

lemma QUEUE_MAX_pos [simp]: "0 < QUEUE_MAX" "1 < QUEUE_MAX" "Suc 0 < QUEUE_MAX"
  by (simp_all add: QUEUE_MAX_def)

subsection \<open>The invariant and the abstract effect of each operation\<close>

lemma q_init_inv:
  assumes "length (q_data q) = QUEUE_MAX"
    and "\<forall>n \<in> set (q_data q). length (msg n) = QUEUE_MSG_SIZE"
  shows "q_inv (queue_init q)" and "q_contents (queue_init q) = []"
  using assms by (simp_all add: q_inv_def queue_init_def q_count_def q_contents_def)

lemma q_slot_lt [simp]: "q_slot q k < QUEUE_MAX"
  by (simp add: q_slot_def)

lemma q_count_lt [simp]: "q_count q < QUEUE_MAX"
  by (simp add: q_count_def)

lemma length_q_contents [simp]: "length (q_contents q) = q_count q"
  by (simp add: q_contents_def)

lemma q_append_None_iff:
  "q_inv q \<Longrightarrow> q_append q m a = None \<longleftrightarrow> length (q_contents q) = QUEUE_MAX - 1"
  using ring_full_iff [of "q_head q" QUEUE_MAX "q_tail q"]
  by (auto simp: q_append_def q_inv_def q_count_def Let_def)

lemma q_pop_None_iff: "q_inv q \<Longrightarrow> q_pop q w = None \<longleftrightarrow> q_contents q = []"
  using ring_empty_iff [of "q_head q" QUEUE_MAX "q_tail q"]
  by (auto simp: q_pop_def q_inv_def q_contents_def q_count_def Let_def split: prod.splits)

text \<open>The node written by an append.\<close>

definition q_new_node :: "Queue \<Rightarrow> bytes \<Rightarrow> sockaddr_in option \<Rightarrow> queue_node_t" where
  "q_new_node q m a =
     (let n = (q_data q ! q_tail q)
                \<lparr>msg := (strncpy (msg (q_data q ! q_tail q)) m QUEUE_MSG_SIZE)[QUEUE_MSG_SIZE - 1 := NUL]\<rparr>
      in case a of Some x \<Rightarrow> n\<lparr>from_addr := x, has_addr := 1\<rparr> | None \<Rightarrow> n\<lparr>has_addr := 0\<rparr>)"

lemma q_append_Some:
  "q_append q m a = Some q' \<longleftrightarrow> (q_tail q + 1) mod QUEUE_MAX \<noteq> q_head q \<and>
     q' = q\<lparr>q_data := (q_data q)[q_tail q := q_new_node q m a],
            q_tail := (q_tail q + 1) mod QUEUE_MAX, q_size := q_size q + 1\<rparr>"
  by (auto simp: q_append_def q_new_node_def Let_def)

lemma q_new_node_spec:
  assumes "q_inv q"
  shows "node_view (q_new_node q m a) = stored (m, a)"
    and "length (msg (q_new_node q m a)) = QUEUE_MSG_SIZE"
    and "NUL \<in> set (msg (q_new_node q m a))"
proof -
  let ?old = "msg (q_data q ! q_tail q)"
  let ?new = "(strncpy ?old m QUEUE_MSG_SIZE)[QUEUE_MSG_SIZE - 1 := NUL]"
  have len: "length ?old = QUEUE_MSG_SIZE"
    using assms by (simp add: q_inv_def)
  have msg: "msg (q_new_node q m a) = ?new"
    by (simp add: q_new_node_def Let_def split: option.splits)
  have "cstr ?new = take (QUEUE_MSG_SIZE - 1) (cstr m)"
    by (rule strncpy_terminated) (simp_all add: len QUEUE_MSG_SIZE_def)
  then show "node_view (q_new_node q m a) = stored (m, a)"
    unfolding node_view_def msg
    by (auto simp: stored_def q_new_node_def Let_def split: option.splits)
  show "length (msg (q_new_node q m a)) = QUEUE_MSG_SIZE"
    unfolding msg by (simp add: len)
  show "NUL \<in> set (msg (q_new_node q m a))"
    unfolding msg by (rule set_update_memI) (simp add: len QUEUE_MSG_SIZE_def)
qed

lemma q_append_effect:
  assumes inv: "q_inv q" and app: "q_append q m a = Some q'"
  shows "q_inv q'" and "q_contents q' = q_contents q @ [stored (m, a)]"
proof -
  from inv have idx: "q_head q < QUEUE_MAX" "q_tail q < QUEUE_MAX" "length (q_data q) = QUEUE_MAX"
    by (simp_all add: q_inv_def)
  from app have room: "(q_tail q + 1) mod QUEUE_MAX \<noteq> q_head q"
    and q': "q_data q' = (q_data q)[q_tail q := q_new_node q m a]" "q_head q' = q_head q"
      "q_tail q' = (q_tail q + 1) mod QUEUE_MAX" "q_size q' = q_size q + 1"
    by (simp_all add: q_append_Some)
  have cnt: "q_count q' = q_count q + 1" "q_count q + 1 < QUEUE_MAX"
    using ring_push [OF idx(1,2) room] by (simp_all add: q_count_def q')
  have slot: "q_slot q' k = q_slot q k" for k
    by (simp add: q_slot_def q')
  have last: "q_slot q (q_count q) = q_tail q"
    using ring_tail [OF idx(1,2)] by (simp add: q_slot_def q_count_def)
  have old: "q_data q' ! q_slot q k = q_data q ! q_slot q k" if "k < q_count q" for k
  proof -
    have "q_slot q k \<noteq> q_tail q"
      using that ring_slot_inj [of "q_head q" QUEUE_MAX k "q_count q"] idx(1) cnt(2) last
      by (auto simp: q_slot_def)
    then show ?thesis by (simp add: q')
  qed
  have new: "q_data q' ! q_tail q = q_new_node q m a"
    using idx by (simp add: q')
  show "q_contents q' = q_contents q @ [stored (m, a)]"
    unfolding q_contents_def cnt(1)
    using old last new q_new_node_spec(1) [OF inv] by (simp add: slot)
  have len: "\<forall>n \<in> set (q_data q'). length (msg n) = QUEUE_MSG_SIZE"
    using inv q_new_node_spec(2) [OF inv] by (auto simp: q' q_inv_def dest: set_update_subset_insert [THEN subsetD])
  have nul: "NUL \<in> set (msg (q_data q' ! q_slot q' k))" if "k < q_count q'" for k
  proof (cases "k = q_count q")
    case True
    with last new q_new_node_spec(3) [OF inv] show ?thesis by (simp add: slot)
  next
    case False
    with that cnt have "k < q_count q" by simp
    with old inv show ?thesis by (simp add: slot q_inv_def)
  qed
  show "q_inv q'"
    using inv len nul cnt idx by (simp add: q_inv_def q')
qed

lemma q_pop_eq:
  assumes "get_and_tokenise (q_data q ! q_head q) = (n, ts)"
  shows "q_pop q w =
    (if q_head q = q_tail q then None
     else Some (q\<lparr>q_data := (q_data q)[q_head q := n], q_head := (q_head q + 1) mod QUEUE_MAX,
                  q_size := q_size q - 1\<rparr>, q_head q, ts,
                if w then Some (if has_addr n \<noteq> 0 then from_addr n else zero_addr) else None))"
  using assms by (simp add: q_pop_def Let_def)

lemma q_pop_effect:
  assumes inv: "q_inv q" and pop: "q_pop q w = Some (q', i, toks, sender)"
  obtains e where "q_inv q'" and "q_contents q = e # q_contents q'"
    and "map (token_text q' i) toks = fst (delivered e)"
    and "sender = (if w then Some (snd (delivered e)) else None)"
    and "i = q_head q" and "q_head q' = (i + 1) mod QUEUE_MAX"
proof -
  from inv have idx: "q_head q < QUEUE_MAX" "q_tail q < QUEUE_MAX" "length (q_data q) = QUEUE_MAX"
    by (simp_all add: q_inv_def)
  let ?n = "q_data q ! q_head q"
  obtain n' ts where tok0: "get_and_tokenise ?n = (n', ts)"
    by (cases "get_and_tokenise ?n")
  note eq = q_pop_eq [OF tok0, of w]
  from pop eq have ne: "q_head q \<noteq> q_tail q" by auto
  with pop eq have tok: "get_and_tokenise ?n = (n', toks)"
    and q': "q_data q' = (q_data q)[q_head q := n']" "q_head q' = (q_head q + 1) mod QUEUE_MAX"
      "q_tail q' = q_tail q" "q_size q' = q_size q - 1" and i: "i = q_head q"
    and snd: "sender = (if w then Some (if has_addr n' \<noteq> 0 then from_addr n' else zero_addr) else None)"
    using tok0 by auto
  have cnt: "q_count q = q_count q' + 1"
    using ring_pop [OF idx(1,2) ne] by (simp add: q_count_def q')
  have slot: "q_slot q' k = q_slot q (Suc k)" for k
    by (simp add: q_slot_def q' mod_add_left_eq)
  have zero: "q_slot q 0 = q_head q" using idx by (simp add: q_slot_def)
  have other: "q_data q' ! q_slot q (Suc k) = q_data q ! q_slot q (Suc k)" if "k < q_count q'" for k
  proof -
    have "Suc k < QUEUE_MAX" using that cnt q_count_lt [of q] by linarith
    then have "q_slot q (Suc k) \<noteq> q_head q"
      using ring_slot_inj [of "q_head q" QUEUE_MAX "Suc k" 0] idx(1) by (auto simp: q_slot_def)
    then show ?thesis by (simp add: q')
  qed
  have nul: "NUL \<in> set (msg ?n)"
    using inv cnt zero by (auto simp: q_inv_def)
  note sp = get_and_tokenise_spec [OF nul tok]
  have "[0..<q_count q] = 0 # map Suc [0..<q_count q']"
    by (simp add: cnt upt_conv_Cons map_Suc_upt del: upt_Suc)
  then have con: "q_contents q = node_view ?n # q_contents q'"
    using other by (simp add: q_contents_def slot zero)
  have "\<forall>n \<in> set (q_data q'). length (msg n) = QUEUE_MSG_SIZE"
    using inv sp(2) idx by (auto simp: q' q_inv_def dest: set_update_subset_insert [THEN subsetD])
  moreover have "\<forall>k < q_count q'. NUL \<in> set (msg (q_data q' ! q_slot q' k))"
    using inv other cnt by (simp add: slot q_inv_def)
  ultimately have "q_inv q'"
    using inv cnt by (simp add: q_inv_def q')
  moreover have "map (token_text q' i) toks = fst (delivered (node_view ?n))"
  proof -
    have "token_text q' i = (\<lambda>t. cstr (drop t (msg n')))"
      using idx by (simp add: fun_eq_iff token_text_def q' i)
    then show ?thesis using sp(1) by (simp add: delivered_def node_view_def)
  qed
  moreover have "sender = (if w then Some (snd (delivered (node_view ?n))) else None)"
    using sp(3,4) snd by (simp add: delivered_def node_view_def)
  ultimately show thesis
    using con q' i by (intro that) auto
qed

section \<open>The contract of a bounded queue\<close>

text \<open>
  A history of attempts on the queue: the listener tries to put, the queue manager tries to
  get. An attempt that would sleep leaves the queue as it is; the run records the messages
  that went in and the items that came out.
\<close>

datatype 'm q_attempt = Put 'm | Get

fun q_run :: "('q \<Rightarrow> 'm \<Rightarrow> 'q option) \<Rightarrow> ('q \<Rightarrow> ('q \<times> 'r) option) \<Rightarrow> 'q \<Rightarrow> 'm q_attempt list
    \<Rightarrow> 'q \<times> 'm list \<times> 'r list" where
  "q_run enq deq q [] = (q, [], [])"
| "q_run enq deq q (Put m # as) =
     (case enq q m of
        None \<Rightarrow> q_run enq deq q as
      | Some q' \<Rightarrow> (let (q'', ins, outs) = q_run enq deq q' as in (q'', m # ins, outs)))"
| "q_run enq deq q (Get # as) =
     (case deq q of
        None \<Rightarrow> q_run enq deq q as
      | Some (q', r) \<Rightarrow> (let (q'', ins, outs) = q_run enq deq q' as in (q'', ins, r # outs)))"

locale bounded_fifo =
  fixes enq :: "'q \<Rightarrow> 'm \<Rightarrow> 'q option"
    and deq :: "'q \<Rightarrow> ('q \<times> 'r) option"
    and contents :: "'q \<Rightarrow> 'e list"
    and inv :: "'q \<Rightarrow> bool"
    and capacity :: nat
    and store :: "'m \<Rightarrow> 'e"
    and view :: "'e \<Rightarrow> 'r"
  assumes enq_full: "inv q \<Longrightarrow> enq q m = None \<longleftrightarrow> length (contents q) = capacity"
    and enq_inv: "inv q \<Longrightarrow> enq q m = Some q' \<Longrightarrow> inv q'"
    and enq_contents: "inv q \<Longrightarrow> enq q m = Some q' \<Longrightarrow> contents q' = contents q @ [store m]"
    and deq_empty: "inv q \<Longrightarrow> deq q = None \<longleftrightarrow> contents q = []"
    and deq_inv: "inv q \<Longrightarrow> deq q = Some (q', r) \<Longrightarrow> inv q'"
    and deq_contents: "inv q \<Longrightarrow> deq q = Some (q', r) \<Longrightarrow>
      \<exists>e. contents q = e # contents q' \<and> r = view e"
begin

lemma run_inv: "inv q \<Longrightarrow> q_run enq deq q as = (q', ins, outs) \<Longrightarrow> inv q'"
proof (induction as arbitrary: q ins outs)
  case Nil
  then show ?case by simp
next
  case (Cons a as)
  then show ?case
    by (cases a) (auto split: option.splits prod.splits dest: enq_inv deq_inv)
qed

lemma run_order:
  "inv q \<Longrightarrow> q_run enq deq q as = (q', ins, outs) \<Longrightarrow>
   outs @ map view (contents q') = map view (contents q) @ map (view \<circ> store) ins"
proof (induction as arbitrary: q ins outs)
  case Nil
  then show ?case by simp
next
  case (Cons a as)
  show ?case
  proof (cases a)
    case (Put m)
    with Cons.prems Cons.IH [of q] Cons.IH [OF enq_inv] show ?thesis
      by (auto split: option.splits prod.splits simp: enq_contents)
  next
    case Get
    show ?thesis
    proof (cases "deq q")
      case None
      with Get Cons.prems Cons.IH [of q] show ?thesis by simp
    next
      case (Some p)
      obtain q1 r where p: "p = (q1, r)" by fastforce
      with Some Get Cons.prems obtain outs1 where
        o: "q_run enq deq q1 as = (q', ins, outs1)" "outs = r # outs1"
        by (auto split: prod.splits)
      obtain e where "contents q = e # contents q1" "r = view e"
        using deq_contents [OF Cons.prems(1)] Some p by blast
      with o Cons.IH [OF deq_inv [OF Cons.prems(1)] o(1)] Some p show ?thesis by simp
    qed
  qed
qed

lemma enq_returns: "inv q \<Longrightarrow> length (contents q) \<noteq> capacity \<Longrightarrow> \<exists>q'. enq q m = Some q'"
  using enq_full [of q m] by auto

lemma bounded: "inv q \<Longrightarrow> enq q m = Some q' \<Longrightarrow> length (contents q) < capacity \<Longrightarrow>
  length (contents q') \<le> capacity"
  by (simp add: enq_contents)

end

definition q_enq :: "Queue \<Rightarrow> bytes \<times> sockaddr_in option \<Rightarrow> Queue option" where
  "q_enq q m = q_append q (fst m) (snd m)"

definition q_deq :: "Queue \<Rightarrow> (Queue \<times> string list \<times> sockaddr_in) option" where
  "q_deq q = q_take q"

lemma q_take_no_nul: "q_take q = Some (q', toks, a) \<Longrightarrow> \<forall>t \<in> set toks. no_nul t"
  by (auto simp: q_take_def token_text_def split: option.splits prod.splits)

lemma q_take_effect:
  assumes "q_inv q" and "q_take q = Some (q', r)"
  obtains e where "q_inv q'" and "q_contents q = e # q_contents q'" and "r = delivered e"
proof -
  from assms(2) obtain i toks sender where
    pop: "q_pop q True = Some (q', i, toks, sender)"
    and r: "r = (map (token_text q' i) toks, the sender)"
    by (auto simp: q_take_def split: option.splits prod.splits)
  from assms(1) pop obtain e where e: "q_inv q'" "q_contents q = e # q_contents q'"
    "map (token_text q' i) toks = fst (delivered e)"
    "sender = Some (snd (delivered e))"
    by (rule q_pop_effect) auto
  then show thesis using r by (intro that [of e]) auto
qed

interpretation ring: bounded_fifo q_enq q_deq q_contents q_inv "QUEUE_MAX - 1" stored delivered
proof unfold_locales
  fix q m q' r
  assume inv: "q_inv q"
  show "q_enq q m = None \<longleftrightarrow> length (q_contents q) = QUEUE_MAX - 1"
    unfolding q_enq_def using inv by (rule q_append_None_iff)
  show "q_deq q = None \<longleftrightarrow> q_contents q = []"
    using q_pop_None_iff [OF inv, of True]
    by (auto simp: q_deq_def q_take_def split: option.splits prod.splits)
  show "q_inv q'" and "q_contents q' = q_contents q @ [stored m]" if "q_enq q m = Some q'"
    using q_append_effect [OF inv] that by (auto simp: q_enq_def)
  show "q_inv q'" and "\<exists>e. q_contents q = e # q_contents q' \<and> r = delivered e"
    if "q_deq q = Some (q', r)"
    using q_take_effect [OF inv that [unfolded q_deq_def]] by blast+
qed

section \<open>A queue to run\<close>

definition demo_queue :: Queue where
  "demo_queue = queue_init
     \<lparr>q_data = replicate QUEUE_MAX \<lparr>msg = replicate QUEUE_MSG_SIZE NUL, from_addr = zero_addr, has_addr = 0\<rparr>,
      q_head = 7, q_tail = 9, q_size = 3\<rparr>"

lemma demo_queue_inv [simp]: "q_inv demo_queue" "q_contents demo_queue = []"
  unfolding demo_queue_def by (intro q_init_inv; simp)+

lemma put_then_get:
  assumes "q_inv q" and "q_contents q = []"
  obtains q1 q2 i toks sender where "q_append q m a = Some q1" and "q_inv q1"
    and "q_pop q1 w = Some (q2, i, toks, sender)" and "q_inv q2" and "q_contents q2 = []"
    and "map (token_text q2 i) toks = fst (delivered (stored (m, a)))"
    and "sender = (if w then Some (snd (delivered (stored (m, a)))) else None)"
proof -
  obtain q1 where q1: "q_append q m a = Some q1"
    using q_append_None_iff [OF assms(1), of m a] assms(2) by (cases "q_append q m a") (auto simp: QUEUE_MAX_def)
  note e1 = q_append_effect [OF assms(1) q1]
  obtain q2 i toks sender where pop: "q_pop q1 w = Some (q2, i, toks, sender)"
    using q_pop_None_iff [OF e1(1), of w] e1(2) by (cases "q_pop q1 w") auto
  from e1(1) pop show thesis
  proof (rule q_pop_effect)
    fix e
    assume e: "q_inv q2" "q_contents q1 = e # q_contents q2"
      "map (token_text q2 i) toks = fst (delivered e)"
      "sender = (if w then Some (snd (delivered e)) else None)"
    then have "e = stored (m, a)" "q_contents q2 = []" using e1(2) assms(2) by auto
    with e that [OF q1 e1(1) pop] show thesis by simp
  qed
qed

lemma stored_words:
  "delivered (stored (s @ [NUL], Some a)) = (take 49 (words_of (remove1 DOLLAR s)), a)"
  if "no_nul s" "length s < 512"
  using that by (simp add: delivered_def stored_def cstr_append_nul QUEUE_MSG_SIZE_def MAX_COMMAND_LEN_def)

section \<open>Properties\<close>

text \<open>
  C12. Whatever the listener and the queue manager do, and however often one of them has to
  sleep, the items that come out, followed by what is still queued, are the items that were
  queued at the start followed by those that went in: nothing is lost, duplicated or reordered.
  Each message goes in cut to 511 characters and comes out as the words of its text without
  the first dollar sign, at most 49 of them, with the address it came from.
\<close>

theorem queue_fifo:
  assumes "q_inv q" and "q_run q_enq q_deq q as = (q', ins, outs)"
  shows "outs @ map delivered (q_contents q') =
         map delivered (q_contents q) @ map (delivered \<circ> stored) ins"
  using assms by (rule ring.run_order)

theorem queue_fifo_witness:
  "\<exists>q'. q_run q_enq q_deq demo_queue [Get, Put (''say$ hi  you'' @ [NUL], Some zero_addr), Get] =
      (q', [(''say$ hi  you'' @ [NUL], Some zero_addr)], [([''say'', ''hi'', ''you''], zero_addr)])
    \<and> [([''say'', ''hi'', ''you''], zero_addr)] @ map delivered (q_contents q') = [([''say'', ''hi'', ''you''], zero_addr)]"
proof -
  let ?m = "''say$ hi  you'' @ [NUL]"
  obtain q1 q2 i toks sender where q: "q_append demo_queue ?m (Some zero_addr) = Some q1"
    "q_pop q1 True = Some (q2, i, toks, sender)" "q_contents q2 = []"
    "map (token_text q2 i) toks = fst (delivered (stored (?m, Some zero_addr)))"
    "sender = Some (snd (delivered (stored (?m, Some zero_addr))))"
    by (rule put_then_get [OF demo_queue_inv, of ?m "Some zero_addr" True]) auto
  have d: "delivered (stored (?m, Some zero_addr)) = ([''say'', ''hi'', ''you''], zero_addr)"
    by (subst stored_words) (simp_all add: words_of.simps)
  have "q_deq demo_queue = None"
    using q_pop_None_iff [of demo_queue True] by (simp add: q_deq_def q_take_def)
  then have run: "q_run q_enq q_deq demo_queue [Get, Put (?m, Some zero_addr), Get] =
      (q2, [(?m, Some zero_addr)], [([''say'', ''hi'', ''you''], zero_addr)])"
    using q d by (simp add: q_enq_def q_deq_def q_take_def)
  from queue_fifo [OF demo_queue_inv(1) run] d have
    "[([''say'', ''hi'', ''you''], zero_addr)] @ map delivered (q_contents q2) = [([''say'', ''hi'', ''you''], zero_addr)]"
    by (simp only: demo_queue_inv comp_def list.map append.simps)
  with run show ?thesis by blast
qed

text \<open>
  The queue holds 255 messages, one less than its number of slots: an append sleeps exactly
  when 255 messages are queued, a pop sleeps exactly when none is, and otherwise they return.
\<close>

lemma queue_blocking:
  assumes "q_inv q"
  shows "(q_append q m a = None \<longleftrightarrow> length (q_contents q) = 255) \<and>
    (q_pop q w = None \<longleftrightarrow> q_contents q = []) \<and>
    q_size q = int (length (q_contents q)) \<and> length (q_contents q) \<le> 255"
  using q_append_None_iff [OF assms] q_pop_None_iff [OF assms] q_count_lt [of q] assms
  by (simp add: QUEUE_MAX_def q_inv_def)

lemma queue_blocking_instance:
  "q_pop demo_queue True = None \<and> q_append demo_queue ''say$ hi'' None \<noteq> None"
  using queue_blocking [of demo_queue "''say$ hi''" None True] by simp

lemma q_append_all_frame:
  assumes "q_append_all q ms = Some q'" and "q_head q = (i + 1) mod QUEUE_MAX"
    and "i < QUEUE_MAX" and "q_tail q < QUEUE_MAX"
  shows "q_data q' ! i = q_data q ! i"
  using assms
proof (induction ms arbitrary: q)
  case Nil
  then show ?case by simp
next
  case (Cons m ms)
  obtain mm a where m: "m = (mm, a)" by fastforce
  from Cons.prems(1) m obtain q1 where q1: "q_append q mm a = Some q1" "q_append_all q1 ms = Some q'"
    by (auto split: option.splits)
  have "q_tail q \<noteq> i"
    using q1(1) Cons.prems(2) by (auto simp: q_append_Some)
  then have "q_data q1 ! i = q_data q ! i"
    using q1(1) by (auto simp: q_append_Some)
  moreover have "q_data q' ! i = q_data q1 ! i"
    using q1 Cons.prems by (intro Cons.IH) (auto simp: q_append_Some)
  ultimately show ?case by simp
qed

text \<open>
  C24. The tokens a pop hands out are pointers into the slot it just freed, which the next
  appends may reuse; they are safe all the same. The one slot the full test keeps empty is the
  slot just popped, so no number of appends overwrites the tokens before the next pop.
\<close>

theorem popped_tokens_stable:
  assumes "q_inv q" and "q_pop q w = Some (q1, i, toks, sender)"
    and "q_append_all q1 ms = Some q2"
  shows "map (token_text q2 i) toks = map (token_text q1 i) toks"
proof -
  from assms(1,2) obtain e where "q_inv q1" "i = q_head q" "q_head q1 = (i + 1) mod QUEUE_MAX"
    by (rule q_pop_effect)
  then have "q_data q2 ! i = q_data q1 ! i"
    using assms(1,3) by (intro q_append_all_frame) (auto simp: q_inv_def)
  then show ?thesis by (simp add: token_text_def)
qed

theorem popped_tokens_stable_witness:
  "\<exists>q1 i toks sender q2. q_append demo_queue (''kick$ eve'' @ [NUL]) None = Some q1 \<and>
     (\<exists>q1'. q_pop q1 False = Some (q1', i, toks, sender) \<and>
       q_append_all q1' [(''say$ one'' @ [NUL], None), (''say$ two'' @ [NUL], None)] = Some q2) \<and>
     map (token_text q2 i) toks = [''kick'', ''eve'']"
proof -
  let ?m = "''kick$ eve'' @ [NUL]"
  let ?one = "''say$ one'' @ [NUL]" and ?two = "''say$ two'' @ [NUL]"
  obtain q1 q1' i toks sender where q: "q_append demo_queue ?m None = Some q1" "q_inv q1"
    "q_pop q1 False = Some (q1', i, toks, sender)" "q_inv q1'" "q_contents q1' = []"
    "map (token_text q1' i) toks = fst (delivered (stored (?m, None)))"
    by (rule put_then_get [OF demo_queue_inv, of ?m None False]) auto
  obtain q2 where q2: "q_append q1' ?one None = Some q2" "q_inv q2"
    "q_contents q2 = [stored (?one, None)]"
    using q_append_None_iff [OF q(4), of ?one None] q_append_effect [OF q(4)] q(5)
    by (cases "q_append q1' ?one None") (auto simp: QUEUE_MAX_def)
  obtain q3 where q3: "q_append q2 ?two None = Some q3"
    using q_append_None_iff [OF q2(2), of ?two None] q2(3)
    by (cases "q_append q2 ?two None") (auto simp: QUEUE_MAX_def)
  have all: "q_append_all q1' [(?one, None), (?two, None)] = Some q3"
    using q2(1) q3 by simp
  have "fst (delivered (stored (?m, None))) = [''kick'', ''eve'']"
    by (simp add: delivered_def stored_def cstr_def QUEUE_MSG_SIZE_def MAX_COMMAND_LEN_def words_of.simps)
  then have "map (token_text q3 i) toks = [''kick'', ''eve'']"
    using popped_tokens_stable [OF q(2,3) all] q(6) by simp
  with q(1,3) all show ?thesis
    by (intro exI [of _ q1] exI [of _ i] exI [of _ toks] exI [of _ sender] exI [of _ q3] exI [of _ q1'] conjI)
qed

text \<open>
  Tokenising works in place: it edits the buffer, but the pointers it delivers read as the
  space-separated words of the message without its first dollar sign, at most 49 of them, for
  every terminated message.
\<close>

lemma tokens_are_words:
  assumes "NUL \<in> set (msg node)" and "get_and_tokenise node = (node', toks)"
  shows "map (\<lambda>t. cstr (drop t (msg node'))) toks =
           take 49 (words_of (remove1 DOLLAR (cstr (msg node))))"
  using get_and_tokenise_spec(1) [OF assms] by (simp add: MAX_COMMAND_LEN_def)

lemma tokens_are_words_instance:
  "\<exists>node' toks. get_and_tokenise \<lparr>msg = ''say$ a  b'' @ [NUL, SP], from_addr = zero_addr, has_addr = 0\<rparr> = (node', toks)
     \<and> map (\<lambda>t. cstr (drop t (msg node'))) toks = [''say'', ''a'', ''b'']"
proof -
  let ?n = "\<lparr>msg = ''say$ a  b'' @ [NUL, SP], from_addr = zero_addr, has_addr = 0\<rparr>"
  obtain node' toks where g: "get_and_tokenise ?n = (node', toks)" by fastforce
  have "take 49 (words_of (remove1 DOLLAR (cstr (msg ?n)))) = [''say'', ''a'', ''b'']"
    by (simp add: cstr_def words_of.simps)
  with tokens_are_words [OF _ g] g show ?thesis by auto
qed

end
