(* ===== verification/Thread_Args.thy ===== *)
theory Thread_Args
  imports Prelude
begin

text \<open>
  How the threads of the two programs get at what they share: the argument structures of
  \<open>server_types.h\<close> and \<open>client_types.h\<close>, the functions that fill them, and which pointers the two
  \<open>main\<close> functions hand to which thread. Pointers are addresses; the theories of the threads
  take the state itself, once, because all of them hold the same addresses.
\<close>

type_synonym address = nat

section \<open>The server\<close>

record execute_command_args_t =
  ea_sd :: int
  ea_command :: address
  ea_from_addr :: address
  ea_head :: address
  ea_tail :: address
  ea_client_linkedList :: address
  ea_chat_history :: address
  ea_chat_historyc :: address

definition setup_command_args ::
  "execute_command_args_t \<Rightarrow> int \<Rightarrow> address \<Rightarrow> address \<Rightarrow> address \<Rightarrow> address \<Rightarrow> address \<Rightarrow> address \<Rightarrow> address
   \<Rightarrow> execute_command_args_t" where
  "setup_command_args args sd command from_addr hp tp client_linkedList chat_history chat_historyc =
     args\<lparr>ea_sd := sd, ea_command := command, ea_from_addr := from_addr, ea_head := hp, ea_tail := tp,
       ea_client_linkedList := client_linkedList, ea_chat_history := chat_history,
       ea_chat_historyc := chat_historyc\<rparr>"

record listener_args_t =
  la_sd :: int
  la_task_queue :: address

definition setup_listener_args :: "listener_args_t \<Rightarrow> int \<Rightarrow> address \<Rightarrow> listener_args_t" where
  "setup_listener_args args sd q = args\<lparr>la_sd := sd, la_task_queue := q\<rparr>"

record queue_manager_args_t =
  qm_task_queue :: address
  qm_sd :: int
  qm_head :: address
  qm_tail :: address
  qm_client_linkedList :: address
  active_worker :: int

definition setup_queue_manager_args ::
  "queue_manager_args_t \<Rightarrow> address \<Rightarrow> int \<Rightarrow> address \<Rightarrow> address \<Rightarrow> address \<Rightarrow> queue_manager_args_t" where
  "setup_queue_manager_args args q sd hp tp client_linkedList =
     args\<lparr>qm_task_queue := q, qm_sd := sd, qm_head := hp, qm_tail := tp,
       qm_client_linkedList := client_linkedList, active_worker := 0\<rparr>"

record connection_manager_args_t =
  cm_sd :: int
  cm_head :: address
  cm_tail :: address
  cm_client_linkedList :: address
  cm_active_worker :: int

definition setup_connection_manager_args ::
  "connection_manager_args_t \<Rightarrow> int \<Rightarrow> address \<Rightarrow> address \<Rightarrow> address \<Rightarrow> connection_manager_args_t" where
  "setup_connection_manager_args args sd hp tp client_linkedList =
     args\<lparr>cm_sd := sd, cm_head := hp, cm_tail := tp, cm_client_linkedList := client_linkedList,
       cm_active_worker := 0\<rparr>"

text \<open>
  The variables of \<open>main\<close> whose addresses it hands out, the monitor being a block on the heap. What
  \<open>malloc\<close> returned for the structures, \<open>l\<close>, \<open>q\<close> and \<open>c\<close>, is overwritten.
\<close>

record server_variables =
  at_head :: address
  at_tail :: address
  at_task_queue :: address
  at_monitor :: address

definition server_main ::
  "int \<Rightarrow> server_variables \<Rightarrow> listener_args_t \<Rightarrow> queue_manager_args_t \<Rightarrow> connection_manager_args_t
   \<Rightarrow> listener_args_t \<times> queue_manager_args_t \<times> connection_manager_args_t" where
  "server_main sd v l q c =
     (setup_listener_args l sd (at_task_queue v),
      setup_queue_manager_args q (at_task_queue v) sd (at_head v) (at_tail v) (at_monitor v),
      setup_connection_manager_args c sd (at_head v) (at_tail v) (at_monitor v))"

text \<open>
  The queue manager hands its own pointers to every handler thread, with the command, the sender
  and its local history array and counter.
\<close>

definition handler_args ::
  "queue_manager_args_t \<Rightarrow> execute_command_args_t \<Rightarrow> address \<Rightarrow> address \<Rightarrow> address \<Rightarrow> address
   \<Rightarrow> execute_command_args_t" where
  "handler_args qm args command from_addr chat_history chat_historyc =
     setup_command_args args (qm_sd qm) command from_addr (qm_head qm) (qm_tail qm)
       (qm_client_linkedList qm) chat_history chat_historyc"

text \<open>
  All threads of the server work on the same list under the same monitor, the listener and the
  queue manager on the same queue, all of them through the same socket, and all handlers on the
  same history.
\<close>

lemma server_threads_share:
  assumes "server_main sd v l q c = (la, qa, ca)"
  shows "la_task_queue la = qm_task_queue qa \<and> la_sd la = sd \<and> qm_sd qa = sd \<and> cm_sd ca = sd
    \<and> (qm_head qa, qm_tail qa, qm_client_linkedList qa) = (cm_head ca, cm_tail ca, cm_client_linkedList ca)
    \<and> active_worker qa = 0
    \<and> (let e = handler_args qa args command from_addr chat_history chat_historyc
       in ea_sd e = sd \<and> (ea_head e, ea_tail e, ea_client_linkedList e) = (cm_head ca, cm_tail ca, cm_client_linkedList ca)
         \<and> (ea_command e, ea_from_addr e) = (command, from_addr)
         \<and> (ea_chat_history e, ea_chat_historyc e) = (chat_history, chat_historyc))"
  using assms
  by (auto simp: server_main_def handler_args_def setup_listener_args_def setup_queue_manager_args_def
      setup_connection_manager_args_def setup_command_args_def Let_def)

section \<open>The client\<close>

record cli_listener_args_t =
  cl_client :: address
  cl_task_queue :: address

definition setup_cli_listner_args :: "cli_listener_args_t \<Rightarrow> address \<Rightarrow> address \<Rightarrow> cli_listener_args_t" where
  "setup_cli_listner_args args client task_queue = args\<lparr>cl_client := client, cl_task_queue := task_queue\<rparr>"

record chat_display_args_t =
  cd_client :: address
  cd_messages :: address
  cd_message_count :: address
  cd_messages_mutex :: address
  cd_messages_cond :: address

definition setup_chat_display_args ::
  "chat_display_args_t \<Rightarrow> address \<Rightarrow> address \<Rightarrow> address \<Rightarrow> address \<Rightarrow> address \<Rightarrow> chat_display_args_t" where
  "setup_chat_display_args args client messages message_count message_mutex message_update_cond =
     args\<lparr>cd_client := client, cd_messages := messages, cd_message_count := message_count,
       cd_messages_mutex := message_mutex, cd_messages_cond := message_update_cond\<rparr>"

record user_input_args_t =
  ui_client :: address

definition setup_user_input_args :: "user_input_args_t \<Rightarrow> address \<Rightarrow> user_input_args_t" where
  "setup_user_input_args args client = args\<lparr>ui_client := client\<rparr>"

record cli_queue_manager_args_t =
  cq_client :: address
  cq_task_queue :: address
  cq_messages :: address
  cq_message_count :: address
  cq_messages_mutex :: address
  cq_messages_cond :: address

definition setup_cli_queue_manager_args ::
  "cli_queue_manager_args_t \<Rightarrow> address \<Rightarrow> address \<Rightarrow> address \<Rightarrow> address \<Rightarrow> address \<Rightarrow> address
   \<Rightarrow> cli_queue_manager_args_t" where
  "setup_cli_queue_manager_args args client task_queue messages message_count message_mutex message_update_cond =
     args\<lparr>cq_client := client, cq_task_queue := task_queue, cq_messages := messages,
       cq_message_count := message_count, cq_messages_mutex := message_mutex,
       cq_messages_cond := message_update_cond\<rparr>"

record handle_cli_side_cmd_args_t =
  hc_client :: address
  hc_messages :: address
  hc_message_count :: address
  hc_messages_mutex :: address
  hc_messages_cond :: address
  hc_tokenised_command :: address

definition setup_handle_cli_side_cmd_args ::
  "handle_cli_side_cmd_args_t \<Rightarrow> address \<Rightarrow> address \<Rightarrow> address \<Rightarrow> address \<Rightarrow> address \<Rightarrow> address
   \<Rightarrow> handle_cli_side_cmd_args_t" where
  "setup_handle_cli_side_cmd_args args client messages message_count messages_mutex messages_cond tokenised_command =
     args\<lparr>hc_client := client, hc_messages := messages, hc_message_count := message_count,
       hc_messages_mutex := messages_mutex, hc_messages_cond := messages_cond,
       hc_tokenised_command := tokenised_command\<rparr>"

record client_variables =
  at_client :: address
  at_cli_task_queue :: address
  at_messages :: address
  at_message_count :: address
  at_messages_mutex :: address
  at_messages_cond :: address

definition client_main ::
  "client_variables \<Rightarrow> chat_display_args_t \<Rightarrow> user_input_args_t \<Rightarrow> user_input_args_t \<Rightarrow> cli_listener_args_t
   \<Rightarrow> cli_queue_manager_args_t
   \<Rightarrow> chat_display_args_t \<times> user_input_args_t \<times> user_input_args_t \<times> cli_listener_args_t \<times> cli_queue_manager_args_t" where
  "client_main v d pre post l q =
     (setup_chat_display_args d (at_client v) (at_messages v) (at_message_count v) (at_messages_mutex v) (at_messages_cond v),
      setup_user_input_args pre (at_client v),
      setup_user_input_args post (at_client v),
      setup_cli_listner_args l (at_client v) (at_cli_task_queue v),
      setup_cli_queue_manager_args q (at_client v) (at_cli_task_queue v) (at_messages v) (at_message_count v)
        (at_messages_mutex v) (at_messages_cond v))"

definition cli_handler_args ::
  "cli_queue_manager_args_t \<Rightarrow> handle_cli_side_cmd_args_t \<Rightarrow> address \<Rightarrow> handle_cli_side_cmd_args_t" where
  "cli_handler_args qm args tokenised_command =
     setup_handle_cli_side_cmd_args args (cq_client qm) (cq_messages qm) (cq_message_count qm)
       (cq_messages_mutex qm) (cq_messages_cond qm) tokenised_command"

text \<open>
  The display and the handlers use the same messages, counter, mutex and condition, and all
  threads the same client; only the tokens are a handler's own.
\<close>

lemma client_threads_share:
  assumes "client_main v d pre post l q = (da, prea, posta, la, qa)"
  shows "ui_client prea = cd_client da \<and> ui_client posta = cd_client da \<and> cl_client la = cd_client da
    \<and> cl_task_queue la = cq_task_queue qa
    \<and> (let h = cli_handler_args qa args toks
       in (hc_client h, hc_messages h, hc_message_count h, hc_messages_mutex h, hc_messages_cond h) =
            (cd_client da, cd_messages da, cd_message_count da, cd_messages_mutex da, cd_messages_cond da)
         \<and> hc_tokenised_command h = toks)"
  using assms
  by (auto simp: client_main_def cli_handler_args_def setup_chat_display_args_def setup_user_input_args_def
      setup_cli_listner_args_def setup_cli_queue_manager_args_def setup_handle_cli_side_cmd_args_def Let_def)

end
