(* ===== verification/Server_Main.thy ===== *)
theory Server_Main
  imports Server_Threads Queue Thread_Args
begin

text \<open>
  The two service threads of \<open>server_interface.c\<close> and the worker limit of \<open>server_types.h\<close>: the
  listener puts datagrams into the queue, the queue manager takes them out, parses them and
  starts handler threads between the check-in and the check-out of the worker pool. Together
  with the interleaved system of theory \<open>Server_Threads\<close> this is the whole server process.
\<close>

section \<open>The worker pool\<close>

definition MAX_THREADS :: int where "MAX_THREADS = 128"

text \<open>Checking in sleeps, \<open>None\<close>, while the limit is reached.\<close>

definition worker_thread_checkin :: "queue_manager_args_t \<Rightarrow> queue_manager_args_t option" where
  "worker_thread_checkin qm =
     (if active_worker qm \<ge> MAX_THREADS then None else Some (qm\<lparr>active_worker := active_worker qm + 1\<rparr>))"

definition worker_thread_checkout :: "queue_manager_args_t \<Rightarrow> queue_manager_args_t" where
  "worker_thread_checkout qm = qm\<lparr>active_worker := active_worker qm - 1\<rparr>"

section \<open>The listener\<close>

text \<open>
  \<open>buf\<close> is what the stack buffer holds before the read, usually the previous datagram. The text
  is printed before it is queued, which runs off the buffer when it holds no NUL. \<open>None\<close>: the
  queue is full and the listener sleeps.
\<close>

definition listener_turn :: "recv_event \<Rightarrow> bytes \<Rightarrow> Queue \<Rightarrow> (Queue \<times> bytes) run" where
  "listener_turn ev buf q =
     (case udp_socket_read ev buf BUFFER_SIZE of
        (rc, client_request, source) \<Rightarrow>
          if rc > 0 then
            (if NUL \<notin> set client_request then Some (Fault OutOfBounds)
             else case q_append q client_request source of
                    None \<Rightarrow> None
                  | Some q' \<Rightarrow> Some (Ok (q', client_request)))
          else Some (Ok (q, client_request)))"

section \<open>The queue manager\<close>

text \<open>
  \<open>junk\<close> is the block \<open>malloc\<close> returned for the command, which is not cleared.
\<close>

definition next_command :: "command_t \<Rightarrow> Queue \<Rightarrow> (Queue \<times> command_t \<times> sockaddr_in) option" where
  "next_command junk q =
     (case q_take q of
        None \<Rightarrow> None
      | Some (q', tokenised_command, sender) \<Rightarrow>
          Some (q', command_handler junk (Some tokenised_command), sender))"

section \<open>Starting up\<close>

text \<open>\<open>setup\<close> asserts that the socket was opened; a failed assertion ends the process, \<open>None\<close>.\<close>

definition server_setup ::
  "(string \<Rightarrow> 32 word option) \<Rightarrow> int \<Rightarrow> (sockaddr_in \<Rightarrow> int) \<Rightarrow> Queue \<Rightarrow> (int \<times> Queue) option" where
  "server_setup inet_pton sock bound q =
     (let sd = fst (udp_socket_open inet_pton sock bound SERVER_PORT)
      in if sd > -1 then Some (sd, queue_init q) else None)"

section \<open>The process\<close>

text \<open>Where the queue manager stands in its loop, with its local variables.\<close>

datatype qm_phase =
    Popping
  | Parsed command_t sockaddr_in
  | Checked_In command_t sockaddr_in
  | Spawning

record process =
  sys :: system
  task_queue :: Queue
  request_buffer :: bytes
  workers :: queue_manager_args_t
  phase :: qm_phase

text \<open>
  The rows of an uninitialised command are taken to be terminated, whatever they hold. The
  dispatcher's walk, the handler threads and the connection manager move as in \<open>sys_step\<close>;
  the queue manager goes on when the walk is over. The label of an act is the datagram the
  listener reads in it; what is said of a run's inputs is said with \<open>reacts\<close> and \<open>hears\<close> over these
  labels, while \<open>process_step\<close> forgets them.
\<close>

inductive process_act :: "recv_event option \<Rightarrow> process \<Rightarrow> process \<Rightarrow> bool" where
  listen: "crashed (sys s) = None \<Longrightarrow> listener_turn ev (request_buffer s) (task_queue s) = Some (Ok (q, b)) \<Longrightarrow>
     process_act (Some ev) s (s\<lparr>task_queue := q, request_buffer := b\<rparr>)"
| listen_fault: "crashed (sys s) = None \<Longrightarrow> listener_turn ev (request_buffer s) (task_queue s) = Some (Fault e) \<Longrightarrow>
     process_act (Some ev) s (s\<lparr>sys := (sys s)\<lparr>crashed := Some e\<rparr>\<rparr>)"
| pop: "crashed (sys s) = None \<Longrightarrow> phase s = Popping \<Longrightarrow> well_formed_command junk \<Longrightarrow>
     next_command junk (task_queue s) = Some (q, cmd, from) \<Longrightarrow>
     process_act None s (s\<lparr>task_queue := q, phase := Parsed cmd from\<rparr>)"
| checkin: "crashed (sys s) = None \<Longrightarrow> phase s = Parsed cmd from \<Longrightarrow>
     worker_thread_checkin (workers s) = Some qm \<Longrightarrow>
     process_act None s (s\<lparr>workers := qm, phase := Checked_In cmd from\<rparr>)"
| start: "crashed (sys s) = None \<Longrightarrow> phase s = Checked_In cmd from \<Longrightarrow>
     process_act None s (s\<lparr>sys := dispatched cmd from (sys s), phase := Spawning\<rparr>)"
| checkout: "crashed (sys s) = None \<Longrightarrow> phase s = Spawning \<Longrightarrow> dispatcher_free (sys s) \<Longrightarrow>
     process_act None s (s\<lparr>workers := worker_thread_checkout (workers s), phase := Popping\<rparr>)"
| thread: "thread_move i (sys s) t \<Longrightarrow> process_act None s (s\<lparr>sys := t\<rparr>)"

abbreviation process_step :: "process \<Rightarrow> process \<Rightarrow> bool" where
  "process_step \<equiv> some_act process_act"

inductive_cases process_act_cases: "process_act l s t"

definition process_init :: "process \<Rightarrow> bool" where
  "process_init s \<longleftrightarrow> sys_init (sys s) \<and> length (q_data (task_queue s)) = QUEUE_MAX
     \<and> (\<forall>n \<in> set (q_data (task_queue s)). length (msg n) = QUEUE_MSG_SIZE)
     \<and> (\<exists>q. task_queue s = queue_init q)
     \<and> length (request_buffer s) = BUFFER_SIZE \<and> (\<exists>sd v l qm c. workers s = fst (snd (server_main sd v l qm c))) \<and>
     phase s = Popping"

definition process_inv :: "process \<Rightarrow> bool" where
  "process_inv s \<longleftrightarrow> q_inv (task_queue s) \<and> length (request_buffer s) = BUFFER_SIZE \<and>
     active_worker (workers s) = (case phase s of Popping \<Rightarrow> 0 | Parsed _ _ \<Rightarrow> 0 | _ \<Rightarrow> 1) \<and>
     (case phase s of Parsed cmd _ \<Rightarrow> well_formed_command cmd | Checked_In cmd _ \<Rightarrow> well_formed_command cmd | _ \<Rightarrow> True) \<and>
     (phase s \<noteq> Spawning \<longrightarrow> dispatcher_free (sys s)) \<and> sys_inv (sys s)"

section \<open>The invariant of the process\<close>

lemma next_command_inv:
  assumes "q_inv q" and "next_command junk q = Some (q', cmd, a)" and "well_formed_command junk"
  shows "q_inv q' \<and> well_formed_command cmd"
proof -
  from assms(2) obtain toks where t: "q_take q = Some (q', toks, a)" "cmd = command_handler junk (Some toks)"
    by (auto simp: next_command_def split: option.splits prod.splits)
  from q_take_effect [OF assms(1) t(1)] have "q_inv q'" by blast
  with t(2) command_handler_keeps [OF assms(3) q_take_no_nul [OF t(1)]] show ?thesis by simp
qed

lemma listener_turn_inv:
  assumes "q_inv q" and "length buf = BUFFER_SIZE" and "listener_turn ev buf q = Some (Ok (q', buf'))"
  shows "q_inv q' \<and> length buf' = BUFFER_SIZE"
proof -
  obtain rc b src where r: "udp_socket_read ev buf BUFFER_SIZE = (rc, b, src)" by (metis surj_pair)
  from read_length [OF r] assms(2) have "length b = BUFFER_SIZE" by simp
  with assms r q_append_effect(1) [OF assms(1)] show ?thesis
    by (auto simp: listener_turn_def split: if_splits option.splits)
qed

lemma thread_move_free: "thread_move i s t \<Longrightarrow> dispatcher_free s \<Longrightarrow> dispatcher_free t"
proof (induction rule: thread_move.induct)
  case (move s i p now st th ds)
  with thread_step_next [OF move(5)] show ?case
    by (auto simp: dispatcher_free_def list_all_length nth_list_update)
qed (simp add: dispatcher_free_def)

interpretation process: inductive_invariant process_init process_step process_inv
proof unfold_locales
  fix s t
  show "process_init s \<Longrightarrow> process_inv s"
    using sys.inv_init [of "sys s"] q_init_inv(1)
    by (auto simp: process_init_def process_inv_def server_main_def setup_queue_manager_args_def queue_init_def
        sys_init_def dispatcher_free_def)
  assume inv: "process_inv s"
  assume "process_step s t"
  then obtain l where "process_act l s t" by (rule some_actE)
  then show "process_inv t"
  proof (cases rule: process_act.cases)
    case (listen ev q b)
    with listener_turn_inv [of "task_queue s" "request_buffer s" ev q b] inv show ?thesis
      by (simp add: process_inv_def)
  next
    case (pop junk q cmd "from")
    with next_command_inv [of "task_queue s" junk q cmd "from"] inv show ?thesis
      by (simp add: process_inv_def)
  next
    case (checkin cmd "from" qm)
    with inv show ?thesis
      by (auto simp: process_inv_def worker_thread_checkin_def split: if_splits)
  next
    case (start cmd "from")
    with inv show ?thesis by (simp add: process_inv_def sys_inv_def)
  next
    case checkout
    with inv show ?thesis by (simp add: process_inv_def worker_thread_checkout_def)
  next
    case (thread i u)
    with inv thread_move_inv [OF thread(3)] thread_move_free [OF thread(3)] show ?thesis
      by (simp add: process_inv_def)
  qed (use inv in \<open>simp_all add: process_inv_def sys_inv_def dispatcher_free_def\<close>)
qed

text \<open>
  Every step of the process is at most one step of its threads, so what holds of the threads in
  every interleaving holds in the process; only the listener can fault on its own.
\<close>

lemma process_step_threads:
  assumes "process_step s t" and "process_inv s"
  shows "sys_step\<^sup>=\<^sup>= (sys s) (sys t) \<or> (\<exists>e. sys t = (sys s)\<lparr>crashed := Some e\<rparr>)"
proof -
  from assms(1) obtain l where "process_act l s t" by (rule some_actE)
  then show ?thesis
  proof (cases rule: process_act.cases)
    case (start cmd "from")
    with dispatch [of "sys s" cmd "from"] assms(2) show ?thesis by (simp add: process_inv_def)
  next
    case (thread i u)
    then show ?thesis by (auto intro: sys_step.thread)
  qed auto
qed

lemma process_moves: "(thread_move i)\<^sup>*\<^sup>* (sys s) t \<Longrightarrow> (process_act None)\<^sup>*\<^sup>* s (s\<lparr>sys := t\<rparr>)"
proof (induction rule: rtranclp_induct)
  case base
  then show ?case by (cases s) simp
next
  case (step u v)
  from thread [of i "s\<lparr>sys := u\<rparr>" v] step(2) have "process_act None (s\<lparr>sys := u\<rparr>) (s\<lparr>sys := v\<rparr>)" by (cases s) simp
  with step(3) show ?case by (rule rtranclp.rtrancl_into_rtrancl)
qed

section \<open>From the wire to the command\<close>

text \<open>The command a text stands for: the kind of its first word, the other words cut to their rows.\<close>

definition request_of :: "string list \<Rightarrow> command_t" where
  "request_of ws =
     \<lparr>kind = kind_of_token (hd ws),
      args = map (take (NAME_SIZE - 1)) (take (MAX_COMMAND_LEN - 2) (tl ws))
               @ replicate (MAX_CMD_SIZE - min (MAX_COMMAND_LEN - 2) (length (tl ws))) ''''\<rparr>"

lemma wire_text: "no_nul t \<Longrightarrow> wire junk (udp_socket_write a t (length t + 1)) = t @ [NUL]"
  by (simp add: wire_def udp_socket_write_def)

text \<open>A datagram with its NUL, whatever follows it, is queued as the text before the NUL.\<close>

lemma cstr_in_buffer:
  assumes "NUL \<in> set (take n pkt)"
  shows "cstr (take n pkt @ rest) = cstr pkt"
proof -
  obtain r where r: "take n pkt = cstr (take n pkt) @ NUL # r" using cstr_split [OF assms] by blast
  have "cstr (take n pkt @ xs) = cstr (take n pkt)" for xs
    by (subst (1) r) (simp add: cstr_append_nul)
  from this [of "drop n pkt"] this [of rest] show ?thesis by simp
qed

lemma listener_turn_packet:
  assumes "NUL \<in> set (take BUFFER_SIZE pkt)"
  obtains b where "cstr b = cstr pkt" and "\<And>q. listener_turn (Received a pkt) buf q =
    (case q_append q b (Some a) of None \<Rightarrow> None | Some q' \<Rightarrow> Some (Ok (q', b)))"
proof -
  let ?b = "take BUFFER_SIZE pkt @ drop (length (take BUFFER_SIZE pkt)) buf"
  have "pkt \<noteq> []" using assms by auto
  then have "listener_turn (Received a pkt) buf q =
      (case q_append q ?b (Some a) of None \<Rightarrow> None | Some q' \<Rightarrow> Some (Ok (q', ?b)))" for q
    using assms by (simp add: listener_turn_def udp_socket_read_def Let_def BUFFER_SIZE_def split: option.split)
  with cstr_in_buffer [OF assms] show thesis by (rule that)
qed

lemma command_of_tokens:
  assumes "well_formed_command junk" and "ws \<noteq> []"
  shows "command_handler junk (Some (take (MAX_COMMAND_LEN - 1) ws)) = request_of ws"
proof -
  obtain w rest where ws: "ws = w # rest" using assms(2) by (cases ws) auto
  have len: "length (args junk) = MAX_CMD_SIZE" using assms(1) by (simp add: well_formed_command_def)
  have "take (MAX_COMMAND_LEN - 1) ws = w # take (MAX_COMMAND_LEN - 2) rest"
    by (simp add: ws MAX_COMMAND_LEN_def)
  moreover have "take MAX_CMD_SIZE (take (MAX_COMMAND_LEN - 2) rest) = take (MAX_COMMAND_LEN - 2) rest"
    by (simp add: MAX_CMD_SIZE_def MAX_COMMAND_LEN_def)
  ultimately show ?thesis
    by (simp add: command_handler_closed [OF len] request_of_def ws min.commute)
qed

text \<open>One datagram travels through the listener and the queue, when the queue is empty.\<close>

lemma datagram_popped:
  assumes "process_inv s" and "crashed (sys s) = None" and "phase s = Popping"
    and "q_contents (task_queue s) = []" and "NUL \<in> set (take BUFFER_SIZE pkt)" and "length (cstr pkt) < 512"
    and "well_formed_command junk"
  shows "\<exists>q b. reacts process_act (Received a pkt) s (s\<lparr>task_queue := q, request_buffer := b,
      phase := Parsed (command_handler junk (Some (take (MAX_COMMAND_LEN - 1) (words_of (remove1 DOLLAR (cstr pkt)))))) a\<rparr>)
    \<and> q_contents q = []"
proof -
  have inv: "q_inv (task_queue s)" using assms(1) by (simp add: process_inv_def)
  obtain b where b: "cstr b = cstr pkt" "\<And>q. listener_turn (Received a pkt) (request_buffer s) q =
      (case q_append q b (Some a) of None \<Rightarrow> None | Some q' \<Rightarrow> Some (Ok (q', b)))"
    by (rule listener_turn_packet [OF assms(5), of a "request_buffer s"]) blast
  obtain q1 q2 i toks sender where q: "q_append (task_queue s) b (Some a) = Some q1" "q_inv q1"
    "q_pop q1 True = Some (q2, i, toks, sender)" "q_contents q2 = []"
    "map (token_text q2 i) toks = fst (delivered (stored (b, Some a)))"
    "sender = Some (snd (delivered (stored (b, Some a))))"
    by (rule put_then_get [OF inv assms(4), of b "Some a" True]) auto
  have st: "stored (b, Some a) = (cstr pkt, Some a)"
    using assms(6) b(1) by (simp add: stored_def QUEUE_MSG_SIZE_def)
  have "listener_turn (Received a pkt) (request_buffer s) (task_queue s) = Some (Ok (q1, b))"
    using b(2) q(1) by simp
  from listen [OF assms(2) this] have 1: "process_act (Some (Received a pkt)) s (s\<lparr>task_queue := q1, request_buffer := b\<rparr>)" .
  let ?cmd = "command_handler junk (Some (take (MAX_COMMAND_LEN - 1) (words_of (remove1 DOLLAR (cstr pkt)))))"
  have "next_command junk q1 = Some (q2, ?cmd, a)"
    using q(3,5,6) by (simp add: next_command_def q_take_def st delivered_def)
  then have "process_act None (s\<lparr>task_queue := q1, request_buffer := b\<rparr>)
      (s\<lparr>task_queue := q1, request_buffer := b\<rparr>\<lparr>task_queue := q2, phase := Parsed ?cmd a\<rparr>)"
    using assms(2,3,7) by (intro pop) simp_all
  moreover have "s\<lparr>task_queue := q1, request_buffer := b\<rparr>\<lparr>task_queue := q2, phase := Parsed ?cmd a\<rparr> =
      s\<lparr>task_queue := q2, request_buffer := b, phase := Parsed ?cmd a\<rparr>" by (cases s) simp
  ultimately have "process_act None (s\<lparr>task_queue := q1, request_buffer := b\<rparr>)
      (s\<lparr>task_queue := q2, request_buffer := b, phase := Parsed ?cmd a\<rparr>)" by (simp only:)
  with reacts_then1 [of process_act, OF reactsI [of process_act, OF 1]] q(4) show ?thesis by blast
qed

text \<open>A request on the wire: it carries its NUL, its text fits the queue and has a word.\<close>

definition packet_ok :: "bytes \<Rightarrow> bool" where
  "packet_ok pkt \<longleftrightarrow> NUL \<in> set (take BUFFER_SIZE pkt) \<and> length (cstr pkt) < QUEUE_MSG_SIZE \<and>
     words_of (remove1 DOLLAR (cstr pkt)) \<noteq> []"

lemma packet_ok_text:
  "no_nul t \<Longrightarrow> length t < QUEUE_MSG_SIZE \<Longrightarrow> words_of (remove1 DOLLAR t) \<noteq> [] \<Longrightarrow> packet_ok (t @ [NUL])"
  by (simp add: packet_ok_def cstr_append_nul QUEUE_MSG_SIZE_def BUFFER_SIZE_def)

definition text_command :: "string \<Rightarrow> command_t" where
  "text_command t = request_of (words_of (remove1 DOLLAR t))"

text \<open>The process between two requests.\<close>

definition at_rest :: "process \<Rightarrow> bool" where
  "at_rest s \<longleftrightarrow> crashed (sys s) = None \<and> phase s = Popping \<and> q_contents (task_queue s) = []"

lemma datagram_dispatched:
  assumes "process_inv s" and "at_rest s" and "packet_ok pkt"
  shows "\<exists>q b. reacts process_act (Received a pkt) s (s\<lparr>sys := dispatched (text_command (cstr pkt)) a (sys s), task_queue := q, request_buffer := b,
      workers := (workers s)\<lparr>active_worker := 1\<rparr>, phase := Spawning\<rparr>) \<and> q_contents q = []"
proof -
  let ?cmd = "text_command (cstr pkt)"
  have f: "well_formed_command (demo_cmd SAY [])" by simp
  have s: "crashed (sys s) = None" "phase s = Popping" "q_contents (task_queue s) = []"
    "active_worker (workers s) = 0"
    using assms(1,2) by (simp_all add: at_rest_def process_inv_def)
  have t: "NUL \<in> set (take BUFFER_SIZE pkt)" "length (cstr pkt) < 512" "words_of (remove1 DOLLAR (cstr pkt)) \<noteq> []"
    using assms(3) by (simp_all add: packet_ok_def QUEUE_MSG_SIZE_def)
  from datagram_popped [OF assms(1) s(1-3) t(1,2) f, of a, unfolded command_of_tokens [OF f t(3)]]
  obtain q b where pop: "reacts process_act (Received a pkt) s (s\<lparr>task_queue := q, request_buffer := b, phase := Parsed ?cmd a\<rparr>)"
    "q_contents q = []"
    unfolding text_command_def by blast
  let ?t = "\<lambda>w ph. s\<lparr>task_queue := q, request_buffer := b, workers := w, phase := ph\<rparr>"
  have "process_act None (s\<lparr>task_queue := q, request_buffer := b, phase := Parsed ?cmd a\<rparr>)
      (?t ((workers s)\<lparr>active_worker := 1\<rparr>) (Checked_In ?cmd a))"
    using checkin [of "s\<lparr>task_queue := q, request_buffer := b, phase := Parsed ?cmd a\<rparr>" ?cmd a "(workers s)\<lparr>active_worker := 1\<rparr>"] s(1,4)
    by (cases s) (simp add: worker_thread_checkin_def MAX_THREADS_def)
  moreover have "process_act None (?t ((workers s)\<lparr>active_worker := 1\<rparr>) (Checked_In ?cmd a))
      (s\<lparr>sys := dispatched ?cmd a (sys s), task_queue := q, request_buffer := b, workers := (workers s)\<lparr>active_worker := 1\<rparr>, phase := Spawning\<rparr>)"
    using start [of "?t ((workers s)\<lparr>active_worker := 1\<rparr>) (Checked_In ?cmd a)" ?cmd a] s(1) by (cases s) simp
  ultimately show ?thesis
    using pop by (meson reacts_then1)
qed

text \<open>When the walk is over the manager checks out and waits for the next datagram.\<close>

lemma dispatch_finished:
  assumes "(thread_move i)\<^sup>*\<^sup>* (dispatched cmd a (sys s)) u" and "crashed u = None" and "dispatcher_free u"
  shows "(process_act None)\<^sup>*\<^sup>* (s\<lparr>sys := dispatched cmd a (sys s), task_queue := q, request_buffer := b,
      workers := (workers s)\<lparr>active_worker := 1\<rparr>, phase := Spawning\<rparr>)
    (s\<lparr>sys := u, task_queue := q, request_buffer := b, workers := (workers s)\<lparr>active_worker := 0\<rparr>, phase := Popping\<rparr>)"
proof -
  let ?s = "s\<lparr>sys := dispatched cmd a (sys s), task_queue := q, request_buffer := b,
      workers := (workers s)\<lparr>active_worker := 1\<rparr>, phase := Spawning\<rparr>"
  let ?t = "s\<lparr>sys := u, task_queue := q, request_buffer := b, workers := (workers s)\<lparr>active_worker := 1\<rparr>, phase := Spawning\<rparr>"
  have "(process_act None)\<^sup>*\<^sup>* ?s ?t" using process_moves [of i ?s u] assms(1) by (cases s) simp
  also have "process_act None ?t (s\<lparr>sys := u, task_queue := q, request_buffer := b,
      workers := (workers s)\<lparr>active_worker := 0\<rparr>, phase := Popping\<rparr>)"
    using checkout [of ?t] assms(2,3) by (cases s) (simp add: worker_thread_checkout_def)
  finally show ?thesis .
qed

text \<open>
  After the listener has read a text, the process goes on by itself with exactly this text in its
  queue, or with the command of the text in the queue manager's hands, or with neither.
\<close>

definition holds_request :: "string \<Rightarrow> sockaddr_in \<Rightarrow> process \<Rightarrow> bool" where
  "holds_request t a s \<longleftrightarrow> process_inv s \<and>
     (phase s = Popping \<and> q_contents (task_queue s) = [(t, Some a)] \<or>
      q_contents (task_queue s) = [] \<and>
        (\<forall>cmd b. phase s = Parsed cmd b \<or> phase s = Checked_In cmd b \<longrightarrow>
           cmd = request_of (words_of (remove1 DOLLAR t)) \<and> b = a))"

lemma next_command_is:
  assumes "q_inv q" and "q_contents q = [(t, Some a)]" and "words_of (remove1 DOLLAR t) \<noteq> []"
    and "well_formed_command junk" and "next_command junk q = Some (q', cmd, b)"
  shows "q_contents q' = [] \<and> cmd = request_of (words_of (remove1 DOLLAR t)) \<and> b = a"
proof -
  from assms(5) obtain toks where t: "q_take q = Some (q', toks, b)" "cmd = command_handler junk (Some toks)"
    by (auto simp: next_command_def split: option.splits prod.splits)
  from q_take_effect [OF assms(1) t(1)] obtain e where
    e: "q_contents q = e # q_contents q'" "(toks, b) = delivered e" by metis
  with assms(2) have "toks = take (MAX_COMMAND_LEN - 1) (words_of (remove1 DOLLAR t))" "b = a" "q_contents q' = []"
    by (simp_all add: delivered_def)
  with t(2) command_of_tokens [OF assms(4,3)] show ?thesis by simp
qed

lemma own_step_holds:
  assumes "words_of (remove1 DOLLAR t) \<noteq> []" and "process_act None s u" and "holds_request t a s"
  shows "holds_request t a u"
proof -
  have inv: "process_inv s" "process_inv u"
    using assms(2,3) process.inv_step [of s u] by (auto simp: holds_request_def)
  from assms(2) show ?thesis
  proof (cases rule: process_act.cases)
    case (pop junk q cmd b)
    have n: "q_contents (task_queue s) \<noteq> []"
      using q_take_effect [of "task_queue s" q] pop(5) inv(1)
      by (fastforce simp: next_command_def process_inv_def split: option.splits)
    with assms(3) have c: "q_contents (task_queue s) = [(t, Some a)]" by (auto simp: holds_request_def)
    have "q_inv (task_queue s)" using inv(1) by (simp add: process_inv_def)
    from next_command_is [OF this c assms(1) pop(4,5)] pop(1) inv(2) show ?thesis
      by (simp add: holds_request_def)
  qed (use assms(3) inv in \<open>auto simp: holds_request_def\<close>)
qed

lemma request_read_is_held:
  assumes "process_inv s" and "phase s = Popping" and "q_contents (task_queue s) = []"
    and "NUL \<in> set (take BUFFER_SIZE pkt)" and "length (cstr pkt) < 512"
    and "process_act (Some (Received a pkt)) s u"
  shows "holds_request (cstr pkt) a u"
proof -
  have inv: "process_inv u" using assms(1,6) process.inv_step [of s u] by blast
  obtain b where b: "cstr b = cstr pkt" "\<And>q. listener_turn (Received a pkt) (request_buffer s) q =
      (case q_append q b (Some a) of None \<Rightarrow> None | Some q' \<Rightarrow> Some (Ok (q', b)))"
    by (rule listener_turn_packet [OF assms(4), of a "request_buffer s"]) blast
  have st: "stored (b, Some a) = (cstr pkt, Some a)"
    using assms(5) b(1) by (simp add: stored_def QUEUE_MSG_SIZE_def)
  have q: "q_inv (task_queue s)" using assms(1) by (simp add: process_inv_def)
  from assms(6) show ?thesis
  proof (cases rule: process_act.cases)
    case (listen q1 b1)
    then have "q_append (task_queue s) b (Some a) = Some q1" by (simp add: b(2) split: option.splits)
    from q_append_effect(2) [OF q this] listen(1) inv assms(2,3) show ?thesis
      by (simp add: holds_request_def st)
  next
    case (listen_fault e)
    then show ?thesis by (simp add: b(2) split: option.splits)
  qed
qed

text \<open>
  C25. A request that a client sends as a text with its NUL, at most 511 characters long, arrives
  at the queue manager as the command of its words, whatever the buffers and the command block
  held before: the first word decides the kind, the next 48 words, cut to 19 characters, are
  the arguments, and the sender is the datagram's source address. From a state in which the queue
  is empty and the queue manager waits, reading this one datagram can be followed by that parse,
  and no parse that follows it, before another datagram is read, gives anything else.
\<close>

theorem request_is_parsed:
  assumes "reach process_init process_step s" and "crashed (sys s) = None" and "phase s = Popping"
    and "q_contents (task_queue s) = []" and "no_nul t" and "length t < 512"
    and "words_of (remove1 DOLLAR t) \<noteq> []"
    and "pkt = wire rest (udp_socket_write server t (strlen (t @ [NUL]) + 1))"
  shows "(\<exists>s'. reacts process_act (Received a pkt) s s' \<and> sys s' = sys s \<and>
            phase s' = Parsed (request_of (words_of (remove1 DOLLAR t))) a) \<and>
         (\<forall>s' cmd b. reacts process_act (Received a pkt) s s' \<and> phase s' = Parsed cmd b \<longrightarrow>
            cmd = request_of (words_of (remove1 DOLLAR t)) \<and> b = a)"
proof -
  have w: "pkt = t @ [NUL]" using wire_text [OF assms(5)] assms(5,8) by (simp add: strlen_def cstr_append_nul)
  have pkt: "NUL \<in> set (take BUFFER_SIZE pkt)" "cstr pkt = t" "length (cstr pkt) < 512"
    using assms(5,6) by (simp_all add: w cstr_append_nul BUFFER_SIZE_def)
  have junk: "well_formed_command (demo_cmd SAY [])" by simp
  note inv = process.reach_inv [OF assms(1)]
  from datagram_popped [OF inv assms(2-4) pkt(1,3) junk, of a, unfolded pkt(2) command_of_tokens [OF junk assms(7)]]
  have "\<exists>s'. reacts process_act (Received a pkt) s s' \<and> sys s' = sys s \<and>
      phase s' = Parsed (request_of (words_of (remove1 DOLLAR t))) a"
    by fastforce
  moreover have "cmd = request_of (words_of (remove1 DOLLAR t)) \<and> b = a"
    if run: "reacts process_act (Received a pkt) s s'" and "phase s' = Parsed cmd b" for s' cmd b
  proof -
    from run obtain u where u: "process_act (Some (Received a pkt)) s u" "(process_act None)\<^sup>*\<^sup>* u s'"
      by (auto simp: reacts_def)
    from u(2) request_read_is_held [OF inv assms(3,4) pkt(1,3) u(1), unfolded pkt(2)]
    have "holds_request t a s'"
      by (induction rule: rtranclp_induct) (blast intro: own_step_holds [OF assms(7)])+
    with that(2) show ?thesis by (auto simp: holds_request_def)
  qed
  ultimately show ?thesis by blast
qed

text \<open>
  A message without a word, for instance a lone dollar sign, is not rejected. The command
  that is then executed is whatever the block from \<open>malloc\<close> held, of any kind and with any
  arguments.
\<close>

lemma blank_message_executes_junk:
  assumes "reach process_init process_step s" and "crashed (sys s) = None" and "phase s = Popping"
    and "q_contents (task_queue s) = []" and "well_formed_command junk"
  shows "\<exists>s'. process_step\<^sup>*\<^sup>* s s' \<and> phase s' = Parsed junk a"
proof -
  have c: "cstr (''$'' @ [NUL]) = ''$''" by (simp add: cstr_def)
  from datagram_popped [OF process.reach_inv [OF assms(1)] assms(2-4) _ _ assms(5), of "''$'' @ [NUL]" a, unfolded c]
  obtain q b where
    "reacts process_act (Received a (''$'' @ [NUL])) s (s\<lparr>task_queue := q, request_buffer := b, phase := Parsed junk a\<rparr>)"
    by (auto simp: command_handler_def BUFFER_SIZE_def)
  then show ?thesis by (intro exI conjI) (erule reacts_acts, simp)
qed

definition demo_process :: process where
  "demo_process = \<lparr>sys = \<lparr>srv = server_init, pool = [Manager_Sleep], sent = [], crashed = None\<rparr>,
     task_queue = demo_queue, request_buffer = replicate BUFFER_SIZE CHR ''z'',
     workers = \<lparr>qm_task_queue = 1, qm_sd = 3, qm_head = 2, qm_tail = 3, qm_client_linkedList = 4, active_worker = 0\<rparr>,
     phase = Popping\<rparr>"

lemma demo_process_init: "process_init demo_process"
proof -
  have "\<exists>q. demo_queue = queue_init q" by (auto simp: demo_queue_def)
  moreover have "length (q_data demo_queue) = QUEUE_MAX" "\<forall>n \<in> set (q_data demo_queue). length (msg n) = QUEUE_MSG_SIZE"
    by (simp_all add: demo_queue_def queue_init_def)
  moreover have "\<exists>sd v l qm c. workers demo_process = fst (snd (server_main sd v l qm c))"
    by (intro exI [of _ 3] exI [of _ "\<lparr>at_head = 2, at_tail = 3, at_task_queue = 1, at_monitor = 4\<rparr>"]
        exI [of _ undefined] exI [of _ "workers demo_process"])
       (simp add: server_main_def setup_queue_manager_args_def demo_process_def)
  ultimately show ?thesis by (simp add: process_init_def demo_process_def sys_init_def)
qed

lemma demo_process_reach [simp]: "reach process_init process_step demo_process"
  by (rule reach_init [of process_init, OF demo_process_init])

lemma demo_process_sel [simp]:
  "crashed (sys demo_process) = None" "phase demo_process = Popping"
  "task_queue demo_process = demo_queue" "pool (sys demo_process) = [Manager_Sleep]"
  by (simp_all add: demo_process_def)

theorem request_is_parsed_witness:
  "(\<exists>s'. reacts process_act (Received (peer 1) (''say$ good day'' @ [NUL])) demo_process s' \<and>
      sys s' = sys demo_process \<and> phase s' = Parsed (demo_cmd SAY [''good'', ''day'']) (peer 1)) \<and>
   \<not> (\<exists>s' cmd b. reacts process_act (Received (peer 1) (''say$ good day'' @ [NUL])) demo_process s' \<and>
      phase s' = Parsed cmd b \<and> (cmd, b) \<noteq> (demo_cmd SAY [''good'', ''day''], peer 1))"
proof -
  define t where "t = ''say$ good day''"
  have w: "words_of (remove1 DOLLAR t) = [''say'', ''good'', ''day'']"
    by (simp add: t_def words_of.simps)
  have r: "request_of [''say'', ''good'', ''day''] = demo_cmd SAY [''good'', ''day'']"
    by (simp add: request_of_def demo_cmd_def kind_of_token_def MAX_COMMAND_LEN_def NAME_SIZE_def)
  have t: "no_nul t" "length t < 512" by (simp_all add: t_def)
  have pkt: "t @ [NUL] = wire [] (udp_socket_write server t (strlen (t @ [NUL]) + 1))" for server
    using wire_text [OF t(1)] t(1) by (simp add: strlen_def cstr_append_nul)
  show ?thesis
    unfolding t_def [symmetric]
    using request_is_parsed [OF demo_process_reach _ _ _ t _ pkt, of "peer 1"]
    by (simp add: w r)
qed

lemma blank_message_executes_junk_instance:
  "\<exists>s'. process_step\<^sup>*\<^sup>* demo_process s' \<and> phase s' = Parsed (demo_cmd KICK [''eve'']) (peer 1)"
  using blank_message_executes_junk [OF demo_process_reach, of "demo_cmd KICK [''eve'']" "peer 1"]
  by (simp add: MAX_CMD_SIZE_def NAME_SIZE_def)

section \<open>What the listener reads\<close>

text \<open>
  C39. The listener depends on the sender's NUL. A datagram that carries one among its first 1024
  bytes is queued as the text before it; one that carries none is continued with what the buffer
  held before, usually the rest of an earlier datagram; and one that fills the buffer without a
  NUL makes the server read beyond it.
\<close>

theorem listener_reads:
  assumes "q_inv q" and "q_contents q = []" and "pkt \<noteq> []" and "length buf = 1024"
  shows "if NUL \<in> set (take 1024 pkt)
      then \<exists>q' b. listener_turn (Received a pkt) buf q = Some (Ok (q', b)) \<and> q_contents q' = [(take 511 (cstr pkt), Some a)]
    else if length pkt < 1024 \<and> NUL \<in> set (drop (length pkt) buf)
      then \<exists>q' b. listener_turn (Received a pkt) buf q = Some (Ok (q', b)) \<and>
             q_contents q' = [(take 511 (pkt @ cstr (drop (length pkt) buf)), Some a)]
    else listener_turn (Received a pkt) buf q = Some (Fault OutOfBounds)"
proof -
  let ?b = "take 1024 pkt @ drop (min (length pkt) 1024) buf"
  obtain q' where q': "q_append q ?b (Some a) = Some q'" "q_contents q' = [stored (?b, Some a)]"
    using q_append_None_iff [OF assms(1), of ?b "Some a"] q_append_effect [OF assms(1)] assms(2)
    by (cases "q_append q ?b (Some a)") (auto simp: QUEUE_MAX_def)
  have l: "listener_turn (Received a pkt) buf q =
      (if NUL \<notin> set ?b then Some (Fault OutOfBounds) else Some (Ok (q', ?b)))"
    using assms(3) q'(1) by (auto simp: listener_turn_def udp_socket_read_def Let_def BUFFER_SIZE_def min.commute)
  have c: "cstr ?b = cstr pkt" if "NUL \<in> set (take 1024 pkt)"
    using that by (rule cstr_in_buffer)
  have d: "cstr ?b = pkt @ cstr (drop (length pkt) buf)" if "NUL \<notin> set pkt" "length pkt < 1024"
    using that by (simp add: cstr_def takeWhile_append takeWhile_noop)
  have e: "drop 1024 buf = []" using assms(4) by simp
  show ?thesis
    using l c d q'(2) e by (auto simp: stored_def QUEUE_MSG_SIZE_def min_def split: if_splits)
qed

theorem listener_reads_witness:
  "\<exists>q' b. listener_turn (Received (peer 1) ''say$ hi'') (''say$ old secret'' @ replicate 1009 NUL) demo_queue = Some (Ok (q', b)) \<and>
     q_contents q' = [(''say$ hid secret'', Some (peer 1))]"
  using listener_reads [of demo_queue "''say$ hi''" "''say$ old secret'' @ replicate 1009 NUL" "peer 1"]
  by (simp add: cstr_def)

section \<open>The worker limit\<close>

text \<open>
  The worker pool never holds anybody back: the count goes up before a thread is started and
  down right after, not when the thread ends, so in every reachable state it is 0 or 1 and the
  check-in succeeds at once.
\<close>

lemma worker_limit_never_binds:
  assumes "reach process_init process_step s"
  shows "active_worker (workers s) \<in> {0, 1} \<and> worker_thread_checkin (workers s) \<noteq> None"
  using process.reach_inv [OF assms]
  by (auto simp: process_inv_def worker_thread_checkin_def MAX_THREADS_def split: qm_phase.splits)

lemma worker_limit_never_binds_instance:
  "worker_thread_checkin (workers demo_process) \<noteq> None"
  using worker_limit_never_binds [OF demo_process_reach] by simp

definition live_threads :: "process \<Rightarrow> nat" where
  "live_threads s = length (filter (\<lambda>th. th \<noteq> Done) (pool (sys s)))"

lemma one_more_thread:
  assumes "process_inv s" and "at_rest s"
  shows "\<exists>t. process_step\<^sup>*\<^sup>* s t \<and> at_rest t \<and> live_threads t = live_threads s + 1"
proof -
  let ?cmd = "text_command ''?''"
  have w: "words_of (remove1 DOLLAR ''?'') = [''?'']" by (simp add: words_of.simps)
  have c: "cstr (''?'' @ [NUL]) = ''?''" by (simp add: cstr_def)
  have "packet_ok (''?'' @ [NUL])" by (rule packet_ok_text) (simp_all add: w QUEUE_MSG_SIZE_def)
  from datagram_dispatched [OF assms this, of "peer 1", unfolded c] obtain q b where
    1: "reacts process_act (Received (peer 1) (''?'' @ [NUL])) s (s\<lparr>sys := dispatched ?cmd (peer 1) (sys s), task_queue := q, request_buffer := b,
      workers := (workers s)\<lparr>active_worker := 1\<rparr>, phase := Spawning\<rparr>)" "q_contents q = []" by blast
  have inv: "sys_inv (sys s)" "crashed (sys s) = None" "dispatcher_free (sys s)"
    using assms by (simp_all add: process_inv_def at_rest_def)
  obtain st where st: "mark_active 0 ?cmd (peer 1) (srv (sys s)) = Some (Ok st)"
    using represents_total(2) [of "clients (srv (sys s))" 0 "peer 1"] inv(1)
    by (cases "kind ?cmd = CONN") (auto simp: mark_active_def sys_inv_def)
  have sp: "spawn ?cmd (peer 1) = Unknown_Reply (peer 1)"
    unfolding text_command_def w by (simp add: spawn_def request_of_def kind_of_token_def)
  let ?u = "(sys s)\<lparr>srv := st, pool := pool (sys s) @ [Unknown_Reply (peer 1)]\<rparr>"
  have 2: "(process_act None)\<^sup>*\<^sup>* (s\<lparr>sys := dispatched ?cmd (peer 1) (sys s), task_queue := q, request_buffer := b,
      workers := (workers s)\<lparr>active_worker := 1\<rparr>, phase := Spawning\<rparr>)
    (s\<lparr>sys := ?u, task_queue := q, request_buffer := b, workers := (workers s)\<lparr>active_worker := 0\<rparr>, phase := Popping\<rparr>)"
    by (rule dispatch_finished [OF dispatch_moves [OF inv(1,2) st, unfolded sp]])
       (use inv in \<open>simp_all add: dispatcher_free_def\<close>)
  show ?thesis
    using reacts_acts [OF reacts_then [of process_act, OF 1(1) 2]] 1(2) inv(2) by (intro exI conjI) (assumption, simp_all add: at_rest_def live_threads_def)
qed

text \<open>
  C40. So the limit of 128 concurrent threads does not exist: for every number \<open>n\<close> the server can
  reach a state with at least \<open>n\<close> live threads, the worker count being 0.
\<close>

theorem live_threads_unbounded:
  "\<exists>s. reach process_init process_step s \<and> n \<le> live_threads s \<and> active_worker (workers s) = 0"
proof -
  have "\<exists>s. reach process_init process_step s \<and> n \<le> live_threads s \<and> at_rest s"
  proof (induction n)
    case 0
    show ?case by (intro exI [of _ demo_process]) (simp add: at_rest_def)
  next
    case (Suc n)
    then obtain s where s: "reach process_init process_step s" "n \<le> live_threads s" "at_rest s" by blast
    from one_more_thread [OF process.reach_inv [OF s(1)] s(3)] obtain t where
      t: "process_step\<^sup>*\<^sup>* s t" "at_rest t" "live_threads t = live_threads s + 1" by blast
    with s(2) reach_trans [OF t(1) s(1)] show ?case by auto
  qed
  then show ?thesis using process.reach_inv by (fastforce simp: process_inv_def at_rest_def)
qed

end
