(* ===== verification/Hash_Table.thy ===== *)
theory Hash_Table
  imports C_Strings
begin

text \<open>
  \<open>custom_hash_table.h\<close>: the client's mute table, a set of names kept in a hash table with
  separate chaining, and the extraction of the sender from a displayed line.
\<close>

definition TABLE_SIZE :: nat where "TABLE_SIZE = 100"

text \<open>A chain is the list of the keys of its nodes, in the order of the \<open>next\<close> pointers.\<close>

type_synonym hash_table = "string list list"

section \<open>Hashing\<close>

text \<open>
  \<open>unsigned long\<close> has 64 bits and \<open>char\<close> is signed on the platform of the program (x86-64), so
  a byte above 127 is added as a negative number; the sums wrap around.
\<close>

fun hash_loop :: "64 word \<Rightarrow> string \<Rightarrow> 64 word" where
  "hash_loop h [] = h"
| "hash_loop h (c # key) =
     hash_loop ((push_bit 5 h + h) + scast (of_char c :: 8 word)) key"

definition hash :: "string \<Rightarrow> nat" where
  "hash key = unat (hash_loop 5381 key mod of_nat TABLE_SIZE)"

section \<open>Operations\<close>

fun chain_has :: "string list \<Rightarrow> string \<Rightarrow> bool" where
  "chain_has [] key = False"
| "chain_has (n # ns) key = (if n = key then True else chain_has ns key)"

fun chain_unlink :: "string list \<Rightarrow> string \<Rightarrow> string list" where
  "chain_unlink [] key = []"
| "chain_unlink (n # ns) key = (if n = key then ns else n # chain_unlink ns key)"

definition empty_table :: hash_table where
  "empty_table = replicate TABLE_SIZE []"

definition insert_key :: "hash_table \<Rightarrow> string \<Rightarrow> hash_table" where
  "insert_key table key =
     (let idx = hash key
      in if chain_has (table ! idx) key then table
         else table[idx := key # table ! idx])"

definition contains :: "hash_table \<Rightarrow> string \<Rightarrow> bool" where
  "contains table key = chain_has (table ! hash key) key"

definition remove_key :: "hash_table \<Rightarrow> string \<Rightarrow> hash_table" where
  "remove_key table key =
     (let idx = hash key in table[idx := chain_unlink (table ! idx) key])"

text \<open>\<open>username\<close> is the text before the first colon, if it is not empty and fits.\<close>

definition extract_username :: "string \<Rightarrow> nat \<Rightarrow> string" where
  "extract_username message max_len =
     (case strchr message (CHR '':'') of
        Some len \<Rightarrow> if 0 < len \<and> len < max_len then take len message else ''''
      | None \<Rightarrow> '''')"

section \<open>The table as a set of names\<close>

lemma hash_bound [simp]: "hash key < TABLE_SIZE"
proof -
  have "unat (hash_loop 5381 key mod of_nat TABLE_SIZE) = unat (hash_loop 5381 key) mod 100"
    by (simp add: unat_mod_distrib TABLE_SIZE_def)
  then show ?thesis by (simp add: hash_def TABLE_SIZE_def)
qed

definition table_inv :: "hash_table \<Rightarrow> bool" where
  "table_inv t \<longleftrightarrow> length t = TABLE_SIZE \<and>
     (\<forall>i < TABLE_SIZE. distinct (t ! i) \<and> (\<forall>k \<in> set (t ! i). hash k = i))"

definition table_set :: "hash_table \<Rightarrow> string set" where
  "table_set t = {k. k \<in> set (t ! hash k)}"

lemma chain_has_iff [simp]: "chain_has ns k \<longleftrightarrow> k \<in> set ns"
  by (induction ns) auto

lemma chain_unlink_eq [simp]: "chain_unlink ns k = remove1 k ns"
  by (induction ns) auto

lemma table_inv_update:
  "table_inv t \<Longrightarrow> i < TABLE_SIZE \<Longrightarrow> distinct ns \<Longrightarrow> (\<And>k. k \<in> set ns \<Longrightarrow> hash k = i) \<Longrightarrow>
   table_inv (t[i := ns])"
  by (auto simp: table_inv_def nth_list_update)

lemma table_inv_empty: "table_inv empty_table"
  by (simp add: table_inv_def empty_table_def)

lemma table_set_empty: "table_set empty_table = {}"
  by (simp add: table_set_def empty_table_def)

lemma insert_key_inv: "table_inv t \<Longrightarrow> table_inv (insert_key t k)"
  by (auto simp: insert_key_def Let_def table_inv_def nth_list_update)

lemma insert_key_set: "table_inv t \<Longrightarrow> table_set (insert_key t k) = insert k (table_set t)"
  by (auto simp: table_set_def insert_key_def Let_def table_inv_def nth_list_update split: if_splits)

lemma remove_key_inv: "table_inv t \<Longrightarrow> table_inv (remove_key t k)"
  by (auto simp: remove_key_def Let_def table_inv_def nth_list_update dest: notin_set_remove1)

lemma remove_key_set: "table_inv t \<Longrightarrow> table_set (remove_key t k) = table_set t - {k}"
  by (auto simp: table_set_def remove_key_def Let_def table_inv_def nth_list_update
        set_remove1_eq split: if_splits)

lemma contains_set: "contains t k \<longleftrightarrow> k \<in> table_set t"
  by (simp add: contains_def table_set_def)

section \<open>The contract of a set of names\<close>

datatype 'k set_op = Add 'k | Del 'k

fun apply_ops :: "('t \<Rightarrow> 'k \<Rightarrow> 't) \<Rightarrow> ('t \<Rightarrow> 'k \<Rightarrow> 't) \<Rightarrow> 't \<Rightarrow> 'k set_op list \<Rightarrow> 't" where
  "apply_ops add del t [] = t"
| "apply_ops add del t (Add k # ops) = apply_ops add del (add t k) ops"
| "apply_ops add del t (Del k # ops) = apply_ops add del (del t k) ops"

text \<open>Whether the last operation on a key added it; \<open>b\<close> is the answer before the operations.\<close>

fun last_added :: "bool \<Rightarrow> 'k \<Rightarrow> 'k set_op list \<Rightarrow> bool" where
  "last_added b k [] = b"
| "last_added b k (Add j # ops) = last_added (if j = k then True else b) k ops"
| "last_added b k (Del j # ops) = last_added (if j = k then False else b) k ops"

locale name_set =
  fixes empty :: "'t"
    and add :: "'t \<Rightarrow> 'k \<Rightarrow> 't"
    and del :: "'t \<Rightarrow> 'k \<Rightarrow> 't"
    and has :: "'t \<Rightarrow> 'k \<Rightarrow> bool"
    and elems :: "'t \<Rightarrow> 'k set"
    and inv :: "'t \<Rightarrow> bool"
  assumes inv_empty: "inv empty"
    and inv_add: "inv t \<Longrightarrow> inv (add t k)"
    and inv_del: "inv t \<Longrightarrow> inv (del t k)"
    and elems_empty: "elems empty = {}"
    and elems_add: "inv t \<Longrightarrow> elems (add t k) = insert k (elems t)"
    and elems_del: "inv t \<Longrightarrow> elems (del t k) = elems t - {k}"
    and has_elems: "inv t \<Longrightarrow> has t k \<longleftrightarrow> k \<in> elems t"
begin

lemma has_empty: "\<not> has empty k"
  by (simp add: has_elems inv_empty elems_empty)

lemma has_add: "inv t \<Longrightarrow> has (add t j) k \<longleftrightarrow> k = j \<or> has t k"
  by (simp add: has_elems inv_add elems_add)

lemma has_del: "inv t \<Longrightarrow> has (del t j) k \<longleftrightarrow> k \<noteq> j \<and> has t k"
  by (auto simp: has_elems inv_del elems_del)

lemma inv_ops: "inv t \<Longrightarrow> inv (apply_ops add del t ops)"
proof (induction ops arbitrary: t)
  case Nil
  then show ?case by simp
next
  case (Cons a ops)
  then show ?case by (cases a) (auto simp: inv_add inv_del)
qed

lemma has_ops: "inv t \<Longrightarrow> has (apply_ops add del t ops) k \<longleftrightarrow> last_added (has t k) k ops"
proof (induction ops arbitrary: t)
  case Nil
  then show ?case by simp
next
  case (Cons a ops)
  then show ?case by (cases a) (auto simp: inv_add inv_del has_add has_del)
qed

lemma filter_add_del:
  assumes "inv t" and "\<not> has t k"
  shows "filter (\<lambda>m. \<not> has (del (add t k) k) (f m)) ms = filter (\<lambda>m. \<not> has t (f m)) ms"
  using assms by (intro filter_cong) (auto simp: has_add has_del inv_add)

lemma filter_add:
  "inv t \<Longrightarrow> filter (\<lambda>m. \<not> has (add t k) (f m)) ms
            = filter (\<lambda>m. f m \<noteq> k) (filter (\<lambda>m. \<not> has t (f m)) ms)"
  by (auto simp: has_add intro!: filter_cong)

end

interpretation mutes: name_set empty_table insert_key remove_key contains table_set table_inv
  by unfold_locales
     (simp_all add: table_inv_empty insert_key_inv remove_key_inv table_set_empty insert_key_set
        remove_key_set contains_set)

section \<open>Properties\<close>

text \<open>
  C33. After any sequence of inserts and removals on the empty table a name is found exactly
  when the last operation on it was an insert, whatever names collide in a bucket.
\<close>

theorem hash_table_is_set:
  "contains (apply_ops insert_key remove_key empty_table ops) k \<longleftrightarrow> last_added False k ops"
  using mutes.has_ops [OF table_inv_empty, of ops k] mutes.has_empty [of k] by simp

text \<open>
  The sender of a broadcast line is recovered from it: for every name that is not empty,
  holds no colon and fits its field, the text \<open>name: message\<close> yields the name.
\<close>

lemma extract_username_roundtrip:
  assumes "name \<noteq> []" and "CHR '':'' \<notin> set name" and "length name < max_len"
    and "no_nul name"
  shows "extract_username (name @ '': '' @ message) max_len = name"
proof -
  have "cstr (name @ '': '' @ message) = name @ CHR '':'' # SP # cstr message"
    using assms(4) by (simp add: cstr_def no_nul_def takeWhile_append takeWhile_noop)
  then have "strchr (name @ '': '' @ message) (CHR '':'') = Some (length name)"
    using assms(2) by (simp add: strchr_def strlen_def takeWhile_stop Let_def)
  with assms show ?thesis by (simp add: extract_username_def)
qed

lemma extract_username_roundtrip_instance:
  "extract_username ''Bob: hi: there'' 20 = ''Bob''"
  using extract_username_roundtrip [of "''Bob''" 20 "''hi: there''"] by simp

text \<open>The sender of a chat line.\<close>

lemma extract_sender:
  assumes "is_word n" and "length n < 20" and "CHR '':'' \<notin> set n"
  shows "extract_username (n @ '': '' @ t) 20 = n"
proof -
  have "cstr (n @ '': '' @ t) = n @ CHR '':'' # SP # cstr t"
    using assms(1) by (simp add: is_word_def cstr_def no_nul_def takeWhile_append takeWhile_noop)
  then have "strchr (n @ '': '' @ t) (CHR '':'') = Some (length n)"
    using assms(3) by (simp add: strchr_def strlen_def takeWhile_stop Let_def)
  with assms(1,2) show ?thesis by (simp add: extract_username_def is_word_def)
qed

end
