(* ===== verification/Client.thy ===== *)
theory Client
  imports Cmd Queue Hash_Table
begin

text \<open>
  The client of \<open>client_types.h\<close> and \<open>client_interface.c\<close>: its state, the execution of the commands
  the server sends, the screen, and what the user types. What its threads do together is in theory
  \<open>Client_Threads\<close>.
\<close>

section \<open>State\<close>

record client_t =
  cname :: string
  connected :: bool
  sd :: int
  server_addr :: sockaddr_in
  responder_addr :: sockaddr_in
  mute_table :: hash_table

text \<open>
  What the handler threads and the display share under the message mutex: the array
  \<open>messages[MAX_MSGS][MAX_LEN]\<close>, each row as the C string it holds, and the number of rows in use.
\<close>

record chat =
  cli :: client_t
  messages :: "string list"
  message_count :: nat

definition setup_client :: "client_t \<Rightarrow> client_t" where
  "setup_client c = c\<lparr>sd := 0, connected := False, mute_table := replicate TABLE_SIZE []\<rparr>"

definition LOCALHOST :: string where "LOCALHOST = ''127.0.0.1''"

definition init_client_socket ::
  "(string \<Rightarrow> 32 word option) \<Rightarrow> int \<Rightarrow> (sockaddr_in \<Rightarrow> int) \<Rightarrow> client_t \<Rightarrow> client_t \<times> sock_call list" where
  "init_client_socket inet_pton sock bound c =
     (let (s, calls) = udp_socket_open inet_pton sock bound 0
      in if s < 0 then (c, calls)
         else let (addr, rc) = set_socket_addr inet_pton (Some LOCALHOST) SERVER_PORT
              in if rc < 0 then (c, calls @ [Close s])
                 else (c\<lparr>sd := s, server_addr := addr\<rparr>, calls))"

definition connect_command ::
  "(string \<Rightarrow> 32 word option) \<Rightarrow> int \<Rightarrow> (sockaddr_in \<Rightarrow> int) \<Rightarrow> client_t \<Rightarrow> string \<Rightarrow> client_t res" where
  "connect_command inet_pton sock bound c name =
     (let (s, calls) = udp_socket_open inet_pton sock bound 0;
          (addr, rc) = set_socket_addr inet_pton (Some LOCALHOST) SERVER_PORT;
          c1 = c\<lparr>sd := s, server_addr := addr\<rparr>
      in if rc \<le> 0 then Ok c1
         else res_bind (strcpy NAME_SIZE name) (\<lambda>n. Ok (c1\<lparr>cname := n, connected := True\<rparr>)))"

section \<open>Joining the arguments\<close>

definition JOIN_SIZE :: nat where "JOIN_SIZE = 300"

text \<open>\<open>strcat\<close> into a static buffer, with no check; the row behind the last one is not there.\<close>

function join_loop :: "string list \<Rightarrow> nat \<Rightarrow> string \<Rightarrow> string res" where
  "join_loop arr i result =
     (if i \<ge> MAX_CMD_SIZE then Fault OutOfBounds
      else if arr ! i = '''' then Ok result
      else res_bind (strcat JOIN_SIZE result (arr ! i)) (\<lambda>r1.
           if i + 1 \<ge> MAX_CMD_SIZE then Fault OutOfBounds
           else if arr ! (i + 1) \<noteq> ''''
                then res_bind (strcat JOIN_SIZE r1 '' '') (\<lambda>r2. join_loop arr (i + 1) r2)
                else join_loop arr (i + 1) r1))"
  by pat_completeness auto
termination
  by (relation "measure (\<lambda>(arr, i, _). MAX_CMD_SIZE - i)") auto

declare join_loop.simps [simp del]

definition join :: "string list \<Rightarrow> string res" where
  "join arr = join_loop arr 0 ''''"

section \<open>Executing the server's commands\<close>

abbreviation NL :: char where "NL \<equiv> CHR 0x0A"
abbreviation ESC :: char where "ESC \<equiv> CHR 0x1B"

definition prompt :: "client_t \<Rightarrow> string" where
  "prompt c = (if connected c then ''['' @ cname c @ ''] > '' else ''[Not connected] > '')"

text \<open>
  Each handler yields the new state and what it prints. The code never tests the number of rows in use:
  where a line would be written behind the last row the model's run ends with a fault, so that
  in the runs of the model the number stays within the array, while the program would go on.
\<close>

definition say_exec :: "command_t \<Rightarrow> chat \<Rightarrow> (chat \<times> string list) res" where
  "say_exec cmd st =
     res_bind (join (args cmd)) (\<lambda>result.
       if message_count st \<ge> length (messages st) then Fault BufferOverflow
       else res_bind (strcpy MAX_LEN result) (\<lambda>row.
         Ok (st\<lparr>messages := (messages st)[message_count st := row],
                message_count := message_count st + 1\<rparr>, [])))"

definition mute_exec :: "command_t \<Rightarrow> chat \<Rightarrow> (chat \<times> string list) res" where
  "mute_exec cmd st =
     Ok (st\<lparr>cli := (cli st)\<lparr>mute_table := insert_key (mute_table (cli st)) (args cmd ! 0)\<rparr>\<rparr>, [])"

definition unmute_exec :: "command_t \<Rightarrow> chat \<Rightarrow> (chat \<times> string list) res" where
  "unmute_exec cmd st =
     Ok (st\<lparr>cli := (cli st)\<lparr>mute_table := remove_key (mute_table (cli st)) (args cmd ! 0)\<rparr>\<rparr>, [])"

definition rename_exec :: "command_t \<Rightarrow> chat \<Rightarrow> (chat \<times> string list) res" where
  "rename_exec cmd st =
     res_bind (strcpy NAME_SIZE (args cmd ! 0)) (\<lambda>n.
       Ok (st\<lparr>cli := (cli st)\<lparr>cname := n\<rparr>\<rparr>, [''Successfully renamed as: '' @ n @ [NL]]))"

definition execute_connect_response :: "command_t \<Rightarrow> chat \<Rightarrow> (chat \<times> string list) res" where
  "execute_connect_response cmd st =
     res_bind (strcpy NAME_SIZE (args cmd ! 0)) (\<lambda>n.
       Ok (st\<lparr>cli := (cli st)\<lparr>connected := True, cname := n\<rparr>\<rparr>,
           [''Successfully connected as: '' @ n @ [NL]]))"

definition execute_connect_failed :: "command_t \<Rightarrow> chat \<Rightarrow> (chat \<times> string list) res" where
  "execute_connect_failed cmd st =
     res_bind (join (args cmd)) (\<lambda>e.
       Ok (st, [''Connection failed: '' @ e @ [NL], ''Please try again with a different username.'' @ [NL]]))"

definition execute_error_response :: "command_t \<Rightarrow> chat \<Rightarrow> (chat \<times> string list) res" where
  "execute_error_response cmd st =
     res_bind (join (args cmd)) (\<lambda>e. Ok (st, [''Error from server: '' @ e @ [NL], prompt (cli st)]))"

definition execute_disconnect_response :: "chat \<Rightarrow> (chat \<times> string list) res" where
  "execute_disconnect_response st =
     Ok (st\<lparr>cli := (cli st)\<lparr>connected := False\<rparr>, message_count := 0\<rparr>, [''Disconnected from server.'' @ [NL]])"

definition execute_ping :: "chat \<Rightarrow> (chat \<times> string list) res" where
  "execute_ping st =
     Ok (st, [NL # ''[SERVER] Ping received! Type '' @ [CHR 0x27] @ ''retping$'' @ [CHR 0x27] @
              '' to stay connected.'' @ [NL],
              ''['' @ cname (cli st) @ ''] > ''])"

definition execute_server_command :: "command_t \<Rightarrow> chat \<Rightarrow> (chat \<times> string list) res" where
  "execute_server_command cmd st =
     (case kind cmd of
        CONN_SUCCESS \<Rightarrow> execute_connect_response cmd st
      | CONN_FAILED \<Rightarrow> execute_connect_failed cmd st
      | DISCONN_RESPONSE \<Rightarrow> execute_disconnect_response st
      | ERROR \<Rightarrow> execute_error_response cmd st
      | SAY \<Rightarrow> say_exec cmd st
      | MUTE \<Rightarrow> mute_exec cmd st
      | UNMUTE \<Rightarrow> unmute_exec cmd st
      | RENAME \<Rightarrow> rename_exec cmd st
      | PING \<Rightarrow> execute_ping st
      | _ \<Rightarrow> Ok (st, []))"

text \<open>\<open>junk\<close> is the uninitialised local \<open>cmd\<close>.\<close>

definition handle_cli_side_cmd :: "command_t \<Rightarrow> string list \<Rightarrow> chat \<Rightarrow> (chat \<times> string list) res" where
  "handle_cli_side_cmd junk tokenised_command st =
     execute_server_command (command_handler junk (Some tokenised_command)) st"

section \<open>The screen\<close>

fun display_loop :: "hash_table \<Rightarrow> string list \<Rightarrow> string list" where
  "display_loop table [] = []"
| "display_loop table (m # ms) =
     (if contains table (extract_username m NAME_SIZE) then display_loop table ms
      else (m @ [NL]) # display_loop table ms)"

definition clear_home :: string where "clear_home = [ESC] @ ''[2J'' @ [ESC] @ ''[H''"
definition rule_line :: string where "rule_line = ''---------------------'' @ [NL]"

definition first_screen :: "client_t \<Rightarrow> string list" where
  "first_screen c =
     [[ESC] @ ''[?1049h'', clear_home, ''Chat Messages:'' @ [NL, NL], rule_line, prompt c]"

definition redraw :: "chat \<Rightarrow> string list" where
  "redraw st =
     [clear_home, ''Chat Messages:'' @ [NL, NL]] @
     display_loop (mute_table (cli st)) (take (message_count st) (messages st)) @
     [NL # rule_line, prompt (cli st)]"

section \<open>What the user types\<close>

datatype ui_action = Send datagram | Print string | Exit_Process

text \<open>\<open>input\<close> is what \<open>fgets\<close> put into the buffer, shorter than \<open>MAX_LEN\<close>; \<open>None\<close> is the end of file.\<close>

definition strip_newline :: "string \<Rightarrow> string" where
  "strip_newline input = takeWhile (\<lambda>c. c \<noteq> NL) input"

definition send_text :: "client_t \<Rightarrow> string \<Rightarrow> ui_action" where
  "send_text c t = Send (udp_socket_write (server_addr c) t (length t + 1))"

definition leave_screen :: "ui_action list" where
  "leave_screen = [Print ([ESC] @ ''[?1049l''), Print (''Exiting...'' @ [NL]), Exit_Process]"

definition send_connect_request :: "client_t \<Rightarrow> string \<Rightarrow> ui_action list" where
  "send_connect_request c username = [send_text c (snprintf BUFFER_SIZE (''conn$ '' @ username))]"

text \<open>The threads pass their wait when the connection state is theirs.\<close>

definition pre_connection_awake :: "client_t \<Rightarrow> bool" where
  "pre_connection_awake c \<longleftrightarrow> \<not> connected c"

definition user_input_awake :: "client_t \<Rightarrow> bool" where
  "user_input_awake c \<longleftrightarrow> connected c"

text \<open>The rest of a turn, \<open>c\<close> being the client after \<open>fgets\<close> returned.\<close>

definition user_input_pre_connection ::
  "(string \<Rightarrow> 32 word option) \<Rightarrow> int \<Rightarrow> (sockaddr_in \<Rightarrow> int) \<Rightarrow> string option \<Rightarrow> client_t
   \<Rightarrow> client_t \<times> ui_action list" where
  "user_input_pre_connection inet_pton sock bound fgets c =
     (case fgets of
        None \<Rightarrow> (c, [])
      | Some raw \<Rightarrow>
          (let input = strip_newline raw
           in if input = '':q'' then (c, leave_screen)
              else if connected c then (c, if 0 < length input then [send_text c input] else [])
              else if take 6 input = ''conn$ '' then
                (let username = drop 6 input
                 in if 0 < length username then
                      (let c1 = (if sd c = 0 then fst (init_client_socket inet_pton sock bound c) else c)
                       in (c1, send_connect_request c1 username))
                    else (c, [Print (''Error: Username cannot be empty.'' @ [NL]), Print ''[Not connected] > '']))
              else if 0 < length input
                then (c, [Print (''Error: Not connected.'' @ [NL]), Print ''[Not connected] > ''])
              else (c, [])))"

definition user_input :: "string option \<Rightarrow> client_t \<Rightarrow> ui_action list" where
  "user_input fgets c =
     (case fgets of
        None \<Rightarrow> []
      | Some raw \<Rightarrow>
          (let input = strip_newline raw
           in if input = '':q'' then send_text c ''disconn$'' # leave_screen
              else if input = ''disconn$'' then [send_text c input, Print (''Disconnecting...'' @ [NL])]
              else if 0 < length input then [send_text c input] else []))"

section \<open>Joining in closed form\<close>

lemma unwords_snoc: "ws \<noteq> [] \<Longrightarrow> unwords (ws @ [w]) = unwords ws @ SP # w"
  by (induction ws rule: unwords.induct) simp_all

lemma unwords_append: "xs \<noteq> [] \<Longrightarrow> ys \<noteq> [] \<Longrightarrow> unwords (xs @ ys) = unwords xs @ SP # unwords ys"
  by (induction xs rule: unwords.induct) (auto simp: neq_Nil_conv)

lemma join_loop_eq:
  assumes "length arr = MAX_CMD_SIZE" and "ws = takeWhile (\<lambda>w. w \<noteq> '''') (drop i arr)"
    and "i + length ws < MAX_CMD_SIZE"
  shows "join_loop arr i result =
    (if length result + length (unwords ws) < JOIN_SIZE \<or> ws = [] then Ok (result @ unwords ws)
     else Fault BufferOverflow)"
  using assms(2,3)
proof (induction ws arbitrary: i result)
  case Nil
  then have "i < length arr" using assms(1) by simp
  then have "drop i arr = arr ! i # drop (Suc i) arr" by (simp add: Cons_nth_drop_Suc)
  with Nil.prems(1) have "arr ! i = ''''" by (simp split: if_splits)
  with Nil show ?case by (subst join_loop.simps) simp
next
  case (Cons w ws)
  have i: "i < length arr" using Cons.prems(2) assms(1) by simp
  then have dr: "drop i arr = arr ! i # drop (Suc i) arr" by (simp add: Cons_nth_drop_Suc)
  with Cons.prems(1) have w: "arr ! i = w" "w \<noteq> ''''" "ws = takeWhile (\<lambda>w. w \<noteq> '''') (drop (Suc i) arr)"
    by (auto split: if_splits)
  have len: "Suc i + length ws < MAX_CMD_SIZE" using Cons.prems(2) by simp
  then have si: "Suc i < length arr" using assms(1) by simp
  have next_row: "arr ! Suc i = '''' \<longleftrightarrow> ws = []"
    unfolding w(3) Cons_nth_drop_Suc [OF si, symmetric] by simp
  note IH = Cons.IH [OF w(3) len]
  show ?case
    using i si w(1,2) next_row assms(1) len IH
    by (subst join_loop.simps) (cases ws; auto simp: strcat_def JOIN_SIZE_def)
qed

lemma join_eq:
  assumes "length arr = MAX_CMD_SIZE" and "ws = takeWhile (\<lambda>w. w \<noteq> '''') arr" and "length ws < MAX_CMD_SIZE"
  shows "join arr = (if length (unwords ws) < JOIN_SIZE then Ok (unwords ws) else Fault BufferOverflow)"
  using join_loop_eq [OF assms(1), of ws 0 "''''"] assms(2,3)
  by (auto simp: join_def JOIN_SIZE_def)

text \<open>
  Joining a command's arguments gives them separated by single spaces, provided the result
  has at most 299 characters; a longer one overruns the static buffer. The one row that must
  be empty is there for every command parsed from a message.
\<close>

lemma join_joins_or_overflows:
  assumes "length arr = 50" and "ws = takeWhile (\<lambda>w. w \<noteq> '''') arr" and "length ws < 50"
  shows "join arr = (if length (unwords ws) < 300 then Ok (unwords ws) else Fault BufferOverflow)"
  using join_eq [of arr ws] assms by (simp add: MAX_CMD_SIZE_def JOIN_SIZE_def)

lemma join_joins_or_overflows_instance:
  "join ([''good'', ''day''] @ replicate 48 '''') = Ok ''good day''"
  using join_joins_or_overflows [of "[''good'', ''day''] @ replicate 48 ''''" "[''good'', ''day'']"] by simp

lemma join_loop_length:
  "join_loop arr i result = Ok t \<Longrightarrow> length result < JOIN_SIZE \<Longrightarrow> length t < JOIN_SIZE"
proof (induction arr i result rule: join_loop.induct)
  case (1 arr i result)
  then show ?case
    by (auto simp: join_loop.simps [of arr i result] strcat_def split: if_splits)
qed

lemma join_length: "join arr = Ok t \<Longrightarrow> length t < JOIN_SIZE"
  unfolding join_def by (erule join_loop_length) (simp add: JOIN_SIZE_def)

section \<open>Sequences of commands\<close>

fun execute_all :: "command_t list \<Rightarrow> chat \<Rightarrow> (chat \<times> string list) res" where
  "execute_all [] st = Ok (st, [])"
| "execute_all (cmd # cmds) st =
     res_bind (execute_server_command cmd st) (\<lambda>(st1, out1).
     res_bind (execute_all cmds st1) (\<lambda>(st2, out2). Ok (st2, out1 @ out2)))"

lemma execute_all_says:
  assumes "\<forall>cmd \<in> set cmds. kind cmd = SAY \<and> join (args cmd) = Ok (text_of cmd)"
    and "length (messages st) = MAX_MSGS" and "message_count st \<le> MAX_MSGS"
  shows "if message_count st + length cmds \<le> MAX_MSGS
    then \<exists>st'. execute_all cmds st = Ok (st', []) \<and> message_count st' = message_count st + length cmds
      \<and> take (message_count st') (messages st') = take (message_count st) (messages st) @ map text_of cmds
      \<and> cli st' = cli st
    else execute_all cmds st = Fault BufferOverflow"
  using assms
proof (induction cmds arbitrary: st)
  case Nil
  then show ?case by simp
next
  case (Cons cmd cmds)
  have j: "join (args cmd) = Ok (text_of cmd)" and k: "kind cmd = SAY" using Cons.prems(1) by simp_all
  have fits: "strcpy MAX_LEN (text_of cmd) = Ok (text_of cmd)"
    using join_length [OF j] by (simp add: strcpy_def JOIN_SIZE_def MAX_LEN_def)
  show ?case
  proof (cases "message_count st < MAX_MSGS")
    case False
    with Cons.prems(2,3) j k show ?thesis by (simp add: execute_server_command_def say_exec_def)
  next
    case True
    let ?st = "st\<lparr>messages := (messages st)[message_count st := text_of cmd],
                  message_count := message_count st + 1\<rparr>"
    have e: "execute_server_command cmd st = Ok (?st, [])"
      using True Cons.prems(2) j k fits by (simp add: execute_server_command_def say_exec_def)
    have "take (Suc (message_count st)) ((messages st)[message_count st := text_of cmd]) =
        take (message_count st) (messages st) @ [text_of cmd]"
      using True Cons.prems(2) by (simp add: take_Suc_conv_app_nth)
    with e Cons.IH [of ?st] Cons.prems True show ?thesis by (auto split: if_splits)
  qed
qed

text \<open>
  The client records the lines it is sent in order, up to a hundred; the array is never
  emptied while the client stays connected, nothing checks its end, and the hundred and first
  line is written behind it.
\<close>

lemma client_overflows_after_hundred_lines:
  assumes "length (messages st) = 100" and "message_count st = 0"
    and "\<forall>cmd \<in> set cmds. kind cmd = SAY \<and> join (args cmd) = Ok (text_of cmd)"
  shows "if length cmds \<le> 100
    then \<exists>st'. execute_all cmds st = Ok (st', []) \<and> message_count st' = length cmds
      \<and> take (length cmds) (messages st') = map text_of cmds
    else execute_all cmds st = Fault BufferOverflow"
  using execute_all_says [of cmds text_of st] assms by (auto simp: MAX_MSGS_def)

definition demo_client :: client_t where
  "demo_client = \<lparr>cname = ''ann'', connected = True, sd = 3, server_addr = zero_addr,
     responder_addr = zero_addr, mute_table = empty_table\<rparr>"

definition demo_chat :: chat where
  "demo_chat = \<lparr>cli = demo_client, messages = replicate 100 '''', message_count = 0\<rparr>"

definition demo_line :: command_t where
  "demo_line = \<lparr>kind = SAY, args = [''bob:'', ''hi''] @ replicate 48 ''''\<rparr>"

lemma demo_line_join: "join (args demo_line) = Ok ''bob: hi''"
proof -
  have "length (args demo_line) = MAX_CMD_SIZE" "[''bob:'', ''hi''] = takeWhile (\<lambda>w. w \<noteq> '''') (args demo_line)"
    by (simp_all add: demo_line_def MAX_CMD_SIZE_def)
  from join_eq [OF this] show ?thesis by (simp add: MAX_CMD_SIZE_def JOIN_SIZE_def)
qed

lemma demo_sel [simp]:
  "kind demo_line = SAY" "length (messages demo_chat) = 100" "message_count demo_chat = 0"
  "cli demo_chat = demo_client" "connected demo_client" "mute_table demo_client = empty_table"
  "cname demo_client = ''ann''"
  by (simp_all add: demo_line_def demo_chat_def demo_client_def)

lemma client_overflows_after_hundred_lines_instance:
  "execute_all (replicate 101 demo_line) demo_chat = Fault BufferOverflow"
proof -
  have "\<forall>cmd \<in> set (replicate 101 demo_line). kind cmd = SAY \<and> join (args cmd) = Ok ''bob: hi''"
    using demo_line_join by simp
  from client_overflows_after_hundred_lines [OF demo_sel(2,3) this] show ?thesis
    by (simp only: length_replicate)
qed

text \<open>The connection state after some commands, \<open>b\<close> being the state before.\<close>

fun connected_after :: "bool \<Rightarrow> command_kind list \<Rightarrow> bool" where
  "connected_after b [] = b"
| "connected_after b (k # ks) =
     connected_after (if k = CONN_SUCCESS then True else if k = DISCONN_RESPONSE then False else b) ks"

lemma execute_connected:
  "execute_server_command cmd st = Ok (st', out) \<Longrightarrow>
   connected (cli st') = connected_after (connected (cli st)) [kind cmd]"
  by (cases "kind cmd")
     (auto simp: execute_server_command_def execute_connect_response_def execute_connect_failed_def
       execute_disconnect_response_def execute_error_response_def say_exec_def mute_exec_def
       unmute_exec_def rename_exec_def execute_ping_def res_bind_def split: sum.splits if_splits)

text \<open>
  The client believes that it is connected exactly when the last \<open>connsuccess$\<close> it executed
  is later than the last \<open>disconnresponse$\<close>; no other command changes the state.
\<close>

lemma connection_state_machine:
  assumes "execute_all cmds st = Ok (st', out)"
  shows "connected (cli st') = connected_after (connected (cli st)) (map kind cmds)"
  using assms
proof (induction cmds arbitrary: st out)
  case Nil
  then show ?case by simp
next
  case (Cons cmd cmds)
  then obtain st1 out1 out2 where "execute_server_command cmd st = Ok (st1, out1)"
    "execute_all cmds st1 = Ok (st', out2)"
    by (auto simp: res_bind_def split: sum.splits prod.splits)
  from Cons.IH [OF this(2)] execute_connected [OF this(1)] show ?case by simp
qed

lemma connection_state_machine_instance:
  "\<exists>st' out. execute_all [\<lparr>kind = DISCONN_RESPONSE, args = []\<rparr>, demo_line] demo_chat = Ok (st', out)
     \<and> \<not> connected (cli st')"
proof -
  let ?cmds = "[\<lparr>kind = DISCONN_RESPONSE, args = []\<rparr>, demo_line]"
  obtain st' out where e: "execute_all ?cmds demo_chat = Ok (st', out)"
    using demo_line_join
    by (auto simp: execute_server_command_def execute_disconnect_response_def say_exec_def
        strcpy_def MAX_LEN_def)
  from connection_state_machine [OF e] e show ?thesis by (intro exI [of _ st'] exI [of _ out]) simp
qed

section \<open>Muting\<close>

lemma display_loop_eq:
  "display_loop t ms = map (\<lambda>m. m @ [NL]) (filter (\<lambda>m. \<not> contains t (extract_username m NAME_SIZE)) ms)"
  by (induction ms) auto

definition mute_op :: "command_t \<Rightarrow> string set_op" where
  "mute_op cmd = (if kind cmd = MUTE then Add (args cmd ! 0) else Del (args cmd ! 0))"

lemma execute_mutes:
  assumes "\<forall>cmd \<in> set cmds. kind cmd \<in> {MUTE, UNMUTE}"
  shows "\<exists>st'. execute_all cmds st = Ok (st', []) \<and>
    mute_table (cli st') = apply_ops insert_key remove_key (mute_table (cli st)) (map mute_op cmds) \<and>
    messages st' = messages st \<and> message_count st' = message_count st"
  using assms
proof (induction cmds arbitrary: st)
  case Nil
  then show ?case by simp
next
  case (Cons cmd cmds)
  let ?t = "apply_ops insert_key remove_key (mute_table (cli st)) [mute_op cmd]"
  let ?st = "st\<lparr>cli := (cli st)\<lparr>mute_table := ?t\<rparr>\<rparr>"
  have e: "execute_server_command cmd st = Ok (?st, [])"
    using Cons.prems by (auto simp: execute_server_command_def mute_exec_def unmute_exec_def mute_op_def)
  have step: "apply_ops insert_key remove_key ?t ops =
      apply_ops insert_key remove_key (mute_table (cli st)) (mute_op cmd # ops)" for ops
    by (cases "mute_op cmd") simp_all
  from Cons.IH [of ?st] Cons.prems obtain st' where
    "execute_all cmds ?st = Ok (st', [])" "messages st' = messages st" "message_count st' = message_count st"
    "mute_table (cli st') = apply_ops insert_key remove_key ?t (map mute_op cmds)" by auto
  with e step show ?case by (intro exI [of _ st']) simp
qed

text \<open>
  C28. After any sequence of mutes and unmutes, the screen shows the recorded lines in order
  without those whose sender was last muted; unmuting brings a sender's old lines back, for the
  lines themselves are not touched.
\<close>

theorem screen_hides_muted:
  assumes "mute_table (cli st) = empty_table" and "\<forall>cmd \<in> set cmds. kind cmd \<in> {MUTE, UNMUTE}"
  shows "\<exists>st'. execute_all cmds st = Ok (st', []) \<and>
    redraw st' = [clear_home, ''Chat Messages:'' @ [NL, NL]] @
      map (\<lambda>m. m @ [NL]) (filter (\<lambda>m. \<not> last_added False (extract_username m 20) (map mute_op cmds))
        (take (message_count st) (messages st))) @
      [NL # rule_line, prompt (cli st')]"
proof -
  from execute_mutes [OF assms(2), of st] obtain st' where st': "execute_all cmds st = Ok (st', [])"
    "mute_table (cli st') = apply_ops insert_key remove_key empty_table (map mute_op cmds)"
    "messages st' = messages st" "message_count st' = message_count st"
    using assms(1) by auto
  have "contains (mute_table (cli st')) k \<longleftrightarrow> last_added False k (map mute_op cmds)" for k
    unfolding st'(2) using mutes.has_ops [OF table_inv_empty, of "map mute_op cmds" k] mutes.has_empty [of k]
    by simp
  with st' show ?thesis by (auto simp: redraw_def display_loop_eq NAME_SIZE_def)
qed

theorem screen_hides_muted_witness:
  "\<exists>st'. execute_all [\<lparr>kind = MUTE, args = [''bob'']\<rparr>]
      (demo_chat\<lparr>messages := [''bob: hi'', ''eve: ho''], message_count := 2\<rparr>) = Ok (st', []) \<and>
    redraw st' = [clear_home, ''Chat Messages:'' @ [NL, NL], ''eve: ho'' @ [NL], NL # rule_line, ''[ann] > '']"
proof -
  let ?st = "demo_chat\<lparr>messages := [''bob: hi'', ''eve: ho''], message_count := 2\<rparr>"
  have "mute_table (cli ?st) = empty_table" by (simp add: demo_chat_def demo_client_def)
  from screen_hides_muted [OF this, of "[\<lparr>kind = MUTE, args = [''bob'']\<rparr>]"] show ?thesis
    by (auto simp: mute_op_def extract_username_def strchr_def cstr_def strlen_def prompt_def
        execute_server_command_def mute_exec_def demo_chat_def demo_client_def Let_def)
qed

section \<open>Connecting\<close>

text \<open>
  \<open>connect_command\<close> takes the success of \<open>set_socket_addr\<close>, which is 0, for a failure: it never
  connects a client and never sets the name.
\<close>

lemma connect_command_never_connects:
  "\<exists>c'. connect_command inet_pton sock bound c name = Ok c' \<and> connected c' = connected c \<and> cname c' = cname c"
  by (auto simp: connect_command_def set_socket_addr_def Let_def split: option.splits prod.splits)

lemma init_client_socket_connected [simp]: "connected (fst (init_client_socket f s b c)) = connected c"
  by (auto simp: init_client_socket_def Let_def split: prod.splits)

text \<open>
  While the client is not connected, the only datagrams its user can cause are requests to
  connect, with a name that is not empty, to the server's address; while it is connected, every
  line goes to the server as it was typed, with its NUL.
\<close>

lemma input_is_gated:
  assumes "user_input_pre_connection inet_pton sock bound (Some raw) c = (c', acts)"
    and "no_nul raw" and "length raw < 1024" and "Send d \<in> set acts"
  shows "to_addr d = server_addr c' \<and> terminated d \<and> connected c' = connected c \<and>
    (if connected c then c' = c \<and> payload d = strip_newline raw \<and> user_input (Some raw) c = (if payload d = ''disconn$''
        then [Send d, Print (''Disconnecting...'' @ [NL])] else [Send d])
     else \<exists>name. name \<noteq> '''' \<and> payload d = ''conn$ '' @ name \<and> strip_newline raw = ''conn$ '' @ name)"
proof -
  have nn: "no_nul (strip_newline raw)"
    using assms(2) by (auto simp: strip_newline_def no_nul_def dest: set_takeWhileD)
  have len: "length (strip_newline raw) < 1024"
    using assms(3) length_takeWhile_le [of _ raw] by (auto simp: strip_newline_def intro: le_less_trans)
  have pre: "strip_newline raw = ''conn$ '' @ drop 6 (strip_newline raw)" if "take 6 (strip_newline raw) = ''conn$ ''"
    using append_take_drop_id [of 6 "strip_newline raw"] unfolding that by (rule sym)
  have fit: "snprintf BUFFER_SIZE (''conn$ '' @ drop 6 (strip_newline raw)) = strip_newline raw"
    if "take 6 (strip_newline raw) = ''conn$ ''"
    using len unfolding pre [OF that, symmetric] by (simp add: snprintf_def BUFFER_SIZE_def)
  show ?thesis
  proof (cases "connected c")
    case True
    with assms(1,4) nn show ?thesis
      by (auto simp: user_input_pre_connection_def user_input_def Let_def leave_screen_def send_text_def
          split: if_splits)
  next
    case False
    with assms(1,4) have t: "take 6 (strip_newline raw) = ''conn$ ''" "drop 6 (strip_newline raw) \<noteq> ''''"
      by (auto simp: user_input_pre_connection_def Let_def leave_screen_def split: if_splits)
    with False assms(1,4) have d: "d = udp_socket_write (server_addr c') (strip_newline raw) (length (strip_newline raw) + 1)"
      and c': "connected c' = connected c"
      using fit [OF t(1)]
      by (auto simp: user_input_pre_connection_def Let_def leave_screen_def send_connect_request_def send_text_def
          split: if_splits)
    with False nn pre [OF t(1)] t(2) show ?thesis
      by (auto intro!: exI [of _ "drop 6 (strip_newline raw)"])
  qed
qed

lemma input_is_gated_instance:
  "terminated (udp_socket_write (server_addr demo_client) ''say$ hi'' 8)"
  using input_is_gated [of "\<lambda>_. None" 3 "\<lambda>_. 0" "''say$ hi'' @ [NL]" demo_client demo_client
      "[Send (udp_socket_write (server_addr demo_client) ''say$ hi'' 8)]"]
  by (simp add: user_input_pre_connection_def demo_client_def strip_newline_def send_text_def)

end
