(* ===== verification/Client_Handlers.thy ===== *)
theory Client_Handlers
  imports Client
begin

text \<open>
  The client's handler threads, step by step. Each command from the server is executed by a thread of
  its own. The message mutex makes most of what they do one step, but \<open>join\<close> builds its text in a
  static buffer that all of them share, and two of its three callers do not hold the mutex; so here
  every \<open>strcat\<close> of it is a step.
\<close>

section \<open>Threads\<close>

datatype cthread =
    Parse "string list"
  | Say_Lock command_t
  | Join_Start command_t
  | Join_Word command_t nat
  | Join_Space command_t nat
  | Say_Store command_t
  | Failed_Print
  | Error_Print
  | Error_Prompt
  | Locked_Exec command_t
  | Connect_State command_t
  | Connect_Signal command_t
  | Disconnect_State
  | Disconnect_Clear
  | Ping_Print
  | Finished

text \<open>The state the threads share: the chat, the static buffer of \<open>join\<close>, and whether the mutex is held.\<close>

type_synonym desk = "chat \<times> string \<times> bool"

definition start_exec :: "command_t \<Rightarrow> cthread" where
  "start_exec cmd =
     (case kind cmd of
        CONN_SUCCESS \<Rightarrow> Connect_State cmd
      | CONN_FAILED \<Rightarrow> Join_Start cmd
      | DISCONN_RESPONSE \<Rightarrow> Disconnect_State
      | ERROR \<Rightarrow> Join_Start cmd
      | SAY \<Rightarrow> Say_Lock cmd
      | MUTE \<Rightarrow> Locked_Exec cmd
      | UNMUTE \<Rightarrow> Locked_Exec cmd
      | RENAME \<Rightarrow> Locked_Exec cmd
      | PING \<Rightarrow> Ping_Print
      | _ \<Rightarrow> Finished)"

definition after_join :: "command_t \<Rightarrow> cthread" where
  "after_join cmd =
     (case kind cmd of SAY \<Rightarrow> Say_Store cmd | CONN_FAILED \<Rightarrow> Failed_Print | _ \<Rightarrow> Error_Print)"

text \<open>
  One step of a thread: the new shared state, where the thread is next, and what it printed;
  \<open>None\<close> while it waits for the mutex.
\<close>

fun cthread_step :: "command_t \<Rightarrow> cthread \<Rightarrow> desk \<Rightarrow> (desk \<times> cthread \<times> string list) run" where
  "cthread_step junk (Parse toks) d = Some (Ok (d, start_exec (command_handler junk (Some toks)), []))"
| "cthread_step junk (Say_Lock cmd) (v, r, locked) =
     (if locked then None else Some (Ok ((v, r, True), Join_Start cmd, [])))"
| "cthread_step junk (Join_Start cmd) (v, r, locked) = Some (Ok ((v, '''', locked), Join_Word cmd 0, []))"
| "cthread_step junk (Join_Word cmd i) (v, r, locked) =
     (if i \<ge> MAX_CMD_SIZE then Some (Fault OutOfBounds)
      else if args cmd ! i = '''' then Some (Ok ((v, r, locked), after_join cmd, []))
      else run_bind (Some (strcat JOIN_SIZE r (args cmd ! i))) (\<lambda>r1.
             Some (Ok ((v, r1, locked), Join_Space cmd i, []))))"
| "cthread_step junk (Join_Space cmd i) (v, r, locked) =
     (if i + 1 \<ge> MAX_CMD_SIZE then Some (Fault OutOfBounds)
      else if args cmd ! (i + 1) \<noteq> ''''
      then run_bind (Some (strcat JOIN_SIZE r '' '')) (\<lambda>r1. Some (Ok ((v, r1, locked), Join_Word cmd (i + 1), [])))
      else Some (Ok ((v, r, locked), Join_Word cmd (i + 1), [])))"
| "cthread_step junk (Say_Store cmd) (v, r, locked) =
     (if message_count v \<ge> length (messages v) then Some (Fault BufferOverflow)
      else run_bind (Some (strcpy MAX_LEN r)) (\<lambda>row.
        Some (Ok ((v\<lparr>messages := (messages v)[message_count v := row], message_count := message_count v + 1\<rparr>,
                   r, False), Finished, []))))"
| "cthread_step junk Failed_Print (v, r, locked) =
     Some (Ok ((v, r, locked), Finished,
       [''Connection failed: '' @ r @ [NL], ''Please try again with a different username.'' @ [NL]]))"
| "cthread_step junk Error_Print (v, r, locked) =
     Some (Ok ((v, r, locked), Error_Prompt, [''Error from server: '' @ r @ [NL]]))"
| "cthread_step junk Error_Prompt (v, r, locked) = Some (Ok ((v, r, locked), Finished, [prompt (cli v)]))"
| "cthread_step junk (Locked_Exec cmd) (v, r, locked) =
     (if locked then None
      else run_bind (Some (case kind cmd of MUTE \<Rightarrow> mute_exec cmd v | UNMUTE \<Rightarrow> unmute_exec cmd v
                                          | _ \<Rightarrow> rename_exec cmd v)) (\<lambda>(v1, out).
             Some (Ok ((v1, r, False), Finished, out))))"
| "cthread_step junk (Connect_State cmd) (v, r, locked) =
     run_bind (Some (strcpy NAME_SIZE (args cmd ! 0))) (\<lambda>n.
       Some (Ok ((v\<lparr>cli := (cli v)\<lparr>connected := True, cname := n\<rparr>\<rparr>, r, locked), Connect_Signal cmd, [])))"
| "cthread_step junk (Connect_Signal cmd) (v, r, locked) =
     (if locked then None
      else Some (Ok ((v, r, False), Finished, [''Successfully connected as: '' @ args cmd ! 0 @ [NL]])))"
| "cthread_step junk Disconnect_State (v, r, locked) =
     Some (Ok ((v\<lparr>cli := (cli v)\<lparr>connected := False\<rparr>\<rparr>, r, locked), Disconnect_Clear, []))"
| "cthread_step junk Disconnect_Clear (v, r, locked) =
     (if locked then None
      else Some (Ok ((v\<lparr>message_count := 0\<rparr>, r, False), Finished, [''Disconnected from server.'' @ [NL]])))"
| "cthread_step junk Ping_Print (v, r, locked) =
     run_bind (Some (execute_ping v)) (\<lambda>(v1, out). Some (Ok ((v1, r, locked), Finished, out)))"
| "cthread_step junk Finished d = Some (Ok (d, Finished, []))"

section \<open>A thread that runs alone\<close>

fun run_cthread :: "nat \<Rightarrow> command_t \<Rightarrow> cthread \<Rightarrow> desk \<Rightarrow> (desk \<times> string list) run" where
  "run_cthread n junk Finished d = Some (Ok (d, []))"
| "run_cthread 0 junk th d = None"
| "run_cthread (Suc n) junk th d =
     run_bind (cthread_step junk th d) (\<lambda>(d1, th1, out).
     run_bind (run_cthread n junk th1 d1) (\<lambda>(d2, out2). Some (Ok (d2, out @ out2))))"

lemma run_cthread_Suc:
  "th \<noteq> Finished \<Longrightarrow> run_cthread (Suc n) junk th d =
     run_bind (cthread_step junk th d) (\<lambda>(d1, th1, out).
     run_bind (run_cthread n junk th1 d1) (\<lambda>(d2, out2). Some (Ok (d2, out @ out2))))"
  by (cases th) simp_all

lemma run_cthread_numeral:
  "th \<noteq> Finished \<Longrightarrow> run_cthread (numeral n) junk th d =
     run_bind (cthread_step junk th d) (\<lambda>(d1, th1, out).
     run_bind (run_cthread (pred_numeral n) junk th1 d1) (\<lambda>(d2, out2). Some (Ok (d2, out @ out2))))"
  by (simp add: numeral_eq_Suc run_cthread_Suc)

lemma run_cthread_mono: "run_cthread n junk th d = Some x \<Longrightarrow> run_cthread (n + k) junk th d = Some x"
proof (induction n arbitrary: th d x)
  case 0
  then show ?case by (cases th) simp_all
next
  case (Suc n)
  show ?case
  proof (cases "th = Finished")
    case True
    with Suc.prems show ?thesis by simp
  next
    case False
    have "run_cthread (n + k) junk th1 d1 = run_cthread n junk th1 d1"
      if "run_cthread n junk th1 d1 \<noteq> None" for th1 d1
      using that Suc.IH by (cases "run_cthread n junk th1 d1") auto
    with Suc.prems show ?thesis
      by (auto simp: run_cthread_Suc [OF False] run_bind_def split: option.splits sum.splits prod.splits)
  qed
qed

lemma run_cthread_more: "run_cthread n junk th d = Some x \<Longrightarrow> n \<le> m \<Longrightarrow> run_cthread m junk th d = Some x"
  using run_cthread_mono [of n junk th d x "m - n"] by simp

lemma run_bind_pair_id [simp]: "run_bind r (\<lambda>(x, y). Some (Ok (x, y))) = r"
  by (simp add: run_bind_def split: option.splits sum.splits)

lemma run_join_row:
  assumes "i < MAX_CMD_SIZE" and "args cmd ! i \<noteq> ''''"
  shows "run_cthread (Suc (Suc n)) junk (Join_Word cmd i) (v, r, locked) =
    run_bind (Some (strcat JOIN_SIZE r (args cmd ! i))) (\<lambda>r1.
      if i + 1 \<ge> MAX_CMD_SIZE then Some (Fault OutOfBounds)
      else if args cmd ! (i + 1) \<noteq> ''''
      then run_bind (Some (strcat JOIN_SIZE r1 '' '')) (\<lambda>r2. run_cthread n junk (Join_Word cmd (i + 1)) (v, r2, locked))
      else run_cthread n junk (Join_Word cmd (i + 1)) (v, r1, locked))"
proof (cases "strcat JOIN_SIZE r (args cmd ! i)")
  case (Inr r1)
  with assms show ?thesis
    by (cases "strcat JOIN_SIZE r1 '' ''") simp_all
qed (use assms in simp)

lemma run_join:
  "case join_loop (args cmd) i r of
     Inl e \<Rightarrow> run_cthread (2 * (MAX_CMD_SIZE - i) + 1 + k) junk (Join_Word cmd i) (v, r, locked) = Some (Fault e)
   | Inr r' \<Rightarrow> \<forall>x. run_cthread k junk (after_join cmd) (v, r', locked) = Some x \<longrightarrow>
       run_cthread (2 * (MAX_CMD_SIZE - i) + 1 + k) junk (Join_Word cmd i) (v, r, locked) = Some x"
proof (induction "args cmd" i r rule: join_loop.induct)
  case (1 i r)
  note loop = join_loop.simps [of "args cmd" i r]
  show ?case
  proof (cases "i \<ge> MAX_CMD_SIZE \<or> args cmd ! i = ''''")
    case True
    have "run_cthread (2 * (MAX_CMD_SIZE - i) + k) junk (after_join cmd) (v, r, locked) = Some x"
      if "run_cthread k junk (after_join cmd) (v, r, locked) = Some x" for x
      by (rule run_cthread_more [OF that]) simp
    with True show ?thesis by (auto simp: loop run_cthread_Suc)
  next
    case False
    define n where "n = 2 * (MAX_CMD_SIZE - (i + 1)) + 1 + k"
    have fuel: "2 * (MAX_CMD_SIZE - i) + 1 + k = Suc (Suc n)"
      using False Suc_diff_Suc [of i MAX_CMD_SIZE] by (simp add: n_def)
    have row: "i < MAX_CMD_SIZE" "args cmd ! i \<noteq> ''''" using False by simp_all
    show ?thesis
    proof (cases "strcat JOIN_SIZE r (args cmd ! i)")
      case (Inl e)
      with row show ?thesis unfolding fuel run_join_row [OF row] loop by simp
    next
      case (Inr r1)
      show ?thesis
      proof (cases "i + 1 \<ge> MAX_CMD_SIZE")
        case True
        with Inr row show ?thesis unfolding fuel run_join_row [OF row] loop by simp
      next
        case more: False
        show ?thesis
        proof (cases "args cmd ! (i + 1) = ''''")
          case True
          with Inr row more show ?thesis
            unfolding fuel run_join_row [OF row] loop using 1(2) [OF _ _ more, of r1, folded n_def] False by (simp split: sum.splits)
        next
          case word: False
          show ?thesis
          proof (cases "strcat JOIN_SIZE r1 '' ''")
            case (Inl e)
            with \<open>strcat JOIN_SIZE r (args cmd ! i) = _\<close> row more word show ?thesis
              unfolding fuel run_join_row [OF row] loop by simp
          next
            case (Inr r2)
            with \<open>strcat JOIN_SIZE r (args cmd ! i) = _\<close> row more word show ?thesis
              unfolding fuel run_join_row [OF row] loop using 1(1) [OF _ _ more word, of r2, folded n_def] False by (simp split: sum.splits)
          qed
        qed
      qed
    qed
  qed
qed
lemma run_join_start:
  "join (args cmd) = Inl e \<Longrightarrow> run_cthread 104 junk (Join_Start cmd) (v, r, locked) = Some (Fault e)"
  "join (args cmd) = Inr t \<Longrightarrow> run_cthread 2 junk (after_join cmd) (v, t, locked) = Some x \<Longrightarrow>
     run_cthread 104 junk (Join_Start cmd) (v, r, locked) = Some x"
proof -
  have fuel: "2 * (MAX_CMD_SIZE - 0) + 1 + 2 = 103" by (simp add: MAX_CMD_SIZE_def)
  have start: "run_cthread 104 junk (Join_Start cmd) (v, r, locked) = run_cthread 103 junk (Join_Word cmd 0) (v, '''', locked)"
    using run_cthread_Suc [of "Join_Start cmd" 103] by simp
  note join = run_join [where cmd = cmd and i = 0 and r = "''''" and k = 2 and junk = junk and v = v
      and locked = locked, unfolded fuel]
  show "join (args cmd) = Inl e \<Longrightarrow> run_cthread 104 junk (Join_Start cmd) (v, r, locked) = Some (Fault e)"
    using join unfolding start by (simp add: join_def)
  show "join (args cmd) = Inr t \<Longrightarrow> run_cthread 2 junk (after_join cmd) (v, t, locked) = Some x \<Longrightarrow>
     run_cthread 104 junk (Join_Start cmd) (v, r, locked) = Some x"
    using join unfolding start by (simp add: join_def)
qed

lemma run_say:
  assumes "kind cmd = SAY"
  shows "case say_exec cmd v of
     Inl e \<Rightarrow> run_cthread 105 junk (Say_Lock cmd) (v, r, False) = Some (Fault e)
   | Inr (v', out) \<Rightarrow> \<exists>r'. run_cthread 105 junk (Say_Lock cmd) (v, r, False) = Some (Ok ((v', r', False), out))"
proof -
  have start: "run_cthread 105 junk (Say_Lock cmd) (v, r, False) = run_cthread 104 junk (Join_Start cmd) (v, r, True)"
    using run_cthread_Suc [of "Say_Lock cmd" 104] by simp
  show ?thesis
  proof (cases "join (args cmd)")
    case (Inl e)
    with run_join_start(1) [OF Inl] start show ?thesis by (simp add: say_exec_def)
  next
    case (Inr t)
    have "run_cthread 2 junk (after_join cmd) (v, t, True) = 
        Some (res_bind (say_exec cmd v) (\<lambda>(v', out). Ok ((v', t, False), out)))"
      using assms Inr
      by (auto simp: eval_nat_numeral after_join_def say_exec_def run_bind_def res_bind_def split: sum.splits)
    from run_join_start(2) [OF Inr this] start show ?thesis by (auto simp: res_bind_def split: sum.splits)
  qed
qed

lemma run_failed_or_error:
  assumes "kind cmd \<in> {CONN_FAILED, ERROR}"
  shows "case execute_server_command cmd v of
     Inl e \<Rightarrow> run_cthread 105 junk (Join_Start cmd) (v, r, locked) = Some (Fault e)
   | Inr (v', out) \<Rightarrow> \<exists>r'. join (args cmd) = Ok r' \<and>
       run_cthread 105 junk (Join_Start cmd) (v, r, locked) = Some (Ok ((v', r', locked), out))"
proof (cases "join (args cmd)")
  case (Inl e)
  with run_cthread_more [OF run_join_start(1) [OF Inl], of 105] assms show ?thesis
    by (auto simp: execute_server_command_def execute_connect_failed_def execute_error_response_def)
next
  case (Inr t)
  have two: "run_cthread 2 junk (after_join cmd) (v, t, locked) =
      Some (res_bind (execute_server_command cmd v) (\<lambda>(v', out). Ok ((v', t, locked), out)))"
    using assms Inr
    by (auto simp: eval_nat_numeral after_join_def execute_server_command_def execute_connect_failed_def
        execute_error_response_def)
  from run_cthread_more [OF run_join_start(2) [OF Inr two], of 105] Inr show ?thesis
    by (auto simp: res_bind_def split: sum.splits)
qed

lemma run_start_exec:
  "case execute_server_command cmd v of
     Inl e \<Rightarrow> run_cthread 105 junk (start_exec cmd) (v, r, False) = Some (Fault e)
   | Inr (v', out) \<Rightarrow> \<exists>r'. run_cthread 105 junk (start_exec cmd) (v, r, False) = Some (Ok ((v', r', False), out))"
proof (cases "kind cmd \<in> {SAY, CONN_FAILED, ERROR}")
  case True
  then show ?thesis
    using run_say [where cmd = cmd and v = v and junk = junk and r = r]
      run_failed_or_error [where cmd = cmd and v = v and junk = junk and r = r and locked = False]
    by (auto simp: start_exec_def execute_server_command_def split: sum.splits)
next
  case False
  then show ?thesis
    by (cases "kind cmd"; cases "strcpy NAME_SIZE (args cmd ! 0)")
       (auto simp: run_cthread_numeral execute_server_command_def start_exec_def execute_connect_response_def
         execute_disconnect_response_def execute_ping_def mute_exec_def unmute_exec_def rename_exec_def strcpy_def
         split: if_splits)
qed

lemma run_parse:
  "case handle_cli_side_cmd junk toks v of
     Inl e \<Rightarrow> run_cthread 106 junk (Parse toks) (v, r, False) = Some (Fault e)
   | Inr (v', out) \<Rightarrow> \<exists>r'. run_cthread 106 junk (Parse toks) (v, r, False) = Some (Ok ((v', r', False), out))"
  using run_start_exec [where cmd = "command_handler junk (Some toks)" and v = v and junk = junk and r = r]
    run_cthread_Suc [of "Parse toks" 105]
  by (auto simp: handle_cli_side_cmd_def split: sum.splits)

text \<open>
  The client's handler threads are the handlers: a thread that runs from the tokens of its command
  to its end with no other thread in between, which takes at most 106 steps, changes the client,
  prints and faults exactly as the handler does.
\<close>

lemma client_thread_alone_is_handler:
  "case handle_cli_side_cmd junk toks v of
     Inl e \<Rightarrow> run_cthread 106 junk (Parse toks) (v, r, False) = Some (Fault e)
   | Inr (v', out) \<Rightarrow> \<exists>r'. run_cthread 106 junk (Parse toks) (v, r, False) = Some (Ok ((v', r', False), out))"
  by (rule run_parse)

end
