(* ===== verification/Client_Threads.thy ===== *)
theory Client_Threads
  imports Client_Handlers
begin

text \<open>
  The client process of \<open>client_interface.c\<close>: the listener, the queue manager and the handler
  threads it starts, the display and the two input threads, interleaved.
\<close>

section \<open>The service threads\<close>

text \<open>\<open>None\<close>: the queue is full and the listener sleeps.\<close>

definition cli_listener_turn ::
  "recv_event \<Rightarrow> bytes \<Rightarrow> client_t \<Rightarrow> Queue \<Rightarrow> (client_t \<times> Queue \<times> bytes) option" where
  "cli_listener_turn ev buf c q =
     (case udp_socket_read ev buf BUFFER_SIZE of
        (rc, server_response, source) \<Rightarrow>
          (let c1 = (case source of Some a \<Rightarrow> c\<lparr>responder_addr := a\<rparr> | None \<Rightarrow> c)
           in if rc > 0 then
                (case q_append q server_response None of
                   None \<Rightarrow> None
                 | Some q' \<Rightarrow> Some (c1, q', server_response))
              else Some (c1, q, server_response)))"

text \<open>
  The tokens are copied to the heap right after the pop; by \<^theory_text>\<open>popped_tokens_stable\<close> they
  are still those of the message.
\<close>

definition cli_queue_manager_turn :: "Queue \<Rightarrow> (Queue \<times> string list) option" where
  "cli_queue_manager_turn q =
     (case q_pop q False of
        None \<Rightarrow> None
      | Some (q', idx, toks, sender) \<Rightarrow> Some (q', map (token_text q' idx) toks))"

section \<open>The condition variables\<close>

text \<open>
  Where the display and the two input threads stand. The display waits for the message condition
  without testing anything; it is outside from the end of a redraw until it takes the mutex again.
  An input thread tests the connection state under its mutex, waits while the state is not its own, tests
  again, and then blocks in \<open>fgets\<close>.
\<close>

datatype display_pc = Display_Outside | Display_Waiting | Display_Woken

datatype input_pc = Input_Check | Input_Waiting | Input_Woken | Input_Recheck | Input_Reading

record waits =
  display_at :: display_pc
  pre_at :: input_pc
  post_at :: input_pc

definition waits_init :: waits where
  "waits_init = \<lparr>display_at = Display_Outside, pre_at = Input_Check, post_at = Input_Check\<rparr>"

fun signals_messages :: "cthread \<Rightarrow> bool" where
  "signals_messages (Say_Store cmd) = True"
| "signals_messages (Locked_Exec cmd) = True"
| "signals_messages (Connect_Signal cmd) = True"
| "signals_messages Disconnect_Clear = True"
| "signals_messages th = False"

fun signals_connection :: "cthread \<Rightarrow> bool" where
  "signals_connection (Connect_State cmd) = True"
| "signals_connection Disconnect_State = True"
| "signals_connection th = False"

definition input_woken :: "input_pc \<Rightarrow> input_pc \<Rightarrow> bool" where
  "input_woken x y \<longleftrightarrow> y = x \<or> x = Input_Waiting \<and> y = Input_Woken"

text \<open>
  \<open>pthread_cond_signal\<close> wakes at least one of the threads that wait, and is lost when none does.
  The two input threads wait for the same condition.
\<close>

definition signalled :: "cthread \<Rightarrow> waits \<Rightarrow> waits \<Rightarrow> bool" where
  "signalled th w w' \<longleftrightarrow>
     display_at w' = (if signals_messages th \<and> display_at w = Display_Waiting then Display_Woken else display_at w) \<and>
     (if signals_connection th
      then input_woken (pre_at w) (pre_at w') \<and> input_woken (post_at w) (post_at w') \<and>
        (pre_at w = Input_Waiting \<or> post_at w = Input_Waiting \<longrightarrow> pre_at w' \<noteq> pre_at w \<or> post_at w' \<noteq> post_at w)
      else pre_at w' = pre_at w \<and> post_at w' = post_at w)"

text \<open>The tests of the input threads; \<open>mine\<close> says that the connection state is the thread's own.\<close>

fun input_test :: "bool \<Rightarrow> input_pc \<Rightarrow> input_pc option" where
  "input_test mine Input_Check = Some (if mine then Input_Recheck else Input_Waiting)"
| "input_test mine Input_Woken = Some (if mine then Input_Recheck else Input_Waiting)"
| "input_test mine Input_Recheck = Some (if mine then Input_Reading else Input_Check)"
| "input_test mine x = None"

section \<open>The process\<close>

record client_process =
  view :: chat
  response_queue :: Queue
  response_buffer :: bytes
  join_result :: string
  messages_mutex :: bool
  handlers :: "cthread list"
  waits_at :: waits
  screen :: "string list"
  outbox :: "ui_action list"
  cli_crashed :: "fault option"

text \<open>Neither a fault nor \<open>exit\<close> has ended the process.\<close>

definition running :: "client_process \<Rightarrow> bool" where
  "running s \<longleftrightarrow> cli_crashed s = None \<and> Exit_Process \<notin> set (outbox s)"

text \<open>
  A handler thread starts with the tokens it was given and takes the steps of theory
  \<open>Client_Handlers\<close>; the rows of its uninitialised command are taken to be terminated. The display
  redraws under the mutex. A wait may also end without a signal. Lines typed hold no NUL and fit the buffer.
\<close>

inductive client_act :: "recv_event option \<Rightarrow> client_process \<Rightarrow> client_process \<Rightarrow> bool" where
  receive: "running s \<Longrightarrow>
     cli_listener_turn ev (response_buffer s) (cli (view s)) (response_queue s) = Some (c, q, b) \<Longrightarrow>
     client_act (Some ev) s (s\<lparr>view := (view s)\<lparr>cli := c\<rparr>, response_queue := q, response_buffer := b\<rparr>)"
| decode: "running s \<Longrightarrow> cli_queue_manager_turn (response_queue s) = Some (q, toks) \<Longrightarrow>
     client_act None s (s\<lparr>response_queue := q, handlers := handlers s @ [Parse toks]\<rparr>)"
| handle: "running s \<Longrightarrow> i < length (handlers s) \<Longrightarrow> well_formed_command junk \<Longrightarrow>
     cthread_step junk (handlers s ! i) (view s, join_result s, messages_mutex s) = Some (Ok ((v, r, locked), th, out)) \<Longrightarrow>
     signalled (handlers s ! i) (waits_at s) w \<Longrightarrow>
     client_act None s (s\<lparr>view := v, join_result := r, messages_mutex := locked, handlers := (handlers s)[i := th],
       waits_at := w, screen := screen s @ out\<rparr>)"
| handle_fault: "running s \<Longrightarrow> i < length (handlers s) \<Longrightarrow> well_formed_command junk \<Longrightarrow>
     cthread_step junk (handlers s ! i) (view s, join_result s, messages_mutex s) = Some (Fault e) \<Longrightarrow>
     client_act None s (s\<lparr>cli_crashed := Some e\<rparr>)"
| display_wait: "running s \<Longrightarrow> \<not> messages_mutex s \<Longrightarrow> display_at (waits_at s) = Display_Outside \<Longrightarrow>
     client_act None s (s\<lparr>waits_at := (waits_at s)\<lparr>display_at := Display_Waiting\<rparr>\<rparr>)"
| display_redraw: "running s \<Longrightarrow> \<not> messages_mutex s \<Longrightarrow> display_at (waits_at s) = Display_Woken \<Longrightarrow>
     client_act None s (s\<lparr>screen := redraw (view s), waits_at := (waits_at s)\<lparr>display_at := Display_Outside\<rparr>\<rparr>)"
| pre_test: "running s \<Longrightarrow> input_test (pre_connection_awake (cli (view s))) (pre_at (waits_at s)) = Some x \<Longrightarrow>
     client_act None s (s\<lparr>waits_at := (waits_at s)\<lparr>pre_at := x\<rparr>\<rparr>)"
| post_test: "running s \<Longrightarrow> input_test (user_input_awake (cli (view s))) (post_at (waits_at s)) = Some x \<Longrightarrow>
     client_act None s (s\<lparr>waits_at := (waits_at s)\<lparr>post_at := x\<rparr>\<rparr>)"
| type_pre: "running s \<Longrightarrow> pre_at (waits_at s) = Input_Reading \<Longrightarrow>
     (case fgets of None \<Rightarrow> True | Some raw \<Rightarrow> no_nul raw \<and> length raw < MAX_LEN) \<Longrightarrow>
     user_input_pre_connection inet_pton sock bound fgets (cli (view s)) = (c, acts) \<Longrightarrow>
     client_act None s (s\<lparr>view := (view s)\<lparr>cli := c\<rparr>, outbox := outbox s @ acts,
       waits_at := (waits_at s)\<lparr>pre_at := Input_Check\<rparr>\<rparr>)"
| type_line: "running s \<Longrightarrow> post_at (waits_at s) = Input_Reading \<Longrightarrow>
     (case fgets of None \<Rightarrow> True | Some raw \<Rightarrow> no_nul raw \<and> length raw < MAX_LEN) \<Longrightarrow>
     client_act None s (s\<lparr>outbox := outbox s @ user_input fgets (cli (view s)),
       waits_at := (waits_at s)\<lparr>post_at := Input_Check\<rparr>\<rparr>)"
| wake_display: "running s \<Longrightarrow> display_at (waits_at s) = Display_Waiting \<Longrightarrow>
     client_act None s (s\<lparr>waits_at := (waits_at s)\<lparr>display_at := Display_Woken\<rparr>\<rparr>)"
| wake_pre: "running s \<Longrightarrow> pre_at (waits_at s) = Input_Waiting \<Longrightarrow>
     client_act None s (s\<lparr>waits_at := (waits_at s)\<lparr>pre_at := Input_Woken\<rparr>\<rparr>)"
| wake_post: "running s \<Longrightarrow> post_at (waits_at s) = Input_Waiting \<Longrightarrow>
     client_act None s (s\<lparr>waits_at := (waits_at s)\<lparr>post_at := Input_Woken\<rparr>\<rparr>)"

abbreviation client_step :: "client_process \<Rightarrow> client_process \<Rightarrow> bool" where
  "client_step \<equiv> some_act client_act"

lemma running_update [simp]:
  "running (s\<lparr>view := v\<rparr>) = running s" "running (s\<lparr>response_queue := q\<rparr>) = running s"
  "running (s\<lparr>response_buffer := b\<rparr>) = running s" "running (s\<lparr>handlers := hs\<rparr>) = running s"
  "running (s\<lparr>join_result := r\<rparr>) = running s" "running (s\<lparr>messages_mutex := l\<rparr>) = running s"
  "running (s\<lparr>waits_at := w\<rparr>) = running s" "running (s\<lparr>screen := out\<rparr>) = running s"
  by (simp_all add: running_def)

inductive_cases client_act_cases: "client_act l s t"

text \<open>
  The start of \<open>main\<close>: the name, the messages, the slots and the buffer hold what they held. The name is
  not set before the client is connected, and may be of any length until then: \<open>cname\<close> is what is read
  from its place up to the next NUL, inside the field or behind it.
\<close>

definition client_init :: "client_process \<Rightarrow> bool" where
  "client_init s \<longleftrightarrow>
     (\<exists>c inet_pton sock bound q.
        cli (view s) = fst (init_client_socket inet_pton sock bound (setup_client c)) \<and>
        response_queue s = queue_init q \<and> length (q_data q) = QUEUE_MAX \<and>
        (\<forall>n \<in> set (q_data q). length (msg n) = QUEUE_MSG_SIZE)) \<and>
     length (messages (view s)) = MAX_MSGS \<and> message_count (view s) = 0 \<and>
     length (response_buffer s) = BUFFER_SIZE \<and> join_result s = '''' \<and> \<not> messages_mutex s \<and> handlers s = [] \<and> screen s = first_screen (cli (view s)) \<and>
     outbox s = [] \<and> waits_at s = waits_init \<and> cli_crashed s = None"

definition chat_inv :: "chat \<Rightarrow> bool" where
  "chat_inv v \<longleftrightarrow> length (messages v) = MAX_MSGS \<and> message_count v \<le> MAX_MSGS \<and> table_inv (mute_table (cli v))"

text \<open>The threads between taking the mutex for a new line and giving it back.\<close>

fun in_say :: "cthread \<Rightarrow> bool" where
  "in_say (Join_Start cmd) = (kind cmd = SAY)"
| "in_say (Join_Word cmd i) = (kind cmd = SAY)"
| "in_say (Join_Space cmd i) = (kind cmd = SAY)"
| "in_say (Say_Store cmd) = True"
| "in_say th = False"

text \<open>What a thread waits for is of the right kind, so each thread follows the switch of its command.\<close>

fun thread_ok :: "cthread \<Rightarrow> bool" where
  "thread_ok (Say_Lock cmd) = (kind cmd = SAY)"
| "thread_ok (Locked_Exec cmd) = (kind cmd \<in> {MUTE, UNMUTE, RENAME})"
| "thread_ok (Join_Start cmd) = (kind cmd \<in> {SAY, CONN_FAILED, ERROR})"
| "thread_ok (Join_Word cmd i) = (kind cmd \<in> {SAY, CONN_FAILED, ERROR})"
| "thread_ok (Join_Space cmd i) = (kind cmd \<in> {SAY, CONN_FAILED, ERROR})"
| "thread_ok th = True"

definition client_inv :: "client_process \<Rightarrow> bool" where
  "client_inv s \<longleftrightarrow> q_inv (response_queue s) \<and> length (response_buffer s) = BUFFER_SIZE \<and> chat_inv (view s) \<and>
     length (join_result s) < JOIN_SIZE \<and> list_all thread_ok (handlers s) \<and>
     length (filter in_say (handlers s)) = (if messages_mutex s then 1 else 0) \<and>
     (pre_at (waits_at s) = Input_Waiting \<longrightarrow> connected (cli (view s))) \<and>
     (post_at (waits_at s) = Input_Waiting \<longrightarrow> \<not> connected (cli (view s))) \<and>
     (\<forall>e. cli_crashed s = Some e \<longrightarrow> e \<in> {BufferOverflow, OutOfBounds})"

lemma init_client_socket_frame [simp]:
  "cname (fst (init_client_socket f s b c)) = cname c"
  "mute_table (fst (init_client_socket f s b c)) = mute_table c"
  by (auto simp: init_client_socket_def Let_def split: prod.splits)

lemma input_frame:
  assumes "user_input_pre_connection f s b i c = (c', acts)"
  shows "cname c' = cname c \<and> mute_table c' = mute_table c \<and> connected c' = connected c"
  using assms by (auto simp: user_input_pre_connection_def Let_def split: option.splits if_splits)

lemma start_exec_ok [simp]: "thread_ok (start_exec cmd)" "\<not> in_say (start_exec cmd)"
  by (simp_all add: start_exec_def split: command_kind.splits)

lemma after_join_ok [simp]: "thread_ok (after_join cmd)" "in_say (after_join cmd) = (kind cmd = SAY)"
  by (simp_all add: after_join_def split: command_kind.splits)

lemma list_all_update: "list_all P xs \<Longrightarrow> P x \<Longrightarrow> list_all P (xs[i := x])"
  by (auto simp: list_all_iff dest: set_update_subset_insert [THEN subsetD])

lemma JOIN_SIZE_pos [simp]: "0 < JOIN_SIZE"
  by (simp add: JOIN_SIZE_def)

lemma strcat_cases:
  "strcat n r t = Ok r' \<Longrightarrow> length r' < n" "strcat n r t = Fault e \<Longrightarrow> e = BufferOverflow"
  by (auto simp: strcat_def split: if_splits)

lemma strcpy_cases:
  "strcpy n t = Ok r' \<Longrightarrow> r' = t \<and> length t < n" "strcpy n t = Fault e \<Longrightarrow> e = BufferOverflow"
  by (auto simp: strcpy_def split: if_splits)

lemma cthread_step_fault:
  "cthread_step junk th d = Some (Fault e) \<Longrightarrow> e = BufferOverflow \<or> e = OutOfBounds"
  by (cases d; cases th)
     (auto simp: run_bind_def mute_exec_def unmute_exec_def rename_exec_def res_bind_def execute_ping_def
       dest!: strcat_cases strcpy_cases split: option.splits sum.splits if_splits command_kind.splits)

lemma cthread_step_inv:
  assumes "cthread_step junk th (v, r, locked) = Some (Ok ((v', r', locked'), th', out))"
    and "chat_inv v" and "length r < JOIN_SIZE" and "thread_ok th" and "in_say th \<longrightarrow> locked"
  shows "chat_inv v' \<and> length r' < JOIN_SIZE \<and> thread_ok th' \<and>
    (locked' \<longleftrightarrow> locked \<and> (in_say th \<longrightarrow> in_say th') \<or> in_say th') \<and> (in_say th' \<longrightarrow> in_say th \<or> \<not> locked)"
  using assms insert_key_inv remove_key_inv
  by (cases th)
     (auto simp: run_bind_def mute_exec_def unmute_exec_def rename_exec_def res_bind_def execute_ping_def
       chat_inv_def
       dest!: strcat_cases strcpy_cases split: option.splits sum.splits if_splits)

lemma cthread_step_connected:
  "cthread_step junk th (v, r, locked) = Some (Ok ((v', r', locked'), th', out)) \<Longrightarrow>
   connected (cli v') = (case th of Connect_State cmd \<Rightarrow> True | Disconnect_State \<Rightarrow> False | _ \<Rightarrow> connected (cli v))"
  by (cases th)
     (auto simp: run_bind_def mute_exec_def unmute_exec_def rename_exec_def res_bind_def execute_ping_def
       split: option.splits sum.splits if_splits command_kind.splits)

text \<open>A signal reaches a thread that waits for the state that has come.\<close>

lemma signalled_waits:
  assumes "signalled th w w'"
    and "cthread_step junk th (v, r, locked) = Some (Ok ((v', r', locked'), th', out))"
    and "pre_at w = Input_Waiting \<longrightarrow> connected (cli v)" and "post_at w = Input_Waiting \<longrightarrow> \<not> connected (cli v)"
  shows "(pre_at w' = Input_Waiting \<longrightarrow> connected (cli v')) \<and> (post_at w' = Input_Waiting \<longrightarrow> \<not> connected (cli v'))"
  using assms(1,3,4) cthread_step_connected [OF assms(2)]
  by (cases th) (auto simp: signalled_def input_woken_def)

lemma input_test_waits: "input_test mine x = Some Input_Waiting \<Longrightarrow> \<not> mine"
  by (cases x) (auto split: if_splits)

text \<open>The sleepers can all be woken, and a signal does nothing else.\<close>

definition woken_only :: "waits \<Rightarrow> waits \<Rightarrow> bool" where
  "woken_only w w' \<longleftrightarrow> (display_at w' = display_at w \<or> display_at w = Display_Waiting \<and> display_at w' = Display_Woken) \<and>
     input_woken (pre_at w) (pre_at w') \<and> input_woken (post_at w) (post_at w')"

lemma woken_only_refl [simp]: "woken_only w w"
  by (simp add: woken_only_def input_woken_def)

lemma woken_only_trans: "woken_only u v \<Longrightarrow> woken_only v w \<Longrightarrow> woken_only u w"
  by (auto simp: woken_only_def input_woken_def)

lemma ex_signalled:
  obtains w' where "signalled th w w'" and "woken_only w w'"
proof -
  let ?wake = "\<lambda>x. if signals_connection th \<and> x = Input_Waiting then Input_Woken else x"
  let ?w = "w\<lparr>display_at := if signals_messages th \<and> display_at w = Display_Waiting then Display_Woken else display_at w,
      pre_at := ?wake (pre_at w), post_at := ?wake (post_at w)\<rparr>"
  have "signalled th w ?w" by (auto simp: signalled_def input_woken_def)
  moreover have "woken_only w ?w" by (auto simp: woken_only_def input_woken_def)
  ultimately show thesis by (rule that)
qed

lemma cli_listener_turn_inv:
  assumes "q_inv q" and "length buf = BUFFER_SIZE" and "cli_listener_turn ev buf c q = Some (c', q', buf')"
  shows "q_inv q' \<and> length buf' = BUFFER_SIZE \<and> cname c' = cname c \<and> mute_table c' = mute_table c \<and>
    connected c' = connected c"
proof -
  obtain rc b src where r: "udp_socket_read ev buf BUFFER_SIZE = (rc, b, src)" by (metis surj_pair)
  from read_length [OF r] assms(2) have "length b = BUFFER_SIZE" by simp
  with assms r q_append_effect(1) [OF assms(1)] show ?thesis
    by (auto simp: cli_listener_turn_def Let_def split: if_splits option.splits)
qed

lemma cli_queue_manager_turn_effect:
  assumes "q_inv q" and "cli_queue_manager_turn q = Some (q', toks)"
  obtains e where "q_inv q'" and "q_contents q = e # q_contents q'" and "toks = fst (delivered e)"
proof -
  from assms(2) obtain i ts sender where p: "q_pop q False = Some (q', i, ts, sender)" "toks = map (token_text q' i) ts"
    by (auto simp: cli_queue_manager_turn_def split: option.splits prod.splits)
  show thesis
    by (rule q_pop_effect [OF assms(1) p(1)]) (use p(2) in \<open>auto intro: that\<close>)
qed

interpretation client_proc: inductive_invariant client_init client_step client_inv
proof unfold_locales
  fix s t
  show "client_init s \<Longrightarrow> client_inv s"
    using q_init_inv(1) table_inv_empty
    by (auto simp: client_init_def client_inv_def chat_inv_def setup_client_def empty_table_def waits_init_def)
  assume inv: "client_inv s"
  assume "client_step s t"
  then obtain l where "client_act l s t" by (rule some_actE)
  then show "client_inv t"
  proof (cases rule: client_act.cases)
    case (receive ev c q b)
    with cli_listener_turn_inv [OF _ _ receive(4)] inv show ?thesis
      by (auto simp: client_inv_def chat_inv_def)
  next
    case (decode q toks)
    from inv have qi: "q_inv (response_queue s)" by (simp add: client_inv_def)
    have "q_inv q" by (rule cli_queue_manager_turn_effect [OF qi decode(4)])
    with decode inv show ?thesis by (simp add: client_inv_def)
  next
    case (handle i junk v r locked th out w)
    have say: "in_say (handlers s ! i) \<longrightarrow> messages_mutex s"
      using inv handle(4) by (auto simp: client_inv_def filter_empty_conv split: if_splits)
    from inv handle(4) have ok: "thread_ok (handlers s ! i)"
      by (simp add: client_inv_def list_all_length)
    from cthread_step_inv [OF handle(6) _ _ ok say] inv
    have st: "chat_inv v \<and> length r < JOIN_SIZE \<and> thread_ok th \<and>
      (locked \<longleftrightarrow> messages_mutex s \<and> (in_say (handlers s ! i) \<longrightarrow> in_say th) \<or> in_say th) \<and>
      (in_say th \<longrightarrow> in_say (handlers s ! i) \<or> \<not> messages_mutex s)"
      by (simp add: client_inv_def)
    have "list_all thread_ok ((handlers s)[i := th])"
      using inv st by (auto simp: client_inv_def intro: list_all_update)
    moreover have "length (filter in_say ((handlers s)[i := th])) = (if locked then 1 else 0)"
      using length_filter_update [OF handle(4), of in_say th] inv st say
      by (auto simp: client_inv_def split: if_splits)
    ultimately show ?thesis
      using inv st handle(2) signalled_waits [OF handle(7,6)] by (simp add: client_inv_def)
  next
    case (pre_test x)
    with inv input_test_waits show ?thesis by (auto simp: client_inv_def pre_connection_awake_def)
  next
    case (post_test x)
    with inv input_test_waits show ?thesis by (auto simp: client_inv_def user_input_awake_def)
  next
    case (handle_fault i junk e)
    with cthread_step_fault [OF handle_fault(6)] inv show ?thesis by (auto simp: client_inv_def)
  next
    case (type_pre fgets inet_pton sock bound c acts)
    with input_frame [OF type_pre(6)] inv show ?thesis by (simp add: client_inv_def chat_inv_def)
  qed (use inv in \<open>auto simp: client_inv_def\<close>)
qed

section \<open>A client to run\<close>

text \<open>It has opened its socket and knows the address of the server.\<close>

definition idle_client :: client_process where
  "idle_client = (let c = fst (init_client_socket (\<lambda>_. Some 0x0100007F) 3 (\<lambda>_. 0) (setup_client demo_client))
    in \<lparr>view = \<lparr>cli = c, messages = replicate 100 '''', message_count = 0\<rparr>,
     response_queue = demo_queue, response_buffer = replicate BUFFER_SIZE CHR ''z'',
     join_result = '''', messages_mutex = False, handlers = [], waits_at = waits_init,
     screen = first_screen c, outbox = [], cli_crashed = None\<rparr>)"

lemma idle_client_init: "client_init idle_client"
proof -
  have "\<exists>q. demo_queue = queue_init q \<and> length (q_data q) = QUEUE_MAX \<and> (\<forall>n \<in> set (q_data q). length (msg n) = QUEUE_MSG_SIZE)"
    unfolding demo_queue_def by (intro exI conjI, rule refl) simp_all
  then show ?thesis
    unfolding client_init_def idle_client_def Let_def
    by (simp add: MAX_MSGS_def)
       (intro exI [of _ demo_client] conjI exI [of _ "\<lambda>_. Some 0x0100007F"] exI [of _ 3] exI [of _ "\<lambda>_. 0"],
        simp_all add: NAME_SIZE_def)
qed

lemma idle_client_reach [simp]: "reach client_init client_step idle_client"
  by (rule reach_init [of client_init, OF idle_client_init])

lemma idle_client_sel [simp]:
  "cli_crashed idle_client = None" "running idle_client" "waits_at idle_client = waits_init" "handlers idle_client = []" "response_queue idle_client = demo_queue"
  "\<not> messages_mutex idle_client"
  "messages (view idle_client) = replicate 100 ''''" "message_count (view idle_client) = 0"
  by (simp_all add: idle_client_def running_def Let_def)

section \<open>Properties\<close>

text \<open>A datagram that carries a NUL travels through the listener and the queue, when the queue is empty.\<close>

lemma deliver:
  assumes "client_inv s" and "running s" and "q_contents (response_queue s) = []"
    and "NUL \<in> set (take BUFFER_SIZE pkt)" and "length (cstr pkt) < 512"
  obtains q b where "reacts client_act (Received a pkt) s (s\<lparr>view := (view s)\<lparr>cli := (cli (view s))\<lparr>responder_addr := a\<rparr>\<rparr>,
      response_queue := q, response_buffer := b,
      handlers := handlers s @ [Parse (take 49 (words_of (remove1 DOLLAR (cstr pkt))))]\<rparr>)"
    and "q_contents q = []"
proof -
  have inv: "q_inv (response_queue s)" using assms(1) by (simp add: client_inv_def)
  obtain rc b src where r: "udp_socket_read (Received a pkt) (response_buffer s) BUFFER_SIZE = (rc, b, src)"
    by (metis surj_pair)
  have pos: "rc > 0" "src = Some a" using r assms(4) by (auto simp: udp_socket_read_def Let_def BUFFER_SIZE_def)
  obtain q1 q2 i toks sender where q: "q_append (response_queue s) b None = Some q1" "q_inv q1"
    "q_pop q1 False = Some (q2, i, toks, sender)" "q_contents q2 = []"
    "map (token_text q2 i) toks = fst (delivered (stored (b, None)))"
    by (rule put_then_get [OF inv assms(3), of b None False]) auto
  have st: "stored (b, None) = (cstr pkt, None)"
    using assms(5) read_exact [OF r assms(4)] by (simp add: stored_def QUEUE_MSG_SIZE_def)
  let ?c = "(cli (view s))\<lparr>responder_addr := a\<rparr>"
  let ?hs = "handlers s @ [Parse (take 49 (words_of (remove1 DOLLAR (cstr pkt))))]"
  let ?s1 = "s\<lparr>view := (view s)\<lparr>cli := ?c\<rparr>, response_queue := q1, response_buffer := b\<rparr>"
  have "cli_listener_turn (Received a pkt) (response_buffer s) (cli (view s)) (response_queue s) = Some (?c, q1, b)"
    using pos q(1) by (simp add: cli_listener_turn_def r Let_def)
  from receive [OF assms(2) this] have 1: "client_act (Some (Received a pkt)) s ?s1" .
  have "cli_queue_manager_turn q1 = Some (q2, take 49 (words_of (remove1 DOLLAR (cstr pkt))))"
    using q(3,5) by (simp add: cli_queue_manager_turn_def st delivered_def MAX_COMMAND_LEN_def)
  then have "client_act None ?s1 (?s1\<lparr>response_queue := q2, handlers := ?hs\<rparr>)"
    using assms(2) decode [of ?s1] by simp
  moreover have "?s1\<lparr>response_queue := q2, handlers := ?hs\<rparr> =
      s\<lparr>view := (view s)\<lparr>cli := ?c\<rparr>, response_queue := q2, response_buffer := b, handlers := ?hs\<rparr>" by (cases s) simp
  ultimately have "client_act None ?s1
      (s\<lparr>view := (view s)\<lparr>cli := ?c\<rparr>, response_queue := q2, response_buffer := b, handlers := ?hs\<rparr>)" by (simp only:)
  from reacts_then1 [of client_act, OF reactsI [of client_act, OF 1] this] q(4) show thesis by (rule that)
qed

lemma deliver_text:
  assumes "client_inv s" and "running s" and "q_contents (response_queue s) = []"
    and "no_nul t" and "length t < 512"
  obtains q b where "reacts client_act (Received a (t @ [NUL])) s (s\<lparr>view := (view s)\<lparr>cli := (cli (view s))\<lparr>responder_addr := a\<rparr>\<rparr>,
      response_queue := q, response_buffer := b,
      handlers := handlers s @ [Parse (take 49 (words_of (remove1 DOLLAR t)))]\<rparr>)"
    and "q_contents q = []"
proof -
  have c: "cstr (t @ [NUL]) = t" "NUL \<in> set (take BUFFER_SIZE (t @ [NUL]))"
    using assms(4,5) by (simp_all add: cstr_append_nul BUFFER_SIZE_def)
  show thesis
    by (rule deliver [OF assms(1-3) c(2), of a]) (use assms(5) c(1) in \<open>auto intro: that\<close>)
qed

text \<open>A handler thread that runs alone.\<close>

lemma run_cthread_acts:
  assumes "run_cthread n junk (handlers s ! i) (view s, join_result s, messages_mutex s) = Some x"
    and "running s" and "i < length (handlers s)" and "well_formed_command junk"
  shows "case x of
      Inl e \<Rightarrow> \<exists>s'. (client_act None)\<^sup>*\<^sup>* s s' \<and> cli_crashed s' = Some e
    | Inr ((v, r, locked), out) \<Rightarrow> \<exists>w. (client_act None)\<^sup>*\<^sup>* s (s\<lparr>view := v, join_result := r, messages_mutex := locked,
        handlers := (handlers s)[i := Finished], waits_at := w, screen := screen s @ out\<rparr>) \<and> woken_only (waits_at s) w"
  using assms
proof (induction n arbitrary: s x)
  case 0
  then have f: "handlers s ! i = Finished" by (cases "handlers s ! i") simp_all
  then have "(handlers s)[i := Finished] = handlers s" by (metis list_update_id)
  with f 0 show ?case by (cases s) (auto intro!: exI [of _ "waits_at s"])
next
  case (Suc n)
  show ?case
  proof (cases "handlers s ! i = Finished")
    case True
    then have "(handlers s)[i := Finished] = handlers s" by (metis list_update_id)
    with True Suc.prems show ?thesis by (cases s) (auto intro!: exI [of _ "waits_at s"])
  next
    case False
    let ?d = "(view s, join_result s, messages_mutex s)"
    obtain y where y: "cthread_step junk (handlers s ! i) ?d = Some y"
      using Suc.prems(1) by (cases "cthread_step junk (handlers s ! i) ?d") (auto simp: run_cthread_Suc [OF False])
    show ?thesis
    proof (cases y)
      case (Inl e)
      with Suc.prems(1) y have "x = Inl e" by (simp add: run_cthread_Suc [OF False])
      with handle_fault [OF Suc.prems(2-4), of e] y Inl show ?thesis
        by (auto intro!: exI [of _ "s\<lparr>cli_crashed := Some e\<rparr>"])
    next
      case (Inr z)
      obtain v1 r1 l1 th1 out1 where z: "z = ((v1, r1, l1), th1, out1)" by (metis surj_pair)
      obtain w1 where w1: "signalled (handlers s ! i) (waits_at s) w1" "woken_only (waits_at s) w1" by (rule ex_signalled)
      let ?t = "s\<lparr>view := v1, join_result := r1, messages_mutex := l1, handlers := (handlers s)[i := th1],
        waits_at := w1, screen := screen s @ out1\<rparr>"
      have step: "client_act None s ?t" by (rule handle [OF Suc.prems(2-4) _ w1(1)]) (simp add: y Inr z)
      from Suc.prems(1) y Inr z obtain x1 where x1: "run_cthread n junk th1 (v1, r1, l1) = Some x1"
        "x = (case x1 of Inl e \<Rightarrow> Inl e | Inr (d2, out2) \<Rightarrow> Inr (d2, out1 @ out2))"
        by (auto simp: run_cthread_Suc [OF False] run_bind_def split: option.splits sum.splits prod.splits)
      note IH = Suc.IH [of ?t x1]
      show ?thesis
      proof (cases x1)
        case (Inl e)
        with IH x1 Suc.prems(2-4) obtain s' where "(client_act None)\<^sup>*\<^sup>* ?t s'" "cli_crashed s' = Some e" by auto
        with step x1(2) Inl show ?thesis by (auto intro: converse_rtranclp_into_rtranclp)
      next
        case (Inr u)
        obtain v r l out where u: "u = ((v, r, l), out)" by (metis surj_pair)
        with Inr IH x1(1) Suc.prems(2-4) obtain w where "(client_act None)\<^sup>*\<^sup>* ?t (?t\<lparr>view := v, join_result := r,
            messages_mutex := l, handlers := (handlers ?t)[i := Finished], waits_at := w, screen := screen ?t @ out\<rparr>)"
          "woken_only w1 w" by auto
        with step x1(2) Inr u woken_only_trans [OF w1(2)] show ?thesis
          by (auto intro!: exI [of _ w] intro: converse_rtranclp_into_rtranclp)
      qed
    qed
  qed
qed

lemma handler_acts:
  assumes "handlers s = hs @ [Parse toks]" and "running s" and "well_formed_command junk"
    and "\<not> messages_mutex s"
  shows "case handle_cli_side_cmd junk toks (view s) of
      Inl e \<Rightarrow> \<exists>s'. (client_act None)\<^sup>*\<^sup>* s s' \<and> cli_crashed s' = Some e
    | Inr (v, out) \<Rightarrow> \<exists>r w. (client_act None)\<^sup>*\<^sup>* s (s\<lparr>view := v, join_result := r, messages_mutex := False,
        handlers := hs @ [Finished], waits_at := w, screen := screen s @ out\<rparr>) \<and> woken_only (waits_at s) w"
proof -
  have i: "length hs < length (handlers s)" "handlers s ! length hs = Parse toks" using assms(1) by simp_all
  from run_parse [of junk toks "view s" "join_result s"] show ?thesis
    using run_cthread_acts [of 106 junk s "length hs", OF _ assms(2) i(1) assms(3)] i(2) assms(1,4)
    by (auto split: sum.splits)
qed

lemma handler_steps:
  assumes "handlers s = hs @ [Parse toks]" and "running s" and "well_formed_command junk"
    and "\<not> messages_mutex s"
  shows "case handle_cli_side_cmd junk toks (view s) of
      Inl e \<Rightarrow> \<exists>s'. client_step\<^sup>*\<^sup>* s s' \<and> cli_crashed s' = Some e
    | Inr (v, out) \<Rightarrow> \<exists>r w. client_step\<^sup>*\<^sup>* s (s\<lparr>view := v, join_result := r, messages_mutex := False,
        handlers := hs @ [Finished], waits_at := w, screen := screen s @ out\<rparr>) \<and> woken_only (waits_at s) w"
  using handler_acts [OF assms] own_acts [of client_act] by (auto split: sum.splits)

text \<open>
  The client obeys whoever writes to its port: a text of at most 511 characters with its NUL,
  from any address at all, is executed as the command of its words, exactly as if the server had
  sent it; no part of the client looks at the sender.
\<close>

lemma client_obeys_any_sender:
  assumes "reach client_init client_step s" and "running s" and "\<not> messages_mutex s"
    and "q_contents (response_queue s) = []" and "no_nul t" and "length t < 512" and "well_formed_command junk"
    and "handle_cli_side_cmd junk (take 49 (words_of (remove1 DOLLAR t)))
           ((view s)\<lparr>cli := (cli (view s))\<lparr>responder_addr := a\<rparr>\<rparr>) = r"
  shows "\<exists>s'. client_step\<^sup>*\<^sup>* s s' \<and> (case r of Ok (v, out) \<Rightarrow> view s' = v \<and> running s' \<and> woken_only (waits_at s) (waits_at s')
                                     | Fault e \<Rightarrow> cli_crashed s' = Some e)"
proof -
  let ?h = "take 49 (words_of (remove1 DOLLAR t))"
  let ?v = "(view s)\<lparr>cli := (cli (view s))\<lparr>responder_addr := a\<rparr>\<rparr>"
  obtain q b where d: "reacts client_act (Received a (t @ [NUL])) s (s\<lparr>view := ?v, response_queue := q, response_buffer := b,
      handlers := handlers s @ [Parse ?h]\<rparr>)"
    by (rule deliver_text [OF client_proc.reach_inv [OF assms(1)] assms(2,4-6)])
  note s1 = reacts_acts [of client_act, OF d]
  let ?s1 = "s\<lparr>view := ?v, response_queue := q, response_buffer := b, handlers := handlers s @ [Parse ?h]\<rparr>"
  have n: "running ?s1" "\<not> messages_mutex ?s1" "handlers ?s1 = handlers s @ [Parse ?h]"
    using assms(2,3) by simp_all
  note run = handler_steps [OF n(3,1) assms(7) n(2)]
  show ?thesis
  proof (cases r)
    case (Inl e)
    with run assms(8) s1 show ?thesis by (auto intro: rtranclp_trans)
  next
    case (Inr x)
    obtain v out where x: "x = (v, out)" by fastforce
    with run assms(8) Inr obtain j w where w: "client_step\<^sup>*\<^sup>* ?s1 (?s1\<lparr>view := v, join_result := j, messages_mutex := False,
        handlers := handlers s @ [Finished], waits_at := w, screen := screen ?s1 @ out\<rparr>)" "woken_only (waits_at s) w" by auto
    from rtranclp_trans [OF s1 w(1)] w(2) Inr x assms(2) show ?thesis by (intro exI conjI) (assumption, simp)
  qed
qed

definition demo_junk :: command_t where
  "demo_junk = \<lparr>kind = UNKNOWN, args = replicate MAX_CMD_SIZE ''''\<rparr>"

lemma demo_junk_full [simp]: "well_formed_command demo_junk" "length (args demo_junk) = MAX_CMD_SIZE"
  by (simp_all add: demo_junk_def well_formed_command_def NAME_SIZE_def)

lemma client_obeys_any_sender_instance:
  "\<exists>s'. client_step\<^sup>*\<^sup>* idle_client s' \<and> connected (cli (view s')) \<and> cname (cli (view s')) = ''eve''"
proof -
  have w: "take 49 (words_of (remove1 DOLLAR ''connsuccess$ eve'')) = [''connsuccess'', ''eve'']"
    by (simp add: words_of.simps)
  have c: "command_handler demo_junk (Some [''connsuccess'', ''eve'']) =
      \<lparr>kind = CONN_SUCCESS, args = ''eve'' # replicate (MAX_CMD_SIZE - 1) ''''\<rparr>"
    by (simp add: command_handler_closed NAME_SIZE_def kind_of_token_def MAX_CMD_SIZE_def)
  let ?v = "(view idle_client)\<lparr>cli := (cli (view idle_client))\<lparr>responder_addr := zero_addr\<rparr>\<rparr>"
  obtain v out where h: "handle_cli_side_cmd demo_junk [''connsuccess'', ''eve''] ?v = Ok (v, out)"
    "connected (cli v)" "cname (cli v) = ''eve''"
    by (auto simp: handle_cli_side_cmd_def c execute_server_command_def execute_connect_response_def strcpy_def
        NAME_SIZE_def)
  from client_obeys_any_sender [OF idle_client_reach, of "''connsuccess$ eve''" demo_junk zero_addr] h
  show ?thesis unfolding w by auto
qed

text \<open>A text of words as a command of the client.\<close>

lemma say_command:
  assumes "\<forall>w \<in> set ws. is_word w \<and> length w < 20" and "length ws \<le> 48"
  shows "take 49 (words_of (remove1 DOLLAR (''say$ '' @ unwords ws))) = ''say'' # ws"
    and "command_handler junk (Some (''say'' # ws)) =
      (if length (args junk) = MAX_CMD_SIZE
       then \<lparr>kind = SAY, args = ws @ replicate (MAX_CMD_SIZE - length ws) ''''\<rparr>
       else command_handler junk (Some (''say'' # ws)))"
proof -
  have "words_of (unwords ws) = ws" using assms(1) by (intro words_of_unwords) (auto simp: is_word_def)
  then have "words_of (''say'' @ SP # unwords ws) = ''say'' # ws"
    by (subst words_of_word_cons) simp_all
  then show "take 49 (words_of (remove1 DOLLAR (''say$ '' @ unwords ws))) = ''say'' # ws"
    using assms(2) by simp
  have "map (take (NAME_SIZE - 1)) ws = ws"
    using assms(1) by (intro map_idI) (auto simp: NAME_SIZE_def)
  then show "command_handler junk (Some (''say'' # ws)) =
      (if length (args junk) = MAX_CMD_SIZE
       then \<lparr>kind = SAY, args = ws @ replicate (MAX_CMD_SIZE - length ws) ''''\<rparr>
       else command_handler junk (Some (''say'' # ws)))"
    using assms(2) by (simp add: command_handler_closed kind_of_token_def MAX_CMD_SIZE_def)
qed

lemma say_join:
  assumes "\<forall>w \<in> set ws. is_word w" and "length ws \<le> 48"
  shows "join (ws @ replicate (MAX_CMD_SIZE - length ws) '''') =
    (if length (unwords ws) < 300 then Ok (unwords ws) else Fault BufferOverflow)"
proof -
  have "takeWhile (\<lambda>w. w \<noteq> '''') (ws @ replicate (MAX_CMD_SIZE - length ws) '''') = ws"
    using assms by (subst takeWhile_append2) (auto simp: is_word_def MAX_CMD_SIZE_def Suc_diff_le)
  with join_eq [of "ws @ replicate (MAX_CMD_SIZE - length ws) ''''" ws] assms(2) show ?thesis
    by (simp add: MAX_CMD_SIZE_def JOIN_SIZE_def)
qed

text \<open>A line that fits is recorded word for word.\<close>

lemma say_handled:
  assumes "\<forall>w \<in> set ws. is_word w \<and> length w < 20" and "length ws \<le> 48" and "length (unwords ws) < 300"
    and "length (args junk) = MAX_CMD_SIZE" and "message_count v < length (messages v)"
  shows "handle_cli_side_cmd junk (take 49 (words_of (remove1 DOLLAR (''say$ '' @ unwords ws)))) v =
    Ok (v\<lparr>messages := (messages v)[message_count v := unwords ws], message_count := message_count v + 1\<rparr>, [])"
proof -
  have "strcpy MAX_LEN (unwords ws) = Ok (unwords ws)" using assms(3) by (simp add: strcpy_def MAX_LEN_def)
  with say_join [of ws] assms show ?thesis
    unfolding handle_cli_side_cmd_def say_command(1) [OF assms(1,2)]
    using say_command(2) [OF assms(1,2), of junk] by (simp add: execute_server_command_def say_exec_def)
qed

text \<open>Nobody is at work in the client, so the mutex is free.\<close>

lemma idle_mutex_free:
  assumes "client_inv s" and "set (handlers s) \<subseteq> {Finished}"
  shows "\<not> messages_mutex s"
proof -
  have "filter in_say (handlers s) = []" using assms(2) by (auto simp: filter_empty_conv)
  with assms(1) show ?thesis by (auto simp: client_inv_def split: if_splits)
qed

text \<open>
  C35. Anybody can crash a client with one datagram: \<open>say$\<close> followed by words of at most 19
  characters that need 300 characters or more when joined, which fits the datagram easily. From every
  reachable state of a running client in which no handler is at work, nothing is queued and there is room for
  more lines, hearing just this datagram, from any address, can be followed by the overflow.
\<close>

theorem forged_line_crashes_client:
  assumes "reach client_init client_step s" and "running s"
    and "q_contents (response_queue s) = []" and "set (handlers s) \<subseteq> {Finished}" and "message_count (view s) < 100"
    and "\<forall>w \<in> set ws. is_word w \<and> length w < 20" and "length ws \<le> 48"
    and "300 \<le> length (unwords ws)" and "length (unwords ws) < 507"
  shows "\<exists>s'. reacts client_act (Received a (''say$ '' @ unwords ws @ [NUL])) s s' \<and>
    cli_crashed s' = Some BufferOverflow"
proof -
  note inv = client_proc.reach_inv [OF assms(1)]
  note free = idle_mutex_free [OF inv assms(4)]
  have nn: "no_nul (unwords ws)"
    using assms(6) by (induction ws rule: unwords.induct) (auto simp: is_word_def)
  let ?v = "(view s)\<lparr>cli := (cli (view s))\<lparr>responder_addr := a\<rparr>\<rparr>"
  obtain q b where s1: "reacts client_act (Received a ((''say$ '' @ unwords ws) @ [NUL])) s
      (s\<lparr>view := ?v, response_queue := q, response_buffer := b, handlers := handlers s @ [Parse (''say'' # ws)]\<rparr>)"
    by (rule deliver_text [OF inv assms(2,3), of "''say$ '' @ unwords ws" a])
       (use nn assms(9) say_command(1) [OF assms(6,7)] in simp_all)
  let ?s1 = "s\<lparr>view := ?v, response_queue := q, response_buffer := b, handlers := handlers s @ [Parse (''say'' # ws)]\<rparr>"
  have "handle_cli_side_cmd demo_junk (''say'' # ws) (view ?s1) = Fault BufferOverflow"
    using say_command(2) [OF assms(6,7), of demo_junk] say_join [of ws] assms(6,7,8)
    by (simp add: handle_cli_side_cmd_def execute_server_command_def say_exec_def)
  with handler_acts [of ?s1 "handlers s" "''say'' # ws" demo_junk] assms(2) free obtain t where
    "(client_act None)\<^sup>*\<^sup>* ?s1 t" "cli_crashed t = Some BufferOverflow" by auto
  with reacts_then [of client_act, OF s1] show ?thesis by auto
qed

theorem forged_line_crashes_client_witness:
  "\<exists>s'. reacts client_act (Received zero_addr (''say$ '' @ unwords (replicate 16 ''abcdefghijklmnopqrs'') @ [NUL])) idle_client s' \<and>
    cli_crashed s' = Some BufferOverflow"
  by (rule forged_line_crashes_client [of _ "replicate 16 ''abcdefghijklmnopqrs''"])
     (simp_all add: idle_client_reach is_word_def eval_nat_numeral)

text \<open>The commands of a line and of an error text.\<close>

lemma text_command:
  assumes "\<forall>w \<in> set ws. is_word w \<and> length w < 20" and "length ws \<le> 48" and "kw = ''say'' \<or> kw = ''error''"
    and "length (args junk) = MAX_CMD_SIZE"
  shows "take 49 (words_of (remove1 DOLLAR (kw @ ''$ '' @ unwords ws))) = kw # ws"
    and "command_handler junk (Some (kw # ws)) =
      \<lparr>kind = (if kw = ''say'' then SAY else ERROR), args = ws @ replicate (MAX_CMD_SIZE - length ws) ''''\<rparr>"
proof -
  have kw: "is_word kw" "DOLLAR \<notin> set kw" using assms(3) by (auto simp: is_word_def)
  have "words_of (unwords ws) = ws" using assms(1) by (intro words_of_unwords) (auto simp: is_word_def)
  then have "words_of (kw @ SP # unwords ws) = kw # ws"
    using assms(3) by (subst words_of_word_cons) auto
  then show "take 49 (words_of (remove1 DOLLAR (kw @ ''$ '' @ unwords ws))) = kw # ws"
    using assms(2) kw(2) by (simp add: remove1_append)
  have "map (take (NAME_SIZE - 1)) ws = ws"
    using assms(1) by (intro map_idI) (auto simp: NAME_SIZE_def)
  then show "command_handler junk (Some (kw # ws)) =
      \<lparr>kind = (if kw = ''say'' then SAY else ERROR), args = ws @ replicate (MAX_CMD_SIZE - length ws) ''''\<rparr>"
    using assms(2-4) by (elim disjE) (simp_all add: command_handler_closed kind_of_token_def MAX_CMD_SIZE_def)
qed

lemma error_handled:
  assumes "\<forall>w \<in> set us. is_word w \<and> length w < 20" and "length us \<le> 48" and "length (unwords us) < 300"
    and "length (args junk) = MAX_CMD_SIZE"
  shows "handle_cli_side_cmd junk (take 49 (words_of (remove1 DOLLAR (''error$ '' @ unwords us)))) v =
    Ok (v, [''Error from server: '' @ unwords us @ [NL], prompt (cli v)])"
proof -
  have "join (us @ replicate (MAX_CMD_SIZE - length us) '''') = Ok (unwords us)"
    using say_join [of us] assms(1-3) by simp
  then have "handle_cli_side_cmd junk (''error'' # us) v = Ok (v, [''Error from server: '' @ unwords us @ [NL], prompt (cli v)])"
    unfolding handle_cli_side_cmd_def text_command(2) [OF assms(1,2) disjI2 [OF refl] assms(4)]
    by (simp add: execute_server_command_def execute_error_response_def)
  moreover have "take 49 (words_of (remove1 DOLLAR (''error$ '' @ unwords us))) = ''error'' # us"
    using text_command(1) [OF assms(1,2) disjI2 [OF refl] assms(4)] by simp
  ultimately show ?thesis by (simp only:)
qed

lemma no_nul_unwords: "\<forall>w \<in> set ws. is_word w \<and> length w < 20 \<Longrightarrow> no_nul (unwords ws)"
  by (induction ws rule: unwords.induct) (auto simp: is_word_def)

lemma error_alone:
  assumes "kind cmd = ERROR" and "join (args cmd) = Ok t" and "command_handler junk (Some toks) = cmd"
  shows "\<exists>out. run_cthread 106 junk (Parse toks) (v, r, locked) = Some (Ok ((v, t, locked), out))"
  using run_failed_or_error [where cmd = cmd and v = v and junk = junk and r = r and locked = locked]
    run_cthread_Suc [of "Parse toks" 105] assms
  by (auto simp: execute_server_command_def execute_error_response_def start_exec_def)

text \<open>A step of one handler that signals nobody.\<close>

lemma quiet_step:
  assumes "running s" and "i < length (handlers s)" and "well_formed_command junk"
    and "cthread_step junk (handlers s ! i) (view s, join_result s, messages_mutex s) = Some (Ok ((v, r, l), th, []))"
    and "\<not> signals_messages (handlers s ! i)" and "\<not> signals_connection (handlers s ! i)"
  shows "client_act None s (s\<lparr>view := v, join_result := r, messages_mutex := l, handlers := (handlers s)[i := th]\<rparr>)"
  using handle [OF assms(1-4), of "waits_at s"] assms(5,6) by (cases s) (simp add: signalled_def)

text \<open>A thread for a line takes the mutex and empties the buffer before it joins.\<close>

lemma say_begins:
  assumes "running s" and "i < length (handlers s)" and "handlers s ! i = Parse toks" and "\<not> messages_mutex s"
    and "command_handler demo_junk (Some toks) = cmd" and "kind cmd = SAY"
  shows "(client_act None)\<^sup>*\<^sup>* s (s\<lparr>join_result := '''', messages_mutex := True, handlers := (handlers s)[i := Join_Word cmd 0]\<rparr>)"
proof -
  let ?s = "\<lambda>r l th. s\<lparr>join_result := r, messages_mutex := l, handlers := (handlers s)[i := th]\<rparr>"
  have step: "client_act None (?s r l th) (?s r' l' th')"
    if "cthread_step demo_junk th (view s, r, l) = Some (Ok ((view s, r', l'), th', []))"
      "\<not> signals_messages th" "\<not> signals_connection th" for r l th r' l' th'
    using quiet_step [of "?s r l th" i demo_junk "view s" r' l' th'] that assms(1,2) by (cases s) (simp add: running_def)
  have "(handlers s)[i := Parse toks] = handlers s" using assms(3) by (metis list_update_id)
  then have "?s (join_result s) False (Parse toks) = s" using assms(4) by (cases s) simp
  moreover have "client_act None (?s (join_result s) False (Parse toks)) (?s (join_result s) False (Say_Lock cmd))"
    by (rule step) (simp_all add: assms(5,6) start_exec_def)
  moreover have "client_act None (?s (join_result s) False (Say_Lock cmd)) (?s (join_result s) True (Join_Start cmd))"
    by (rule step) simp_all
  moreover have "client_act None (?s (join_result s) True (Join_Start cmd)) (?s '''' True (Join_Word cmd 0))"
    by (rule step) simp_all
  ultimately show ?thesis by (metis rtranclp.rtrancl_into_rtrancl rtranclp.rtrancl_refl)
qed

text \<open>Joining into a buffer that is not empty any more.\<close>

lemma join_overruns:
  assumes "running s" and "i < length (handlers s)" and "messages_mutex s" and "join_result s = t"
    and "handlers s ! i = Join_Word \<lparr>kind = k, args = ws @ replicate (MAX_CMD_SIZE - length ws) ''''\<rparr> 0"
    and "\<forall>w \<in> set ws. is_word w" and "ws \<noteq> []" and "length ws \<le> 48" and "300 \<le> length t + length (unwords ws)"
  shows "\<exists>s'. (client_act None)\<^sup>*\<^sup>* s s' \<and> cli_crashed s' = Some BufferOverflow"
proof -
  let ?cmd = "\<lparr>kind = k, args = ws @ replicate (MAX_CMD_SIZE - length ws) ''''\<rparr>"
  have "takeWhile (\<lambda>w. w \<noteq> '''') (ws @ replicate (MAX_CMD_SIZE - length ws) '''') = ws"
    using assms(6,8) by (subst takeWhile_append2) (auto simp: is_word_def MAX_CMD_SIZE_def Suc_diff_le)
  then have ws: "ws = takeWhile (\<lambda>w. w \<noteq> '''') (drop 0 (args ?cmd))" by simp
  have "join_loop (args ?cmd) 0 t = Fault BufferOverflow"
    using join_loop_eq [OF _ ws, of t] assms(7-9) by (simp add: MAX_CMD_SIZE_def JOIN_SIZE_def)
  then have "run_cthread (2 * (MAX_CMD_SIZE - 0) + 1 + 0) demo_junk (handlers s ! i) (view s, join_result s, messages_mutex s) =
      Some (Fault BufferOverflow)"
    using run_join [where cmd = ?cmd and i = 0 and r = t and k = 0 and junk = demo_junk and v = "view s" and locked = True]
      assms(3-5) by simp
  from run_cthread_acts [OF this assms(1,2) demo_junk_full(1)] show ?thesis by simp
qed

text \<open>
  C29. The static buffer of \<open>join\<close> is shared, and error texts are joined outside the mutex. So two
  messages, a line and an error text that the client handles without a fault when either is handled
  alone, bring it down if together they reach 300 characters and their handlers interleave: while the line is about to be
  joined, the other thread leaves its text in the buffer. From every reachable state of a running client in
  which no handler is at work, nothing is queued and there is room for more lines, hearing
  just these two datagrams can be followed by the overflow. Both can be honest answers of the server.
\<close>

theorem join_race_overflows:
  assumes "reach client_init client_step s" and "running s"
    and "q_contents (response_queue s) = []" and "set (handlers s) \<subseteq> {Finished}" and "message_count (view s) < 100"
    and "\<forall>w \<in> set ws. is_word w \<and> length w < 20" and "length ws \<le> 48" and "length (unwords ws) < 300"
    and "\<forall>w \<in> set us. is_word w \<and> length w < 20" and "length us \<le> 48" and "length (unwords us) < 300"
    and "300 \<le> length (unwords ws) + length (unwords us)"
  shows "(\<forall>t \<in> {''say$ '' @ unwords ws, ''error$ '' @ unwords us}. \<forall>junk. well_formed_command junk \<longrightarrow>
      (\<exists>v out. handle_cli_side_cmd junk (take 49 (words_of (remove1 DOLLAR t))) (view s) = Ok (v, out))) \<and>
    (\<exists>s'. hears client_act [Received a (''say$ '' @ unwords ws @ [NUL]), Received b (''error$ '' @ unwords us @ [NUL])] s s' \<and>
      cli_crashed s' = Some BufferOverflow)"
proof -
  note inv = client_proc.reach_inv [OF assms(1)]
  note free = idle_mutex_free [OF inv assms(4)]
  have nn: "no_nul (unwords ws)" "no_nul (unwords us)" using assms(6,9) by (simp_all add: no_nul_unwords)
  have m: "length (messages (view s)) = 100" using inv by (simp add: client_inv_def chat_inv_def MAX_MSGS_def)
  have alone: "\<exists>v out. handle_cli_side_cmd junk (take 49 (words_of (remove1 DOLLAR (''say$ '' @ unwords ws)))) (view s) = Ok (v, out)"
    "\<exists>v out. handle_cli_side_cmd junk (take 49 (words_of (remove1 DOLLAR (''error$ '' @ unwords us)))) (view s) = Ok (v, out)"
    if "well_formed_command junk" for junk
  proof -
    have len: "length (args junk) = MAX_CMD_SIZE" using that by (simp add: well_formed_command_def)
    show "\<exists>v out. handle_cli_side_cmd junk (take 49 (words_of (remove1 DOLLAR (''say$ '' @ unwords ws)))) (view s) = Ok (v, out)"
      using say_handled [OF assms(6-8) len, of "view s"] assms(5) m by auto
    show "\<exists>v out. handle_cli_side_cmd junk (take 49 (words_of (remove1 DOLLAR (''error$ '' @ unwords us)))) (view s) = Ok (v, out)"
      using error_handled [OF assms(9-11) len, of "view s"] by blast
  qed
  let ?v = "(view s)\<lparr>cli := (cli (view s))\<lparr>responder_addr := a\<rparr>\<rparr>" and ?i = "length (handlers s)"
  let ?w = "?v\<lparr>cli := (cli ?v)\<lparr>responder_addr := b\<rparr>\<rparr>"
  let ?cmd = "\<lparr>kind = SAY, args = ws @ replicate (MAX_CMD_SIZE - length ws) ''''\<rparr>"
  let ?err = "\<lparr>kind = ERROR, args = us @ replicate (MAX_CMD_SIZE - length us) ''''\<rparr>"
  obtain q buf where 1: "reacts client_act (Received a ((''say$ '' @ unwords ws) @ [NUL])) s (s\<lparr>view := ?v, response_queue := q,
      response_buffer := buf, handlers := handlers s @ [Parse (''say'' # ws)]\<rparr>)" "q_contents q = []"
    by (rule deliver_text [OF inv assms(2,3), of "''say$ '' @ unwords ws" a])
       (use nn assms(6-8) text_command(1) [OF assms(6,7), of "''say''" demo_junk] in simp_all)
  let ?s1 = "s\<lparr>view := ?v, response_queue := q, response_buffer := buf, handlers := handlers s @ [Parse (''say'' # ws)]\<rparr>"
  obtain q' b' where 2: "reacts client_act (Received b ((''error$ '' @ unwords us) @ [NUL])) ?s1 (?s1\<lparr>view := ?w, response_queue := q',
      response_buffer := b', handlers := handlers ?s1 @ [Parse (''error'' # us)]\<rparr>)"
    by (rule deliver_text [of ?s1 "''error$ '' @ unwords us" b, OF client_proc.steps_inv [OF reacts_acts [of client_act, OF 1(1)] inv]])
       (use 1(2) assms(2) nn assms(9-11) text_command(1) [OF assms(9,10), of "''error''" demo_junk] in simp_all)
  let ?s2 = "?s1\<lparr>view := ?w, response_queue := q', response_buffer := b', handlers := handlers ?s1 @ [Parse (''error'' # us)]\<rparr>"
  let ?s3 = "?s2\<lparr>join_result := '''', messages_mutex := True, handlers := (handlers ?s2)[?i := Join_Word ?cmd 0]\<rparr>"
  have 3: "(client_act None)\<^sup>*\<^sup>* ?s2 ?s3"
    by (rule say_begins) (use assms(2) free text_command(2) [OF assms(6,7), of "''say''" demo_junk] in \<open>simp_all add: nth_append\<close>)
  have "join (args ?err) = Ok (unwords us)" using say_join [of us] assms(9-11) by simp
  with error_alone [of ?err "unwords us" demo_junk "''error'' # us" ?w "''''" True]
    text_command(2) [OF assms(9,10), of "''error''" demo_junk] obtain out where
    "run_cthread 106 demo_junk (Parse (''error'' # us)) (?w, '''', True) = Some (Ok ((?w, unwords us, True), out))" by auto
  then obtain w where 4: "(client_act None)\<^sup>*\<^sup>* ?s3 (?s3\<lparr>view := ?w, join_result := unwords us, messages_mutex := True,
      handlers := (handlers ?s3)[Suc ?i := Finished], waits_at := w, screen := screen ?s3 @ out\<rparr>)"
    using run_cthread_acts [of 106 demo_junk ?s3 "Suc ?i" "Ok ((?w, unwords us, True), out)"] assms(2)
    by (auto simp: nth_append)
  let ?s4 = "?s3\<lparr>view := ?w, join_result := unwords us, messages_mutex := True,
      handlers := (handlers ?s3)[Suc ?i := Finished], waits_at := w, screen := screen ?s3 @ out\<rparr>"
  have "ws \<noteq> []" using assms(11,12) by auto
  then have "\<exists>s'. (client_act None)\<^sup>*\<^sup>* ?s4 s' \<and> cli_crashed s' = Some BufferOverflow"
    by (intro join_overruns [of ?s4 ?i "unwords us" SAY ws]) (use assms(2,6,7,12) in \<open>simp_all add: nth_append\<close>)
  then obtain s' where s': "(client_act None)\<^sup>*\<^sup>* ?s4 s'" "cli_crashed s' = Some BufferOverflow" by blast
  have "hears client_act [Received b ((''error$ '' @ unwords us) @ [NUL])] ?s1 s'"
    using reacts_hears [of client_act, OF reacts_then [of client_act, OF 2 rtranclp_trans [OF rtranclp_trans [OF 3 4] s'(1)]]] .
  from hears_trans [of client_act, OF this reacts_hears [of client_act, OF 1(1)]] s'(2) alone show ?thesis by auto
qed

theorem join_race_overflows_witness:
  "\<exists>s'. hears client_act [Received zero_addr (''say$ '' @ unwords (replicate 14 ''abcdefghijklmnopqrs'') @ [NUL]),
      Received zero_addr (''error$ '' @ unwords [''Permission'', ''denied.'', ''Only'', ''admin'', ''can'', ''kick'', ''users.''] @ [NUL])]
      idle_client s' \<and> cli_crashed s' = Some BufferOverflow"
  by (rule join_race_overflows [THEN conjunct2, of _ "replicate 14 ''abcdefghijklmnopqrs''"
        "[''Permission'', ''denied.'', ''Only'', ''admin'', ''can'', ''kick'', ''users.'']"])
     (simp_all add: idle_client_reach is_word_def eval_nat_numeral)

section \<open>Recording\<close>

text \<open>The lines on the screen: the rows in use, the muted ones included.\<close>

definition recorded :: "chat \<Rightarrow> string list" where
  "recorded v = take (message_count v) (messages v)"

text \<open>What a step of a thread does to them.\<close>

lemma cthread_step_recorded:
  assumes "cthread_step junk th (v, r, locked) = Some (Ok ((v', r', locked'), th', out))"
    and "message_count v \<le> length (messages v)"
  shows "case th of Say_Store cmd \<Rightarrow> recorded v' = recorded v @ [r] \<and> r' = r \<and> \<not> locked' \<and> th' = Finished
    | Disconnect_Clear \<Rightarrow> recorded v' = [] \<and> \<not> locked \<and> r' = r \<and> \<not> locked' \<and> th' = Finished
    | _ \<Rightarrow> recorded v' = recorded v"
  using assms
  by (cases th)
     (auto simp: recorded_def run_bind_def mute_exec_def unmute_exec_def rename_exec_def res_bind_def execute_ping_def
       take_Suc_conv_app_nth dest!: strcpy_cases split: option.splits sum.splits if_splits command_kind.splits)

text \<open>
  C34. Only the holder of the mutex records. In every reachable state of the client, at most one thread
  is recording a line, and it exists exactly while the mutex is held. Each step of the process, whatever is
  received, typed or done by whichever thread, leaves the recorded lines as they are, with two exceptions:
  the thread that holds the mutex appends the content of the join buffer, once, and releases the
  mutex; and a thread that executes a disconnect empties the list, while nobody holds the mutex.
\<close>

theorem only_mutex_holder_records:
  assumes "reach client_init client_step s" and "client_step s t"
  shows "length (filter in_say (handlers s)) = (if messages_mutex s then 1 else 0) \<and>
    (recorded (view t) = recorded (view s) \<or>
     (\<exists>i cmd. i < length (handlers s) \<and> handlers s ! i = Say_Store cmd \<and> messages_mutex s \<and>
        recorded (view t) = recorded (view s) @ [join_result s] \<and>
        handlers t = (handlers s)[i := Finished] \<and> \<not> messages_mutex t) \<or>
     (\<exists>i. i < length (handlers s) \<and> handlers s ! i = Disconnect_Clear \<and> \<not> messages_mutex s \<and>
        recorded (view t) = [] \<and> handlers t = (handlers s)[i := Finished]))"
proof -
  note inv = client_proc.reach_inv [OF assms(1)]
  then have n: "length (filter in_say (handlers s)) = (if messages_mutex s then 1 else 0)"
    and m: "message_count (view s) \<le> length (messages (view s))" by (simp_all add: client_inv_def chat_inv_def)
  from assms(2) obtain l where "client_act l s t" by (rule some_actE)
  then show ?thesis
  proof (cases rule: client_act.cases)
    case (handle i junk v r locked th out w)
    have say: "in_say (handlers s ! i) \<longrightarrow> messages_mutex s"
      using n handle(4) by (auto simp: filter_empty_conv split: if_splits)
    from cthread_step_recorded [OF handle(6) m] n say handle(2,4) show ?thesis
      by (cases "handlers s ! i") auto
  qed (use n in \<open>auto simp: recorded_def\<close>)
qed

text \<open>A line of one word is heard, joined and recorded.\<close>

theorem only_mutex_holder_records_witness:
  "\<exists>s t. reach client_init client_step s \<and> client_step s t \<and> recorded (view s) = [] \<and> recorded (view t) = [''hi''] \<and>
    messages_mutex s \<and> join_result s = ''hi'' \<and> \<not> messages_mutex t"
proof -
  let ?cmd = "\<lparr>kind = SAY, args = ''hi'' # replicate (MAX_CMD_SIZE - 1) ''''\<rparr>"
  have c: "command_handler demo_junk (Some [''say'', ''hi'']) = ?cmd"
    using text_command(2) [of "[''hi'']" "''say''" demo_junk] by (simp add: is_word_def)
  obtain q b where 1: "reacts client_act (Received zero_addr (''say$ hi'' @ [NUL])) idle_client (idle_client\<lparr>view := (view idle_client)
      \<lparr>cli := (cli (view idle_client))\<lparr>responder_addr := zero_addr\<rparr>\<rparr>, response_queue := q, response_buffer := b,
      handlers := [Parse [''say'', ''hi'']]\<rparr>)"
    by (rule deliver_text [OF client_proc.reach_inv [OF idle_client_reach], of "''say$ hi''" zero_addr])
       (simp_all add: words_of.simps)
  define B where "B = idle_client\<lparr>view := (view idle_client)\<lparr>cli := (cli (view idle_client))\<lparr>responder_addr := zero_addr\<rparr>\<rparr>,
      response_queue := q, response_buffer := b\<rparr>"
  have B: "running B" "message_count (view B) = 0" "messages (view B) = replicate 100 ''''"
    by (simp_all add: B_def)
  let ?s = "\<lambda>r l th. B\<lparr>join_result := r, messages_mutex := l, handlers := [th]\<rparr>"
  have 2: "(client_act None)\<^sup>*\<^sup>* (?s '''' False (Parse [''say'', ''hi''])) (?s '''' True (Join_Word ?cmd 0))"
    using say_begins [of "?s '''' False (Parse [''say'', ''hi''])" 0, OF _ _ _ _ c] B(1) by (cases B) (simp add: running_def)
  have step: "client_act None (?s r True th) (?s r' True th')"
    if "cthread_step demo_junk th (view (?s r True th), r, True) = Some (Ok ((view (?s r True th), r', True), th', []))"
      "\<not> signals_messages th" "\<not> signals_connection th" for r r' th th'
    using quiet_step [of "?s r True th" 0 demo_junk "view (?s r True th)" r' True th'] that B(1)
    by (cases B) (simp add: running_def)
  have 3: "client_act None (?s '''' True (Join_Word ?cmd 0)) (?s ''hi'' True (Join_Space ?cmd 0))"
    by (rule step) (simp_all add: strcat_def JOIN_SIZE_def MAX_CMD_SIZE_def)
  have 4: "client_act None (?s ''hi'' True (Join_Space ?cmd 0)) (?s ''hi'' True (Join_Word ?cmd 1))"
    by (rule step) (simp_all add: MAX_CMD_SIZE_def)
  have 5: "client_act None (?s ''hi'' True (Join_Word ?cmd 1)) (?s ''hi'' True (Say_Store ?cmd))"
    by (rule step) (simp_all add: MAX_CMD_SIZE_def after_join_def)
  let ?t = "?s ''hi'' True (Say_Store ?cmd)"
  have "(client_act None)\<^sup>*\<^sup>* (?s '''' False (Parse [''say'', ''hi''])) ?t"
    using 2 3 4 5 by (meson rtranclp.rtrancl_into_rtrancl)
  moreover have "?s '''' False (Parse [''say'', ''hi'']) = idle_client\<lparr>view := (view idle_client)
      \<lparr>cli := (cli (view idle_client))\<lparr>responder_addr := zero_addr\<rparr>\<rparr>, response_queue := q, response_buffer := b,
      handlers := [Parse [''say'', ''hi'']]\<rparr>" by (simp add: B_def idle_client_def Let_def)
  ultimately have r: "reach client_init client_step ?t"
    using reach_trans [OF reacts_acts [of client_act, OF reacts_then [of client_act, OF 1]] idle_client_reach] by simp
  obtain w where w: "signalled (Say_Store ?cmd) (waits_at ?t) w" by (rule ex_signalled)
  let ?v = "(view ?t)\<lparr>messages := (messages (view ?t))[0 := ''hi''], message_count := 1\<rparr>"
  let ?u = "?t\<lparr>view := ?v, join_result := ''hi'', messages_mutex := False, handlers := [Finished], waits_at := w,
      screen := screen ?t @ []\<rparr>"
  have u: "client_step ?t ?u"
    using some_actI [of client_act, OF handle [of ?t 0 demo_junk ?v "''hi''" False Finished "[]"]] w B
    by (simp add: strcpy_def MAX_LEN_def)
  have "recorded (view ?t) = []" "recorded (view ?u) = [''hi'']"
    by (simp_all add: recorded_def B take_Suc_conv_app_nth)
  with only_mutex_holder_records [OF r u] r u show ?thesis
    by (intro exI [of _ ?t] exI [of _ ?u]) auto
qed

end
