(* ===== verification/Wire_Texts.thy ===== *)
theory Wire_Texts
  imports Client_Threads Server_Properties
begin

text \<open>
  The texts the two programs exchange: a keyword, a dollar sign and a body. \<open>client_safe\<close> is the
  contract of a text sent to a client; the client's handler executes every such text without a
  fault.
\<close>

section \<open>Texts between the two programs\<close>

lemma words_of_snoc_space: "words_of (s @ [SP]) = words_of s"
proof (induction s rule: words_of.induct)
  case 1
  then show ?case by simp
next
  case (2 c r)
  show ?case
  proof (cases "c = SP")
    case True
    with 2 show ?thesis by simp
  next
    case False
    show ?thesis
    proof (cases "SP \<in> set r")
      case True
      then have "takeWhile (\<lambda>x. x \<noteq> SP) (r @ [SP]) = takeWhile (\<lambda>x. x \<noteq> SP) r"
        "dropWhile (\<lambda>x. x \<noteq> SP) (r @ [SP]) = dropWhile (\<lambda>x. x \<noteq> SP) r @ [SP]"
        by (induction r) auto
      with False 2 show ?thesis by simp
    next
      case r: False
      then show ?thesis using False
        by (simp add: takeWhile_stop takeWhile_noop dropWhile_noop dropWhile_stop)
    qed
  qed
qed

lemma unwords_words_le: "length (unwords (words_of s)) \<le> length s"
  by (rule order_trans [OF length_unwords_words_of length_dropWhile_le])

lemma unwords_take_le: "length (unwords (map (take k) (take n ws))) \<le> length (unwords ws)"
proof (induction ws arbitrary: n)
  case Nil
  then show ?case by simp
next
  case (Cons w ws)
  show ?case
  proof (cases n)
    case 0
    then show ?thesis by simp
  next
    case (Suc m)
    with Cons.IH [of m] show ?thesis by (auto simp: length_unwords_Cons)
  qed
qed

text \<open>A message as the programs build it: a keyword, a dollar sign and a body.\<close>

lemma message_words:
  assumes "is_word kw" and "DOLLAR \<notin> set kw"
  shows "words_of (remove1 DOLLAR (kw @ ''$ '' @ body)) = kw # words_of body"
    and "words_of (remove1 DOLLAR (kw @ ''$'')) = [kw]"
  using assms by (simp_all add: remove1_append words_of_word_cons words_of_word_end is_word_def)

lemma keyword_word [simp]: "is_word (keyword k)" "DOLLAR \<notin> set (keyword k)"
  by (cases k; simp add: is_word_def)+

lemma client_command:
  assumes "well_formed_command junk" and "no_nul body"
  shows "command_handler junk (Some (take 49 (keyword k # words_of body))) =
      \<lparr>kind = k, args = map (take 19) (take 48 (words_of body)) @
         replicate (50 - min 48 (length (words_of body))) ''''\<rparr>"
proof -
  have len: "length (args junk) = MAX_CMD_SIZE" using assms(1) by (simp add: well_formed_command_def)
  have "take 49 (keyword k # words_of body) = keyword k # take 48 (words_of body)" by simp
  then show ?thesis
    by (simp add: command_handler_closed [OF len] NAME_SIZE_def MAX_CMD_SIZE_def min.commute)
qed

lemma client_join:
  assumes "no_nul body" and "length (unwords (words_of body)) < 300"
  shows "\<exists>t. join (map (take 19) (take 48 (words_of body)) @ replicate (50 - min 48 (length (words_of body))) '''') = Ok t"
proof -
  let ?ws = "map (take 19) (take 48 (words_of body))"
  have ne: "\<forall>w \<in> set ?ws. w \<noteq> ''''"
    using words_of_is_word [OF assms(1)] by (auto simp: is_word_def dest: in_set_takeD)
  have len: "length ?ws = min 48 (length (words_of body))" by simp
  have "?ws = takeWhile (\<lambda>w. w \<noteq> '''') (?ws @ replicate (50 - min 48 (length (words_of body))) '''')"
    using ne by (subst takeWhile_append2) (auto simp: min_def Suc_diff_le)
  from join_eq [OF _ this] show ?thesis
    using unwords_take_le [of 19 48 "words_of body"] assms(2) len
    by (simp add: MAX_CMD_SIZE_def JOIN_SIZE_def)
qed

lemma client_handles:
  assumes "well_formed_command junk" and "no_nul body" and "k \<noteq> UNKNOWN"
    and "k \<in> {SAY, ERROR, CONN_FAILED} \<Longrightarrow> length (unwords (words_of body)) < 300"
    and "chat_inv v" and "message_count v < 100"
  shows "\<exists>r. handle_cli_side_cmd junk (take 49 (words_of (remove1 DOLLAR (keyword k @ ''$ '' @ body)))) v = Ok r"
proof -
  let ?args = "map (take 19) (take 48 (words_of body)) @ replicate (50 - min 48 (length (words_of body))) ''''"
  have c: "command_handler junk (Some (take 49 (words_of (remove1 DOLLAR (keyword k @ ''$ '' @ body))))) =
      \<lparr>kind = k, args = ?args\<rparr>"
    unfolding message_words(1) [OF keyword_word] by (rule client_command [OF assms(1,2)])
  have a0: "length (?args ! 0) < NAME_SIZE"
    by (cases "words_of body") (auto simp: NAME_SIZE_def)
  have j: "\<exists>t. join ?args = Ok t" if "k \<in> {SAY, ERROR, CONN_FAILED}"
    using client_join [OF assms(2) assms(4) [OF that]] .
  have fits: "strcpy MAX_LEN t = Ok t" if "join ?args = Ok t" for t
    using join_length [OF that] by (simp add: strcpy_def JOIN_SIZE_def MAX_LEN_def)
  have "\<exists>r. execute_server_command \<lparr>kind = k, args = rows\<rparr> v = Ok r"
    if "length (rows ! 0) < NAME_SIZE" "k \<in> {SAY, ERROR, CONN_FAILED} \<Longrightarrow> \<exists>t. join rows = Ok t"
      "\<And>t. join rows = Ok t \<Longrightarrow> strcpy MAX_LEN t = Ok t" for rows
    using that assms(5,6)
    by (cases k) (auto simp: execute_server_command_def execute_connect_response_def
        execute_connect_failed_def execute_disconnect_response_def execute_error_response_def say_exec_def
        mute_exec_def unmute_exec_def rename_exec_def execute_ping_def strcpy_def chat_inv_def MAX_MSGS_def)
  from this [OF a0 j fits] show ?thesis by (simp only: handle_cli_side_cmd_def c)
qed

section \<open>What the server sends, the client can take\<close>

text \<open>
  What may follow the keyword: a name that fits its array, or words that fit the client's buffer.
  Other keywords are not for clients.
\<close>

definition reply_body :: "command_kind \<Rightarrow> string \<Rightarrow> bool" where
  "reply_body k body \<longleftrightarrow> no_nul body \<and>
     (k \<in> {CONN_SUCCESS, MUTE, UNMUTE, RENAME} \<and> length body < NAME_SIZE \<or>
      k \<in> {SAY, ERROR} \<and> length (unwords (words_of body)) < JOIN_SIZE)"

definition client_safe :: "string \<Rightarrow> bool" where
  "client_safe t \<longleftrightarrow> t = keyword DISCONN_RESPONSE @ ''$'' \<or> t = keyword PING @ ''$'' \<or>
     (\<exists>k body. t = keyword k @ ''$ '' @ body \<and> reply_body k body)"

lemma client_safe_handled:
  assumes "client_safe t" and "well_formed_command junk" and "chat_inv v" and "message_count v < 100"
  shows "\<exists>r. handle_cli_side_cmd junk (take 49 (words_of (remove1 DOLLAR t))) v = Ok r"
proof -
  have len: "length (args junk) = MAX_CMD_SIZE" using assms(2) by (simp add: well_formed_command_def)
  have bare: "\<exists>r. handle_cli_side_cmd junk (take 49 (words_of (remove1 DOLLAR (keyword k @ ''$'')))) v = Ok r"
    if "k = DISCONN_RESPONSE \<or> k = PING" for k
    using that unfolding message_words(2) [OF keyword_word]
    by (auto simp: handle_cli_side_cmd_def command_handler_closed [OF len] kind_of_token_def
        execute_server_command_def execute_disconnect_response_def execute_ping_def)
  from assms(1) consider "t = keyword DISCONN_RESPONSE @ ''$'' \<or> t = keyword PING @ ''$''"
    | k body where "t = keyword k @ ''$ '' @ body" "k \<noteq> UNKNOWN" "no_nul body"
      "k \<in> {SAY, ERROR, CONN_FAILED} \<Longrightarrow> length (unwords (words_of body)) < 300"
    unfolding client_safe_def reply_body_def JOIN_SIZE_def by blast
  then show ?thesis
  proof cases
    case 1
    then show ?thesis using bare by metis
  next
    case (2 k body)
    with client_handles [OF assms(2) _ _ _ assms(3,4), of body k] show ?thesis by simp
  qed
qed

lemma client_safeI: "reply_body k body \<Longrightarrow> t = keyword k @ ''$ '' @ body \<Longrightarrow> client_safe t"
  by (auto simp: client_safe_def)

lemma client_safe_say:
  "no_nul t \<Longrightarrow> length t < 507 \<Longrightarrow> length (unwords (words_of t)) < 300 \<Longrightarrow> client_safe (say_text t)"
  by (rule client_safeI [of SAY t])
     (simp_all add: reply_body_def JOIN_SIZE_def say_text_def snprintf_def RESPONSE_BUFFER_SIZE_def MAX_MESSAGE_def)

lemma reply_body_short [intro]:
  "no_nul t \<Longrightarrow> length t < 200 \<Longrightarrow> k \<in> {SAY, ERROR} \<Longrightarrow> reply_body k t"
  "no_nul t \<Longrightarrow> length t < 20 \<Longrightarrow> k \<in> {CONN_SUCCESS, MUTE, UNMUTE, RENAME} \<Longrightarrow> reply_body k t"
  using le_less_trans [OF unwords_words_le, of t 300] by (auto simp: reply_body_def JOIN_SIZE_def NAME_SIZE_def)

lemma joined_from_end:
  assumes "length acc \<le> max_len - 2" and "2 \<le> max_len"
  shows "length (joined_from max_len first acc ws) \<le> max_len - 2 \<or>
    (\<exists>u. joined_from max_len first acc ws = u @ [SP] \<and> length u \<le> max_len - 2)"
  using assms
proof (induction max_len first acc ws rule: joined_from.induct)
  case (1 max_len first acc)
  then show ?case by simp
next
  case (2 max_len first acc w ws)
  let ?acc = "if \<not> first \<and> length acc < max_len - 1 then acc @ '' '' else acc"
  show ?case
  proof (cases "length ?acc + length w < max_len - 1")
    case True
    then have "length (?acc @ w) \<le> max_len - 2" by auto
    from "2.IH" [OF refl True this "2.prems"(2)] True show ?thesis by (simp add: Let_def)
  next
    case False
    with "2.prems" show ?thesis by (auto simp: Let_def)
  qed
qed

lemma message_words_le: "length (unwords (words_of (x @ message_of i cmd))) \<le> length x + 254"
proof -
  let ?m = "message_of i cmd"
  have "length ?m \<le> 254 \<or> (\<exists>u. ?m = u @ [SP] \<and> length u \<le> 254)"
    using joined_from_end [of "''''" MAX_MESSAGE True "args_from i cmd"]
    by (simp add: message_of_def MAX_MESSAGE_def)
  then show ?thesis
  proof
    assume "length ?m \<le> 254"
    with unwords_words_le [of "x @ ?m"] show ?thesis by simp
  next
    assume "\<exists>u. ?m = u @ [SP] \<and> length u \<le> 254"
    then obtain u where u: "?m = u @ [SP]" "length u \<le> 254" by blast
    have "words_of (x @ ?m) = words_of (x @ u)"
      using words_of_snoc_space [of "x @ u"] by (simp add: u(1))
    with unwords_words_le [of "x @ u"] u(2) show ?thesis by simp
  qed
qed

lemma private_message_safe:
  assumes "no_nul x" and "length x < 27" and "well_formed_command cmd"
  shows "client_safe (say_text (x @ '':(private message) '' @ message_of i cmd))"
proof -
  have m: "no_nul (message_of i cmd)" "length (message_of i cmd) < 256"
    using message_no_nul [OF assms(3)] message_of_length [of i cmd] by (simp_all add: MAX_MESSAGE_def)
  show ?thesis
    using message_words_le [of "x @ '':(private message) ''" i cmd] assms(1,2) m
    by (intro client_safe_say) simp_all
qed

lemma demo_chat_inv [simp]: "chat_inv demo_chat"
  using table_inv_empty by (simp add: chat_inv_def MAX_MSGS_def NAME_SIZE_def)

end
