(* ===== verification/Server_Typing.thy ===== *)
theory Server_Typing
  imports Server_Main Wire_Texts
begin

text \<open>
  What the C types leave unsaid, as an invariant of the whole server process: every string in a
  \<open>char[]\<close> has its NUL inside the array, whoever wrote it and in whatever order the threads ran. It
  gives the contract of the datagrams: each is a complete C string that the client's handler
  executes without a fault.
\<close>

section \<open>Typed states\<close>

definition heap_typed :: "store \<Rightarrow> bool" where
  "heap_typed s \<longleftrightarrow> (\<forall>n \<in> ran (cells s). name_ok (client_name n))"

definition server_typed :: "server \<Rightarrow> bool" where
  "server_typed st \<longleftrightarrow> heap_typed (clients st) \<and> (\<forall>l. Some l \<in> set (chat_history st) \<longrightarrow> line_ok l)"

fun thread_typed :: "hthread \<Rightarrow> bool" where
  "thread_typed (Activity cmd from node) = well_formed_command cmd"
| "thread_typed (Connect_Add cmd from) = well_formed_command cmd"
| "thread_typed (Connect_Reply cmd from) = well_formed_command cmd"
| "thread_typed (Sayto_Lookup cmd from) = well_formed_command cmd"
| "thread_typed (Sayto_Send cmd c f) = well_formed_command cmd"
| "thread_typed (hthread.Say_Head cmd from) = well_formed_command cmd"
| "thread_typed (hthread.Say_Lookup cmd from node) = well_formed_command cmd"
| "thread_typed (hthread.Say_Format cmd node f) = well_formed_command cmd"
| "thread_typed (hthread.Say_Store line node) = line_ok line"
| "thread_typed (hthread.Say_Count line node) = line_ok line"
| "thread_typed (hthread.Say_Broadcast line node) = line_ok line"
| "thread_typed (Mute_Reply cmd from) = well_formed_command cmd"
| "thread_typed (Unmute_Reply cmd from) = well_formed_command cmd"
| "thread_typed (Rename_Update cmd from) = well_formed_command cmd"
| "thread_typed (Rename_Reply cmd from) = well_formed_command cmd"
| "thread_typed (Kick_Check cmd from) = well_formed_command cmd"
| "thread_typed (Kick_Remove cmd) = well_formed_command cmd"
| "thread_typed (Kick_Notify cmd from) = well_formed_command cmd"
| "thread_typed (Kick_Announce cmd) = well_formed_command cmd"
| "thread_typed (Manager_Notify q name) = name_ok name"
| "thread_typed (Manager_Remove name) = name_ok name"
| "thread_typed th = True"

definition datagram_ok :: "datagram \<Rightarrow> bool" where
  "datagram_ok d \<longleftrightarrow> terminated d \<and> nbytes d \<le> BUFFER_SIZE \<and> client_safe (payload d)"

definition system_typed :: "system \<Rightarrow> bool" where
  "system_typed s \<longleftrightarrow> sys_inv s \<and> server_typed (srv s) \<and> list_all thread_typed (pool s) \<and> list_all datagram_ok (sent s)"

definition process_typed :: "process \<Rightarrow> bool" where
  "process_typed s \<longleftrightarrow> process_inv s \<and> system_typed (sys s)"

section \<open>The heap\<close>

lemma heap_typed_deref [intro]: "heap_typed s \<Longrightarrow> deref s q = Ok n \<Longrightarrow> name_ok (client_name n)"
  by (auto simp: heap_typed_def deref_def ran_def split: if_splits option.splits)

lemma heap_typed_update:
  "heap_typed s \<Longrightarrow> name_ok (client_name n) \<Longrightarrow> heap_typed (s\<lparr>cells := (cells s)(q \<mapsto> n)\<rparr>)"
  by (auto simp: heap_typed_def ran_def)

lemma heap_typed_represents:
  "represents s ps cs \<Longrightarrow> heap_typed s \<longleftrightarrow> (\<forall>c \<in> set cs. name_ok (client_name c))"
  by (auto simp: heap_typed_def represents_def ran_def dom_def)

lemma heap_typed_remove:
  assumes "store_inv s" and "heap_typed s" and "remove_client_from_list s name = Some (Ok (s', a))"
  shows "heap_typed s'"
proof -
  obtain ps cs where ps: "represents s ps cs" using assms(1) by (auto simp: store_inv_def)
  from remove_represents [OF ps, of name] assms(3) obtain qs where qs: "represents s' qs (drop_named name cs)"
    by auto
  with assms(2) ps set_drop_named [of name cs] show ?thesis
    by (auto simp: heap_typed_represents)
qed

lemma heap_typed_add:
  assumes "store_inv s" and "heap_typed s" and "p \<noteq> 0" and "cells s p = None" and "name_ok name"
    and "add_client_to_list p now s addr name = Ok s'"
  shows "heap_typed s'"
proof -
  obtain ps cs where ps: "represents s ps cs" using assms(1) by (auto simp: store_inv_def)
  from add_represents [OF ps assms(3,4), of now addr name] assms(6)
  have "represents s' (ps @ [p]) (cs @ [new_client addr name now])" by auto
  with assms(2,5) ps show ?thesis by (auto simp: heap_typed_represents new_client_def name_ok_def)
qed

lemma cm_scan_typed:
  assumes "store_inv s" and "heap_typed s" and "cm_scan now (cells s) (head s) = Some (Ok (To_Kick q name))"
  shows "name_ok name"
proof -
  obtain ps cs where ps: "represents s ps cs" using assms(1) by (auto simp: store_inv_def)
  then have p: "path (cells s) (head s) ps 0" "cs = map (content_of (cells s)) ps" by (auto simp: represents_def)
  from assms(3) cm_scan_path [OF p(1), of now] p(2) obtain c where
    "find (acted_on now) cs = Some c" "name = take (NAME_SIZE - 1) (client_name c)"
    by (auto split: option.splits if_splits)
  with assms(2) ps show ?thesis by (auto simp: heap_typed_represents name_ok_def NAME_SIZE_def find_Some_iff)
qed

section \<open>The texts of the datagrams\<close>

lemma keyword_length: "length (keyword k) \<le> 15"
  by (cases k) simp_all

lemma reply_sizes [simp]: "MAX_MESSAGE \<le> BUFFER_SIZE" "RESPONSE_BUFFER_SIZE \<le> BUFFER_SIZE"
  by (simp_all add: MAX_MESSAGE_def RESPONSE_BUFFER_SIZE_def BUFFER_SIZE_def)

lemma reply_ok:
  assumes "reply_body k t" and "length t < 200" and "MAX_MESSAGE \<le> n" and "n \<le> BUFFER_SIZE"
  shows "datagram_ok (udp_socket_write a (keyword k @ ''$ '' @ t) n)"
    and "datagram_ok (udp_socket_write a (snprintf n (keyword k @ ''$ '' @ t)) n)"
proof -
  have l: "length (keyword k @ ''$ '' @ t) < n"
    using assms(2,3) keyword_length [of k] by (simp add: MAX_MESSAGE_def)
  have "no_nul (keyword k)" "no_nul t"
    using keyword_word(1) [of k] assms(1) by (simp_all add: is_word_def reply_body_def)
  with l client_safeI [OF assms(1) refl]
  show 1: "datagram_ok (udp_socket_write a (keyword k @ ''$ '' @ t) n)" using assms(4) by (simp add: datagram_ok_def)
  with snprintf_fits [OF l] show "datagram_ok (udp_socket_write a (snprintf n (keyword k @ ''$ '' @ t)) n)"
    by simp
qed

lemma bare_ok:
  "datagram_ok (udp_socket_write a (snprintf MAX_MESSAGE ''disconnresponse$'') MAX_MESSAGE)"
  "datagram_ok (udp_socket_write a (snprintf MAX_MESSAGE ''ping$'') MAX_MESSAGE)"
  by (simp_all add: datagram_ok_def client_safe_def snprintf_def MAX_MESSAGE_def BUFFER_SIZE_def)

lemma line_sent_ok:
  assumes "line_ok l"
  shows "datagram_ok (udp_socket_write a (say_text l) RESPONSE_BUFFER_SIZE)"
proof -
  have l: "no_nul l" "length l < 300" using assms by (auto simp: line_ok_def server_consts)
  then have "length (unwords (words_of l)) < 300" using unwords_words_le [of l] by simp
  with l show ?thesis by (simp add: datagram_ok_def client_safe_say)
qed

lemma private_sent_ok:
  assumes "no_nul x" and "length x < 27" and "well_formed_command cmd"
  shows "datagram_ok (udp_socket_write a (say_text (x @ '':(private message) '' @ message_of i cmd)) RESPONSE_BUFFER_SIZE)"
  using private_message_safe [OF assms] assms(1) message_no_nul [OF assms(3)] by (simp add: datagram_ok_def)

lemma broadcast_loop_texts:
  assumes "broadcast_loop t h acc node = Some r" and "r = Ok ds"
    and "set acc \<subseteq> range (\<lambda>a. udp_socket_write a t RESPONSE_BUFFER_SIZE)"
  shows "set ds \<subseteq> range (\<lambda>a. udp_socket_write a t RESPONSE_BUFFER_SIZE)"
  using assms
proof (induction t h acc node r rule: broadcast_loop.raw_induct [rotated, consumes 1, case_names step])
  case (step f t h acc node r)
  show ?case
  proof (cases "node = 0")
    case True
    with step(2,3,4) show ?thesis by simp
  next
    case False
    with step(2,3) obtain n where "h node = Some n" by (cases "h node") auto
    with False step(2) have "f t h (acc @ [udp_socket_write (client_address n) t RESPONSE_BUFFER_SIZE]) (nxt n) = Some r"
      by simp
    from step(1) [OF this step(3)] step(4) show ?thesis by simp
  qed
qed

lemma broadcast_ok:
  assumes "broadcast t st node = Some (Ok ds)"
    and "\<And>a. datagram_ok (udp_socket_write a t RESPONSE_BUFFER_SIZE)"
  shows "list_all datagram_ok ds"
  using broadcast_loop_texts [OF assms(1) [unfolded broadcast_def] refl] assms(2) by (auto simp: list_all_iff)

section \<open>Steps keep types\<close>

lemma wf_arg:
  "well_formed_command cmd \<Longrightarrow> no_nul (arg cmd 0)" "well_formed_command cmd \<Longrightarrow> length (arg cmd 0) < 20"
  using command_ok_arg by (auto simp: name_ok_def NAME_SIZE_def)

lemma spawn_typed: "well_formed_command cmd \<Longrightarrow> thread_typed (spawn cmd from)"
  by (simp add: spawn_def split: command_kind.split)

lemma fixed_texts:
  "list_all datagram_ok (kick_denied from)" "list_all datagram_ok (handle_unknown_command from)"
  "list_all datagram_ok (disconnect_reply addr)"
  using reply_ok(2) [OF reply_body_short(1), of "''Permission denied. Only admin can kick users.''" ERROR MAX_MESSAGE "from"]
    reply_ok(2) [OF reply_body_short(1), of "''Unknown command''" ERROR MAX_MESSAGE "from"] bare_ok(1)
  by (simp_all add: kick_denied_def handle_unknown_command_def disconnect_reply_def split: option.split)

lemma name_texts:
  assumes "well_formed_command cmd"
  shows "list_all datagram_ok (mute cmd from)" and "list_all datagram_ok (unmute cmd from)"
    and "list_all datagram_ok (rename_reply cmd from)"
  using reply_ok(2) [OF reply_body_short(2), of "arg cmd 0" MUTE MAX_MESSAGE "from"]
    reply_ok(2) [OF reply_body_short(2), of "arg cmd 0" UNMUTE MAX_MESSAGE "from"]
    reply_ok(2) [OF reply_body_short(2), of "arg cmd 0" RENAME MAX_MESSAGE "from"] wf_arg [OF assms]
  by (simp_all add: mute_def unmute_def rename_reply_def)

lemmas short_texts = fixed_texts name_texts

lemma connect_texts:
  assumes "well_formed_command cmd" and "connect_reply cmd from = Ok ds"
  shows "list_all datagram_ok ds"
  using reply_ok(1) [OF reply_body_short(2), of "arg cmd 0" CONN_SUCCESS MAX_MESSAGE "from"] wf_arg [OF assms(1)] assms(2)
  by (auto simp: connect_reply_def strcpy_def res_bind_def split: if_splits)

lemma history_texts:
  assumes "server_typed st" and "history_slot from i st = Ok ds"
  shows "list_all datagram_ok ds"
proof (cases "chat_history st ! i")
  case None
  with assms(2) show ?thesis by (auto simp: history_slot_def split: if_splits)
next
  case (Some l)
  with assms have "Some l \<in> set (chat_history st)" by (metis history_slot_def in_set_conv_nth sum.distinct(1))
  with assms(1) have "line_ok l" by (auto simp: server_typed_def)
  from line_sent_ok [OF this, of "from"] Some assms(2) show ?thesis
    by (auto simp: history_slot_def say_text_def split: if_splits)
qed

lemma sayto_texts:
  assumes "heap_typed (clients st)" and "well_formed_command cmd" and "sayto_send cmd c f st = Ok ds"
  shows "list_all datagram_ok ds"
proof -
  have j: "join_args (args cmd) (Suc 0) MAX_MESSAGE = Ok (message_of (Suc 0) cmd)"
    using assms(2) by (simp add: join_args_message well_formed_command_def)
  note a = wf_arg [OF assms(2)]
  have nm: "no_nul (client_name n) \<and> length (client_name n) < 20" if "deref (clients st) q = Ok n" for q n
    using heap_typed_deref [OF assms(1) that] by (simp add: name_ok_def NAME_SIZE_def)
  have e: "datagram_ok (udp_socket_write b (snprintf RESPONSE_BUFFER_SIZE (''error$ User not found. ('' @ arg cmd 0 @ '')'')) RESPONSE_BUFFER_SIZE)" for b
    using reply_ok(2) [OF reply_body_short(1), of "''User not found. ('' @ arg cmd 0 @ '')''" ERROR RESPONSE_BUFFER_SIZE b] a
    by (simp add: RESPONSE_BUFFER_SIZE_def MAX_MESSAGE_def BUFFER_SIZE_def)
  have t: "datagram_ok (udp_socket_write b (say_text ((''you to '' @ arg cmd 0) @ '':(private message) '' @ message_of 1 cmd)) RESPONSE_BUFFER_SIZE)" for b
    using a by (intro private_sent_ok assms(2)) simp_all
  have p: "datagram_ok (udp_socket_write b (say_text (client_name n @ '':(private message) '' @ message_of 1 cmd)) RESPONSE_BUFFER_SIZE)"
    if "deref (clients st) q = Ok n" for b q n
    using nm [OF that] by (intro private_sent_ok assms(2)) simp_all
  show ?thesis
    using assms(3) e t [unfolded say_text_def] p [unfolded say_text_def]
    by (auto simp: sayto_send_def j res_bind_def split: sum.splits if_splits)
qed

lemma server_typed_clients: "server_typed st \<Longrightarrow> heap_typed s \<Longrightarrow> server_typed (st\<lparr>clients := s\<rparr>)"
  by (simp add: server_typed_def)

lemma line_of_typed:
  assumes "heap_typed (clients st)" and "well_formed_command cmd" and "say_format cmd f st = Ok line"
  shows "line_ok line"
proof -
  obtain n where "deref (clients st) f = Ok n" "line = line_of (client_name n) (message_of 0 cmd)"
    using assms(2,3) by (auto simp: say_format_def join_args_message well_formed_command_def res_bind_def split: sum.splits)
  with heap_typed_deref [OF assms(1)] message_no_nul [OF assms(2)] show ?thesis
    by (auto intro: line_of_ok simp: name_ok_def)
qed

lemma thread_step_typed:
  assumes inv: "store_inv (clients st)" and ty: "server_typed st" "thread_typed th"
    and p: "p \<noteq> 0" "cells (clients st) p = None"
    and step: "thread_step p now th st = Some (Ok (st', th', ds))"
  shows "server_typed st' \<and> thread_typed th' \<and> list_all datagram_ok ds"
proof -
  have heap: "heap_typed (clients st)" using ty(1) by (simp add: server_typed_def)
  note upd = server_typed_clients [OF ty(1) heap_typed_update [OF heap]]
  note rem = server_typed_clients [OF ty(1) heap_typed_remove [OF inv heap]]
  show ?thesis
  proof (cases th)
    case (Activity cmd a node)
    then show ?thesis
      using step ty spawn_typed upd heap_typed_deref [OF heap]
      by (auto simp: run_bind_def split: option.splits sum.splits if_splits)
  next
    case (Connect_Add cmd a)
    then show ?thesis
      using step ty server_typed_clients [OF ty(1) heap_typed_add [OF inv heap p, of "arg cmd 0"]] command_ok_arg
      by (auto simp: connect_add_def res_bind_def run_bind_def split: sum.splits)
  next
    case (Connect_Reply cmd a)
    then show ?thesis
      using step ty connect_texts [of cmd a] by (auto simp: run_bind_def split: sum.splits)
  next
    case (Connect_History a i)
    then show ?thesis
      using step ty history_texts [of st a i] by (auto simp: run_bind_def split: sum.splits if_splits)
  next
    case (Sayto_Send cmd c f)
    then show ?thesis
      using step ty sayto_texts [OF heap, of cmd c f] by (auto simp: run_bind_def split: sum.splits)
  next
    case (Say_Format cmd node f)
    then show ?thesis
      using step ty line_of_typed [OF heap, of cmd f] by (auto simp: run_bind_def split: sum.splits if_splits)
  next
    case (Say_Broadcast line node)
    then show ?thesis
      using step ty broadcast_ok [OF _ line_sent_ok, of _ st node]
      by (auto simp: run_bind_def split: option.splits sum.splits)
  next
    case (Kick_Announce cmd)
    have "datagram_ok (udp_socket_write a (snprintf RESPONSE_BUFFER_SIZE (''say$ SERVER: '' @ arg cmd 0 @ '' has been kicked'')) RESPONSE_BUFFER_SIZE)" for a
      using reply_ok(2) [OF reply_body_short(1), of "''SERVER: '' @ arg cmd 0 @ '' has been kicked''" SAY RESPONSE_BUFFER_SIZE a] wf_arg [of cmd] ty Kick_Announce
      by (simp add: RESPONSE_BUFFER_SIZE_def MAX_MESSAGE_def BUFFER_SIZE_def)
    from broadcast_ok [OF _ this, of st] show ?thesis
      using step ty Kick_Announce
      by (auto simp: run_bind_def kick_announce_def split: option.splits sum.splits)
  next
    case (Disconnect_Remove node)
    then show ?thesis
      using step ty rem by (auto simp: disconnect_remove_def run_bind_def split: option.splits sum.splits if_splits)
  next
    case (Kick_Remove cmd)
    then show ?thesis
      using step ty rem by (auto simp: kick_remove_def run_bind_def split: option.splits sum.splits)
  next
    case (Manager_Remove name)
    then show ?thesis
      using step ty rem by (auto simp: cm_remove_def run_bind_def split: option.splits sum.splits)
  next
    case (Rename_Update cmd a)
    then show ?thesis
      using step ty upd command_ok_arg
      by (auto simp: rename_update_def run_bind_def strcpy_def split: option.splits sum.splits if_splits)
  next
    case (Manager_Ping t q)
    then show ?thesis
      using step ty upd heap_typed_deref [OF heap] bare_ok(2)
      by (auto simp: cm_ping_def res_bind_def run_bind_def split: sum.splits)
  next
    case (Manager_Notify q name)
    then show ?thesis
      using step ty bare_ok(1) by (auto simp: cm_notify_def res_bind_def run_bind_def split: sum.splits)
  next
    case Manager_Sleep
    then show ?thesis
      using step ty cm_scan_typed [OF inv heap]
      by (auto simp: run_bind_def split: option.splits sum.splits cm_choice.splits)
  next
    case (Say_Store line node)
    then show ?thesis
      using step ty by (auto simp: run_bind_def say_store_def server_typed_def
          dest!: set_update_subset_insert [THEN subsetD] split: if_splits sum.splits)
  next
    case (Say_Count line node)
    then show ?thesis using step ty by (auto simp: say_count_def server_typed_def)
  qed (use step ty short_texts in \<open>auto simp: run_bind_def split: option.splits sum.splits if_splits\<close>)
qed

lemma thread_move_typed: "thread_move i s t \<Longrightarrow> system_typed s \<Longrightarrow> system_typed t"
proof (induction rule: thread_move.induct)
  case (move s i p now st th ds)
  then have "thread_typed (pool s ! i)" by (simp add: system_typed_def list_all_length)
  with move(6) thread_step_typed [OF _ _ _ move(3,4,5)] thread_step_inv [OF _ move(3,4,5)]
  show ?case
    by (auto simp: system_typed_def sys_inv_def list_all_iff dest!: set_update_subset_insert [THEN subsetD])
next
  case (move_fault s i p now e)
  then show ?case by (simp add: system_typed_def sys_inv_def)
qed

lemma dispatched_typed: "well_formed_command cmd \<Longrightarrow> system_typed s \<Longrightarrow> system_typed (dispatched cmd from s)"
  by (simp add: system_typed_def sys_inv_def dispatch_start_def spawn_typed)

lemma init_typed: "sys_init s \<Longrightarrow> system_typed s"
  using sys.inv_init by (auto simp: sys_init_def system_typed_def server_typed_def heap_typed_def
      server_init_def empty_store_def)

interpretation typed: inductive_invariant process_init process_step process_typed
proof unfold_locales
  fix s t
  show "process_init s \<Longrightarrow> process_typed s"
    using process.inv_init init_typed by (auto simp: process_typed_def process_init_def)
  assume ty: "process_typed s"
  show "process_typed t" if step: "process_step s t"
  proof -
    have inv: "process_inv t" using process.inv_step [OF step] ty by (simp add: process_typed_def)
    obtain l where "process_act l s t" by (rule some_actE [OF step])
    then have "system_typed (sys t)"
    proof (cases rule: process_act.cases)
      case (start cmd "from")
      with ty dispatched_typed show ?thesis by (simp add: process_typed_def process_inv_def)
    next
      case (thread i u)
      with ty thread_move_typed show ?thesis by (auto simp: process_typed_def)
    qed (use ty in \<open>simp_all add: process_typed_def system_typed_def sys_inv_def\<close>)
    with inv show ?thesis by (simp add: process_typed_def)
  qed
qed

end
