(* ===== verification/Server_Session.thy ===== *)
theory Server_Session
  imports Server_Main Server_Typing
begin

text \<open>
  The server process against the chat room: a letter is a datagram with its source and the time
  it is served; a session is a sequence of letters, each a text that fits the queue, sent by
  somebody who may ask what it asks. The whole process, from the listener to the handler thread,
  has an execution that answers a session as the room does.
\<close>

section \<open>Letters\<close>

datatype letter = Letter (source: sockaddr_in) (packet: bytes) (served_at: int)

text \<open>What the client sends for a text.\<close>

definition text_packet :: "string \<Rightarrow> bytes" where
  "text_packet t = t @ [NUL]"

lemma cstr_text_packet [simp]: "no_nul t \<Longrightarrow> cstr (text_packet t) = t"
  by (simp add: text_packet_def cstr_append_nul)

definition letter_command :: "letter \<Rightarrow> command_t" where
  "letter_command l = text_command (cstr (packet l))"

definition room_accepts :: "command_t \<Rightarrow> sockaddr_in \<Rightarrow> room \<Rightarrow> bool" where
  "room_accepts cmd from r \<longleftrightarrow>
     (kind cmd \<in> {SAY, RENAME} \<longrightarrow> (\<exists>c \<in> set (members r). by_address from c)) \<and>
     (kind cmd = SAYTO \<longrightarrow> (\<exists>c \<in> set (members r). by_address from c) \<or>
        (\<forall>c \<in> set (members r). \<not> by_name (arg cmd 0) c))"

definition letter_ok :: "letter \<Rightarrow> room \<Rightarrow> bool" where
  "letter_ok l r \<longleftrightarrow> packet_ok (packet l) \<and> room_accepts (letter_command l) (source l) r"

definition letter_spec :: "letter \<Rightarrow> room \<Rightarrow> room \<times> datagram list" where
  "letter_spec l r = room_serve (served_at l) (letter_command l) (source l) r"

lemma letter_command_ok: "well_formed_command (letter_command l)"
proof -
  have word: "no_nul w" if "w \<in> set (words_of (remove1 DOLLAR (cstr (packet l))))" for w
  proof -
    have "no_nul (remove1 DOLLAR (cstr (packet l)))"
      using cstr_no_nul [of "packet l"] notin_set_remove1 by (fastforce simp: no_nul_def)
    from words_of_is_word [OF this that] show ?thesis by (simp add: is_word_def)
  qed
  have "no_nul w" if "w \<in> set (tl (words_of (remove1 DOLLAR (cstr (packet l)))))" for w
    using word [of w] that by (cases "words_of (remove1 DOLLAR (cstr (packet l)))") auto
  then show ?thesis
    by (auto simp: letter_command_def text_command_def request_of_def well_formed_command_def NAME_SIZE_def MAX_CMD_SIZE_def
        MAX_COMMAND_LEN_def dest!: in_set_takeD)
qed

lemma room_accepts_valid:
  "well_formed_command cmd \<Longrightarrow> room_accepts cmd from r \<Longrightarrow> p \<noteq> 0 \<Longrightarrow> cells (clients st) p = None \<Longrightarrow>
   valid_request p cmd from st r"
  by (simp add: room_accepts_def valid_request_def)

text \<open>A line of words as a request.\<close>

lemma request_of_say:
  assumes "\<forall>w \<in> set ws. is_word w \<and> length w < 20" and "length ws \<le> 48"
  shows "request_of (words_of (remove1 DOLLAR (''say$ '' @ unwords ws))) =
      \<lparr>kind = SAY, args = ws @ replicate (MAX_CMD_SIZE - length ws) ''''\<rparr>"
    and "well_formed_command (request_of (words_of (remove1 DOLLAR (''say$ '' @ unwords ws))))"
    and "args_from 0 (request_of (words_of (remove1 DOLLAR (''say$ '' @ unwords ws)))) = ws"
proof -
  have "words_of (unwords ws) = ws" using assms(1) by (intro words_of_unwords) (auto simp: is_word_def)
  then have "words_of (remove1 DOLLAR (''say$ '' @ unwords ws)) = ''say'' # ws"
    using message_words(1) [OF keyword_word, of SAY "unwords ws"] by simp
  moreover have "map (take (NAME_SIZE - 1)) ws = ws"
    using assms(1) by (intro map_idI) (auto simp: NAME_SIZE_def)
  ultimately show r: "request_of (words_of (remove1 DOLLAR (''say$ '' @ unwords ws))) =
      \<lparr>kind = SAY, args = ws @ replicate (MAX_CMD_SIZE - length ws) ''''\<rparr>"
    using assms(2) by (simp add: request_of_def kind_of_token_def MAX_COMMAND_LEN_def MAX_CMD_SIZE_def)
  show "well_formed_command (request_of (words_of (remove1 DOLLAR (''say$ '' @ unwords ws))))"
    unfolding r using assms
    by (auto simp: well_formed_command_def is_word_def NAME_SIZE_def MAX_CMD_SIZE_def)
  show "args_from 0 (request_of (words_of (remove1 DOLLAR (''say$ '' @ unwords ws)))) = ws"
    unfolding r args_from_def using assms
    by (simp, subst takeWhile_append2) (auto simp: is_word_def MAX_CMD_SIZE_def Suc_diff_le)
qed

lemma unwords_ne: "ws \<noteq> [] \<Longrightarrow> unwords (w # ws) = w @ SP # unwords ws"
  by (cases ws) simp_all

lemma say_message:
  assumes "\<forall>w \<in> set ws. is_word w \<and> length w < 20" and "ws \<noteq> []" and "length ws \<le> 48" and "length (unwords ws) < 255"
  shows "message_of 0 (request_of (words_of (remove1 DOLLAR (''say$ '' @ unwords ws)))) = unwords ws"
  unfolding message_of_def request_of_say(3) [OF assms(1,3)]
  using joined_from_fits [of ws "''''" True MAX_MESSAGE] assms by (auto simp: is_word_def MAX_MESSAGE_def)

lemma line_room:
  assumes "\<forall>w \<in> set ws. is_word w \<and> length w < 20" and "ws \<noteq> []" and "length ws \<le> 48" and "length (unwords ws) < 255"
    and "room_ok r" and "find (by_address a) (members r) = Some m" and "length (log r) < 100"
    and "t = ''say$ '' @ unwords ws"
  shows "room_accepts (text_command t) a r"
    and "snd (room_serve now (text_command t) a r) = map (\<lambda>n. udp_socket_write (client_address n)
      (''say$ '' @ client_name m @ '': '' @ unwords ws) 512) (members r)"
    and "fst (room_serve now (text_command t) a r) =
      r\<lparr>members := touch now a (members r), log := log r @ [client_name m @ '': '' @ unwords ws]\<rparr>"
proof -
  have k: "kind (text_command t) = SAY"
    unfolding assms(8) text_command_def request_of_say(1) [OF assms(1,3)] by simp
  have mm: "message_of 0 (text_command t) = unwords ws"
    unfolding assms(8) text_command_def by (rule say_message [OF assms(1-4)])
  show "room_accepts (text_command t) a r"
    using assms(6) k by (auto simp: room_accepts_def find_Some_iff)
  show "snd (room_serve now (text_command t) a r) = map (\<lambda>n. udp_socket_write (client_address n)
      (''say$ '' @ client_name m @ '': '' @ unwords ws) 512) (members r)"
    "fst (room_serve now (text_command t) a r) =
      r\<lparr>members := touch now a (members r), log := log r @ [client_name m @ '': '' @ unwords ws]\<rparr>"
    using say_room [OF assms(5) k assms(6), of now] assms(7)
    by (simp_all add: mm RESPONSE_BUFFER_SIZE_def MAX_MESSAGE_def room.equality)
qed

section \<open>Serving\<close>

definition process_rep :: "process \<Rightarrow> room \<Rightarrow> bool" where
  "process_rep s r \<longleftrightarrow> process_inv s \<and> at_rest s \<and> server_rep (srv (sys s)) r"

text \<open>The process reacts to a letter as the room does, without hearing anything else.\<close>

lemma letter_served:
  assumes rep: "process_rep s r" and ok: "letter_ok l r"
  shows "\<exists>t. reacts process_act (Received (source l) (packet l)) s t \<and> process_rep t (fst (letter_spec l r)) \<and>
    sent (sys t) = sent (sys s) @ snd (letter_spec l r)"
proof -
  let ?cmd = "letter_command l" and ?a = "source l"
  have s: "process_inv s" "at_rest s" "server_rep (srv (sys s)) r" using rep by (simp_all add: process_rep_def)
  have sys: "sys_inv (sys s)" "crashed (sys s) = None" "dispatcher_free (sys s)"
    using s(1,2) by (simp_all add: process_inv_def at_rest_def)
  have wf: "well_formed_command ?cmd" by (rule letter_command_ok)
  obtain p where p: "p \<noteq> 0" "cells (clients (srv (sys s))) p = None"
    using fresh_block sys(1) by (auto simp: sys_inv_def)
  have "valid_request p ?cmd ?a (srv (sys s)) r"
    using room_accepts_valid [OF wf _ p] ok by (simp add: letter_ok_def)
  from serve_refines [OF s(3) this, of "served_at l"] obtain st where
    st: "serve p (served_at l) ?cmd ?a (srv (sys s)) = Some (Ok (st, snd (letter_spec l r)))"
      "server_rep st (fst (letter_spec l r))"
    unfolding letter_spec_def by blast
  obtain q b where 1: "reacts process_act (Received ?a (packet l)) s (s\<lparr>sys := dispatched ?cmd ?a (sys s), task_queue := q, request_buffer := b,
      workers := (workers s)\<lparr>active_worker := 1\<rparr>, phase := Spawning\<rparr>)" "q_contents q = []"
    using datagram_dispatched [OF s(1,2)] ok unfolding letter_ok_def letter_command_def by blast
  let ?u = "(sys s)\<lparr>srv := st, pool := pool (sys s) @ [Done], sent := sent (sys s) @ snd (letter_spec l r)\<rparr>"
  let ?t = "s\<lparr>sys := ?u, task_queue := q, request_buffer := b, workers := (workers s)\<lparr>active_worker := 0\<rparr>, phase := Popping\<rparr>"
  have 2: "reacts process_act (Received ?a (packet l)) s ?t"
    by (rule reacts_then [of process_act, OF 1(1) dispatch_finished [OF serve_moves [OF sys(1,2) st(1)]]])
       (use p sys in \<open>simp_all add: dispatcher_free_def\<close>)
  have "process_rep ?t (fst (letter_spec l r))"
    using process.steps_inv [OF reacts_acts [OF 2] s(1)] 1(2) st(2) sys(2) by (simp add: process_rep_def at_rest_def)
  with 2 show ?thesis by (intro exI [of _ ?t]) simp
qed

text \<open>What the process reads for a letter.\<close>

abbreviation delivery :: "letter \<Rightarrow> recv_event" where
  "delivery l \<equiv> Received (source l) (packet l)"

interpretation letters: serving process_act delivery process_rep letter_ok letter_spec "\<lambda>s. sent (sys s)"
  by unfold_locales (rule letter_served)

section \<open>Properties of the process\<close>

text \<open>
  C3. The server process implements the chat room. From every reachable state in which it waits for
  a datagram and represents a room, every admissible session of letters has an execution, through the
  listener, the queue, the parser, the worker pool, the dispatcher and the handler threads, in
  which the process reads the packets of the letters in their order and no other datagram, in which
  exactly the datagrams of the room are sent, in order, and after which the process is at
  rest again and represents the room's members and log.
\<close>

theorem process_refines_room:
  assumes "reach process_init process_step s" and "at_rest s" and "server_rep (srv (sys s)) r"
    and "admissible letter_ok letter_spec r ls"
  shows "\<exists>t. hears process_act (map (\<lambda>l. Received (source l) (packet l)) ls) s t
    \<and> at_rest t \<and> server_rep (srv (sys t)) (fst (spec_run letter_spec r ls))
    \<and> sent (sys t) = sent (sys s) @ concat (snd (spec_run letter_spec r ls))"
proof -
  have "process_rep s r" using assms(1-3) process.reach_inv by (simp add: process_rep_def)
  from letters.session [OF this assms(4)] show ?thesis by (auto simp: process_rep_def)
qed

definition demo_session :: "letter list" where
  "demo_session = [Letter (peer 1) (text_packet ''conn$ ann'') 1, Letter (peer 1) (text_packet ''say$ hi'') 2]"

lemma demo_texts:
  "words_of (remove1 DOLLAR ''conn$ ann'') = [''conn'', ''ann'']"
  "words_of (remove1 DOLLAR ''say$ hi'') = [''say'', ''hi'']"
  by (simp_all add: words_of.simps)

lemma demo_commands:
  "text_command ''conn$ ann'' = demo_cmd CONN [''ann'']" "text_command ''say$ hi'' = demo_cmd SAY [''hi'']"
  unfolding text_command_def demo_texts
  by (simp_all add: request_of_def demo_cmd_def kind_of_token_def MAX_COMMAND_LEN_def NAME_SIZE_def)

lemma demo_packets_ok: "packet_ok (text_packet ''conn$ ann'')" "packet_ok (text_packet ''say$ hi'')"
  unfolding text_packet_def by (rule packet_ok_text; simp add: demo_texts QUEUE_MSG_SIZE_def)+

lemma demo_letters:
  "letter_command (Letter a (text_packet ''conn$ ann'') t) = demo_cmd CONN [''ann'']"
  "letter_command (Letter a (text_packet ''say$ hi'') t) = demo_cmd SAY [''hi'']"
  by (simp_all add: letter_command_def demo_commands)

lemma demo_answers:
  "letter_spec (Letter (peer 1) (text_packet ''conn$ ann'') 1) empty_room =
    (\<lparr>members = [new_client (peer 1) ''ann'' 1], log = []\<rparr>, [udp_socket_write (peer 1) ''connsuccess$ ann'' 256])"
  "letter_spec (Letter (peer 1) (text_packet ''say$ hi'') 2) \<lparr>members = [new_client (peer 1) ''ann'' 1], log = []\<rparr> =
    (\<lparr>members = [new_client (peer 1) ''ann'' 2], log = [''ann: hi'']\<rparr>, [udp_socket_write (peer 1) ''say$ ann: hi'' 512])"
proof -
  have m: "message_of 0 (demo_cmd SAY [''hi'']) = ''hi''"
    by (simp add: message_of_def args_from_def demo_cmd_def MAX_CMD_SIZE_def MAX_MESSAGE_def)
  show "letter_spec (Letter (peer 1) (text_packet ''conn$ ann'') 1) empty_room =
    (\<lparr>members = [new_client (peer 1) ''ann'' 1], log = []\<rparr>, [udp_socket_write (peer 1) ''connsuccess$ ann'' 256])"
    by (simp add: letter_spec_def demo_letters room_defs empty_room_def recent_def MAX_MESSAGE_def)
  show "letter_spec (Letter (peer 1) (text_packet ''say$ hi'') 2) \<lparr>members = [new_client (peer 1) ''ann'' 1], log = []\<rparr> =
    (\<lparr>members = [new_client (peer 1) ''ann'' 2], log = [''ann: hi'']\<rparr>, [udp_socket_write (peer 1) ''say$ ann: hi'' 512])"
    by (simp add: letter_spec_def demo_letters room_defs by_address_def new_client_def m line_of_def say_text_def
        snprintf_def to_all_def server_consts Let_def)
qed

lemma demo_session_ok: "admissible letter_ok letter_spec empty_room demo_session"
  by (simp add: demo_session_def demo_answers letter_ok_def demo_packets_ok room_accepts_def demo_letters
      by_address_def new_client_def del: One_nat_def)

lemma demo_session_answers:
  "concat (snd (spec_run letter_spec empty_room demo_session)) =
    [udp_socket_write (peer 1) ''connsuccess$ ann'' 256, udp_socket_write (peer 1) ''say$ ann: hi'' 512]"
  by (simp add: demo_session_def demo_answers)

lemma demo_at_rest: "at_rest demo_process" "server_rep (srv (sys demo_process)) empty_room"
  "sent (sys demo_process) = []"
  using server_rep_init by (simp_all add: at_rest_def) (simp_all add: demo_process_def)

lemma demo_events: "map (\<lambda>l. Received (source l) (packet l)) demo_session =
    [Received (peer 1) (''conn$ ann'' @ [NUL]), Received (peer 1) (''say$ hi'' @ [NUL])]"
  by (simp add: demo_session_def text_packet_def)

theorem process_refines_room_witness:
  "\<exists>t. hears process_act [Received (peer 1) (''conn$ ann'' @ [NUL]), Received (peer 1) (''say$ hi'' @ [NUL])] demo_process t \<and>
    at_rest t \<and> sent (sys t) =
    [udp_socket_write (peer 1) ''connsuccess$ ann'' 256, udp_socket_write (peer 1) ''say$ ann: hi'' 512]"
  using process_refines_room [OF demo_process_reach demo_at_rest(1,2) demo_session_ok]
  by (auto simp: demo_session_answers demo_at_rest(3) demo_events)

lemma demo_session_reached:
  obtains s where "reach process_init process_step s" and
    "sent (sys s) = [udp_socket_write (peer 1) ''connsuccess$ ann'' 256, udp_socket_write (peer 1) ''say$ ann: hi'' 512]"
proof -
  have "process_rep demo_process empty_room"
    using demo_at_rest process.reach_inv [OF demo_process_reach] by (simp add: process_rep_def)
  from letters.session [OF this demo_session_ok] obtain t where
    "hears process_act (map delivery demo_session) demo_process t"
    "sent (sys t) = concat (snd (spec_run letter_spec empty_room demo_session))"
    by (auto simp: demo_at_rest(3))
  with reach_trans [OF hears_acts demo_process_reach] show thesis by (intro that [of t]) (auto simp: demo_session_answers)
qed

text \<open>
  C20. The server process is well typed. In every reachable state, whatever datagrams came in and
  however the threads were interleaved, every string the C code keeps in an array ends inside it:
  the names of the clients, the lines of the history, what the threads carry in their local
  variables, the command of the queue manager. Every datagram ever sent holds the NUL of its text,
  so the receiver reads exactly that text whatever the rest of the buffer held, and its text has one
  of three forms: the disconnect reply or the ping; a confirmation with a name of at most 19
  characters; or a line or an error message whose words take at most 299 characters. The server
  sends no other keyword, none of those a client types in particular.
\<close>

theorem process_is_well_typed:
  assumes "reach process_init process_step s"
  shows "(\<forall>n \<in> ran (cells (clients (srv (sys s)))). no_nul (client_name n) \<and> length (client_name n) < 20)
    \<and> (\<forall>l. Some l \<in> set (chat_history (srv (sys s))) \<longrightarrow> no_nul l \<and> length l < 288)
    \<and> list_all thread_typed (pool (sys s))
    \<and> (case phase s of Parsed cmd _ \<Rightarrow> well_formed_command cmd | Checked_In cmd _ \<Rightarrow> well_formed_command cmd | _ \<Rightarrow> True)
    \<and> (\<forall>d \<in> set (sent (sys s)). (\<forall>junk. cstr (wire junk d) = payload d) \<and>
        (payload d \<in> {''disconnresponse$'', ''ping$''} \<or>
         (\<exists>k body. payload d = keyword k @ ''$ '' @ body \<and> no_nul body \<and>
            (k \<in> {CONN_SUCCESS, MUTE, UNMUTE, RENAME} \<and> length body < 20 \<or>
             k \<in> {SAY, ERROR} \<and> length (unwords (words_of body)) < 300))))"
proof -
  note ty = typed.reach_inv [OF assms, unfolded process_typed_def system_typed_def server_typed_def heap_typed_def
      process_inv_def]
  have "(\<forall>junk. cstr (wire junk d) = payload d) \<and> client_safe (payload d)" if "d \<in> set (sent (sys s))" for d
    using ty that wire_terminated by (auto simp: list_all_iff datagram_ok_def)
  note sent = this [unfolded client_safe_def reply_body_def NAME_SIZE_def JOIN_SIZE_def keyword.simps append.simps]
  have "\<forall>d \<in> set (sent (sys s)). (\<forall>junk. cstr (wire junk d) = payload d) \<and>
        (payload d \<in> {''disconnresponse$'', ''ping$''} \<or>
         (\<exists>k body. payload d = keyword k @ ''$ '' @ body \<and> no_nul body \<and>
            (k \<in> {CONN_SUCCESS, MUTE, UNMUTE, RENAME} \<and> length body < 20 \<or>
             k \<in> {SAY, ERROR} \<and> length (unwords (words_of body)) < 300)))"
    using sent by (simp only: insert_iff empty_iff append.simps) blast
  with ty show ?thesis
    by (auto simp: name_ok_def line_ok_def NAME_SIZE_def server_consts split: qm_phase.splits)
qed

theorem process_is_well_typed_witness:
  "\<exists>s. reach process_init process_step s \<and> length (sent (sys s)) = 2 \<and> list_all thread_typed (pool (sys s)) \<and>
     (\<forall>d \<in> set (sent (sys s)). \<forall>junk. cstr (wire junk d) = payload d)"
proof -
  obtain s where s: "reach process_init process_step s" "length (sent (sys s)) = 2"
    by (rule demo_session_reached) auto
  with process_is_well_typed [OF s(1)] show ?thesis by blast
qed

text \<open>
  C21. The server cannot crash a well-behaved client. Every datagram the server has sent in any
  reachable state, to whomever and in whatever interleaving, is executed by the client's handler,
  run by itself, without a fault, as long as the client has room for one more line; the longest
  private messages need all but one byte of the client's join buffer.
\<close>

theorem server_never_crashes_client:
  assumes "reach process_init process_step s" and "d \<in> set (sent (sys s))"
    and "well_formed_command junk" and "chat_inv v" and "message_count v < 100"
  shows "\<exists>v' out. handle_cli_side_cmd junk (take 49 (words_of (remove1 DOLLAR (cstr (wire rest d))))) v = Ok (v', out)"
proof -
  have ok: "datagram_ok d"
    using typed.reach_inv [OF assms(1)] assms(2) by (simp add: process_typed_def system_typed_def list_all_iff)
  then have "cstr (wire rest d) = payload d" "client_safe (payload d)"
    using wire_terminated by (simp_all add: datagram_ok_def)
  with client_safe_handled [OF _ assms(3-5)] show ?thesis by fastforce
qed

theorem server_never_crashes_client_witness:
  "\<exists>s d. reach process_init process_step s \<and> d \<in> set (sent (sys s)) \<and> payload d = ''say$ ann: hi'' \<and>
    (\<exists>v' out. handle_cli_side_cmd demo_junk (take 49 (words_of (remove1 DOLLAR (cstr (wire [] d))))) demo_chat = Ok (v', out))"
proof -
  obtain s where s: "reach process_init process_step s" "udp_socket_write (peer 1) ''say$ ann: hi'' 512 \<in> set (sent (sys s))"
    by (rule demo_session_reached) auto
  have "\<exists>v' out. handle_cli_side_cmd demo_junk
      (take 49 (words_of (remove1 DOLLAR (cstr (wire [] (udp_socket_write (peer 1) ''say$ ann: hi'' 512)))))) demo_chat = Ok (v', out)"
    by (rule server_never_crashes_client [OF s]) simp_all
  with s show ?thesis
    by (intro exI [of _ s] exI [of _ "udp_socket_write (peer 1) ''say$ ann: hi'' 512"] conjI) simp_all
qed

end
