(* ===== verification/Samples.thy ===== *)
theory Samples
  imports Server_Session
begin

text \<open>
  The code beside the two programs: the sample client and server, each a program of its own over the
  same wrappers, two helpers of the client that nothing calls, and the rotation of
  \<open>red_black.c\<close>, which was left unfinished.
\<close>

section \<open>The sample client\<close>

text \<open>
  \<open>sock\<close> and \<open>bound\<close> are what the socket calls return, \<open>written\<close> what \<open>sendto\<close> returned, \<open>ev\<close>
  what \<open>recvfrom\<close> delivers, \<open>buf\<close> the uninitialised response buffer. The result is the call made
  on the socket, the request and, if there was a response, the text that is printed.
\<close>

definition sample_client ::
  "(string \<Rightarrow> 32 word option) \<Rightarrow> int \<Rightarrow> (sockaddr_in \<Rightarrow> int) \<Rightarrow> int \<Rightarrow> recv_event \<Rightarrow> bytes
   \<Rightarrow> sock_call list \<times> datagram \<times> string option res" where
  "sample_client inet_pton sock bound written ev buf =
     (let opened = udp_socket_open inet_pton sock bound 0;
          server_addr = fst (set_socket_addr inet_pton (Some ''127.0.0.1'') SERVER_PORT);
          request = udp_socket_write server_addr ''conn Alice'' BUFFER_SIZE
      in (snd opened, request,
          if written > 0 then
            (case udp_socket_read ev buf BUFFER_SIZE of
               (rc, server_response, responder) \<Rightarrow>
                 if NUL \<notin> set server_response then Fault OutOfBounds else Ok (Some (cstr server_response)))
          else Ok None))"

section \<open>The sample server\<close>

definition sample_reply :: string where
  "sample_reply = ''say$ Server received your message!''"

definition sample_server_setup ::
  "(string \<Rightarrow> 32 word option) \<Rightarrow> int \<Rightarrow> (sockaddr_in \<Rightarrow> int) \<Rightarrow> int option" where
  "sample_server_setup inet_pton sock bound =
     (let sd = fst (udp_socket_open inet_pton sock bound SERVER_PORT) in if sd > -1 then Some sd else None)"

definition sample_server_turn :: "recv_event \<Rightarrow> bytes \<Rightarrow> datagram list \<times> bytes" where
  "sample_server_turn ev buf =
     (case udp_socket_read ev buf BUFFER_SIZE of
        (rc, client_request, src) \<Rightarrow>
          (if rc > 0 then (case src of Some a \<Rightarrow> [udp_socket_write a sample_reply BUFFER_SIZE] | None \<Rightarrow> []) else [],
           client_request))"

text \<open>The main loop over what the socket delivers.\<close>

fun sample_server :: "recv_event list \<Rightarrow> bytes \<Rightarrow> datagram list" where
  "sample_server [] buf = []"
| "sample_server (ev # evs) buf =
     (let (ds, buf') = sample_server_turn ev buf in ds @ sample_server evs buf')"

text \<open>Each datagram that is not empty is answered once, to its sender, whatever it says.\<close>

lemma sample_server_replies:
  "sample_server evs buf =
    concat (map (\<lambda>ev. case ev of Received a pkt \<Rightarrow> if pkt = [] then [] else [udp_socket_write a sample_reply BUFFER_SIZE]
                                | Recv_Error \<Rightarrow> []) evs)"
  by (induction evs arbitrary: buf)
     (auto simp: sample_server_turn_def udp_socket_read_def BUFFER_SIZE_def Let_def split: recv_event.splits)

text \<open>The reply is one the chat client can take.\<close>

lemma sample_reply_ok: "datagram_ok (udp_socket_write a sample_reply BUFFER_SIZE)"
proof -
  have "keyword SAY @ ''$ '' @ ''Server received your message!'' = sample_reply" by (simp add: sample_reply_def)
  moreover have "datagram_ok (udp_socket_write a (keyword SAY @ ''$ '' @ ''Server received your message!'') BUFFER_SIZE)"
    by (rule reply_ok [OF reply_body_short(1)]) (simp_all add: BUFFER_SIZE_def MAX_MESSAGE_def)
  ultimately show ?thesis by simp
qed

section \<open>The sample client and the chat server\<close>

lemma sample_words: "words_of (remove1 DOLLAR ''conn Alice'') = [''conn'', ''Alice'']"
  by (simp add: words_of.simps)

lemma sample_command: "text_command ''conn Alice'' = demo_cmd CONN [''Alice'']"
  unfolding text_command_def sample_words
  by (simp add: request_of_def demo_cmd_def kind_of_token_def MAX_COMMAND_LEN_def NAME_SIZE_def)

lemma sample_wire: "cstr (wire junk (udp_socket_write a ''conn Alice'' BUFFER_SIZE)) = ''conn Alice''"
  by (rule wire_terminated [of "udp_socket_write a ''conn Alice'' BUFFER_SIZE", simplified]) (simp add: BUFFER_SIZE_def)

lemma sample_packet_ok: "packet_ok (wire junk (udp_socket_write a ''conn Alice'' BUFFER_SIZE))"
proof -
  have "NUL \<in> set (take BUFFER_SIZE (wire junk (udp_socket_write a ''conn Alice'' BUFFER_SIZE)))"
    by (simp add: wire_def BUFFER_SIZE_def)
  then show ?thesis unfolding packet_ok_def sample_wire sample_words by (simp add: QUEUE_MSG_SIZE_def)
qed

text \<open>
  The sample client joins the chat although its request has no dollar sign: the 1024 bytes it
  sends, whatever follows the NUL in them, are a letter that every room accepts, a client named
  Alice is appended for it, and the first datagram of the answer is the confirmation, which is what
  the sample client prints when it arrives.
\<close>

lemma sample_client_joins:
  assumes "sample_client inet_pton sock bound written ev buf = (calls, request, printed)"
  shows "letter_ok (Letter a (wire junk request) now) r
    \<and> (\<exists>d ds. letter_spec (Letter a (wire junk request) now) r =
          (r\<lparr>members := members r @ [new_client a ''Alice'' now]\<rparr>, d # ds) \<and> to_addr d = a
        \<and> (0 < written \<longrightarrow> ev = Received server (wire rest d) \<longrightarrow> printed = Ok (Some ''connsuccess$ Alice'')))"
proof -
  obtain b where req: "request = udp_socket_write b ''conn Alice'' BUFFER_SIZE"
    using assms by (auto simp: sample_client_def Let_def)
  let ?l = "Letter a (wire junk request) now" and ?d = "udp_socket_write a ''connsuccess$ Alice'' MAX_MESSAGE"
  have cmd: "letter_command ?l = demo_cmd CONN [''Alice'']"
    unfolding letter_command_def letter.sel req by (simp only: sample_wire sample_command)
  have "packet_ok (wire junk request)" unfolding req by (rule sample_packet_ok)
  then have "letter_ok ?l r" by (simp add: letter_ok_def cmd room_accepts_def)
  moreover have "letter_spec ?l r = (r\<lparr>members := members r @ [new_client a ''Alice'' now]\<rparr>,
      ?d # map (\<lambda>m. udp_socket_write a (say_text m) RESPONSE_BUFFER_SIZE) (recent (log r)))"
    by (simp add: letter_spec_def cmd room_defs)
  moreover have "printed = Ok (Some ''connsuccess$ Alice'')" if "0 < written" "ev = Received server (wire rest ?d)"
  proof -
    have n: "NUL \<in> set (take BUFFER_SIZE (wire rest ?d))" by (simp add: wire_def BUFFER_SIZE_def MAX_MESSAGE_def)
    have "cstr (wire rest ?d) = payload ?d" by (rule wire_terminated) (simp add: MAX_MESSAGE_def)
    with cstr_in_buffer [OF n] n have "printed = Ok (Some (payload ?d))"
      using assms that by (auto simp: sample_client_def udp_socket_read_def Let_def)
    then show ?thesis by simp
  qed
  ultimately show ?thesis by simp
qed

lemma sample_client_joins_instance:
  "\<exists>calls request printed ds. sample_client (\<lambda>_. Some 1) 3 (\<lambda>_. 0) 1
        (Received (peer 9) (wire [] (udp_socket_write (peer 5) ''connsuccess$ Alice'' 256))) (replicate 1024 NUL)
      = (calls, request, printed) \<and>
    printed = Ok (Some ''connsuccess$ Alice'') \<and>
    letter_spec (Letter (peer 5) (wire [] request) 1) empty_room =
      (\<lparr>members = [new_client (peer 5) ''Alice'' 1], log = []\<rparr>, ds)"
proof -
  let ?ev = "Received (peer 9) (wire [] (udp_socket_write (peer 5) ''connsuccess$ Alice'' 256))"
  obtain calls request printed where
    s: "sample_client (\<lambda>_. Some 1) 3 (\<lambda>_. 0) 1 ?ev (replicate 1024 NUL) = (calls, request, printed)" by (metis surj_pair)
  then have "printed = Ok (Some ''connsuccess$ Alice'')"
    by (auto simp: sample_client_def udp_socket_read_def wire_def cstr_def BUFFER_SIZE_def Let_def)
  with sample_client_joins [OF s, of "peer 5" "[]" 1 empty_room] s show ?thesis
    by (auto simp: empty_room_def)
qed

section \<open>Helpers of the client that nothing calls\<close>

text \<open>
  \<open>strtok (s, "$")\<close>: leading dollar signs are skipped, the token ends before the next one. The text
  that is left is what the next call looks at.
\<close>

definition strtok_dollar :: "string \<Rightarrow> (string \<times> string) option" where
  "strtok_dollar s =
     (let r = dropWhile (\<lambda>c. c = DOLLAR) s
      in if r = '''' then None
         else Some (takeWhile (\<lambda>c. c \<noteq> DOLLAR) r, drop 1 (dropWhile (\<lambda>c. c \<noteq> DOLLAR) r)))"

text \<open>Both tokens are printed before the second one is tested; printing a null pointer is a fault.\<close>

definition tokenise_input :: "string \<Rightarrow> (string \<times> string) res" where
  "tokenise_input input =
     (case strtok_dollar input of
        None \<Rightarrow> Fault NullDeref
      | Some (name, rest) \<Rightarrow>
          (case strtok_dollar rest of
             None \<Rightarrow> Fault NullDeref
           | Some (token, rest2) \<Rightarrow> Ok (name, drop 1 token)))"

definition message_flash :: "string \<Rightarrow> string list" where
  "message_flash message =
     clear_home # concat (replicate 4 [''Message: '' @ message @ [NL], clear_home])"

text \<open>
  It splits what the programs send at the dollar sign, and faults for a command without a body.
\<close>

lemma tokenise_input_message:
  assumes "name \<noteq> ''''" and "DOLLAR \<notin> set name" and "DOLLAR \<notin> set body"
  shows "tokenise_input (name @ ''$ '' @ body) = Ok (name, body)" and "tokenise_input (name @ ''$'') = Fault NullDeref"
proof -
  have h: "dropWhile (\<lambda>c. c = DOLLAR) (name @ xs) = name @ xs" for xs
    using assms(1,2) by (cases name) auto
  have b: "dropWhile (\<lambda>c. c \<noteq> DOLLAR) body = []" using assms(3) by (induction body) auto
  show "tokenise_input (name @ ''$ '' @ body) = Ok (name, body)" "tokenise_input (name @ ''$'') = Fault NullDeref"
    using assms b
    by (simp_all add: tokenise_input_def strtok_dollar_def Let_def h takeWhile_stop dropWhile_stop takeWhile_noop)
qed

section \<open>The unfinished rotation\<close>

record rb_node =
  parent :: nat
  right_child :: nat
  left_child :: nat
  is_black :: bool
  val :: string

text \<open>Pointers are addresses as in theory \<open>Client_List\<close>.\<close>

definition rb_deref :: "(nat \<rightharpoonup> rb_node) \<Rightarrow> nat \<Rightarrow> rb_node res" where
  "rb_deref h p =
     (if p = 0 then Fault NullDeref else case h p of None \<Rightarrow> Fault UseAfterFree | Some n \<Rightarrow> Ok n)"

definition left_rotate :: "nat \<Rightarrow> (nat \<rightharpoonup> rb_node) \<Rightarrow> (nat \<rightharpoonup> rb_node) res" where
  "left_rotate node h =
     res_bind (rb_deref h node) (\<lambda>x.
     let new_node = right_child x in
     res_bind (rb_deref h new_node) (\<lambda>y.
     let h1 = h(node \<mapsto> x\<lparr>right_child := left_child y\<rparr>) in
     res_bind (if left_child y \<noteq> 0
               then res_bind (rb_deref h1 (left_child y)) (\<lambda>z. Ok (h1(left_child y \<mapsto> z\<lparr>parent := node\<rparr>)))
               else Ok h1) (\<lambda>h2.
     res_bind (rb_deref h2 node) (\<lambda>x2.
     res_bind (rb_deref h2 new_node) (\<lambda>y2. Ok (h2(new_node \<mapsto> y2\<lparr>parent := parent x2\<rparr>)))))))"

text \<open>
  The rotation stops half way: the right child takes over the parent of the node, but neither it nor the
  parent points to anything new, so nothing leads to it any more.
\<close>

lemma left_rotate_unfinished:
  assumes "h a = Some x" and "h b = Some y" and "right_child x = b" and "left_child y = 0" and "a \<noteq> 0" and "b \<noteq> 0"
    and "a \<noteq> b"
  shows "\<exists>h'. left_rotate a h = Ok h' \<and> right_child (the (h' a)) = 0 \<and> left_child (the (h' b)) = 0
    \<and> parent (the (h' b)) = parent x \<and> (\<forall>p. p \<noteq> a \<longrightarrow> p \<noteq> b \<longrightarrow> h' p = h p)"
  using assms by (simp add: left_rotate_def rb_deref_def Let_def)

end
