(* ===== verification/Server_Races.thy ===== *)
theory Server_Races
  imports Server_Threads
begin

text \<open>
  What goes wrong between the threads of the server: executions of the interleaved system, from
  every reachable state of a kind that chat rooms are in, that end in a fault.
\<close>

section \<open>A disconnect sent twice\<close>

lemma first_node:
  assumes "represents s (h # ps) cs"
  obtains n s' where "deref s h = Ok n" and "client_address n = client_address (hd cs)" and "head s = h" "h \<noteq> 0"
    and "remove_client_from_list s (client_name n) = Some (Ok (s', Some (client_address n)))"
    and "ps \<noteq> [] \<Longrightarrow> head s' \<noteq> 0" and "cells s' h = None"
proof -
  obtain n where n: "cells s h = Some n" "head s = h" "h \<noteq> 0" "path (cells s) (nxt n) ps 0"
    using assms by (auto simp: represents_def split: option.splits)
  have "client_address n = client_address (hd cs)" using assms n(1) by (simp add: represents_def)
  moreover have "ps \<noteq> [] \<Longrightarrow> nxt n \<noteq> 0" using n(4) by (cases ps) auto
  ultimately show thesis
    using n by (intro that [of n "if h = tail s then s\<lparr>head := nxt n, tail := 0, cells := (cells s)(h := None)\<rparr>
        else s\<lparr>head := nxt n, cells := (cells s)(h := None)\<rparr>"])
      (auto simp: deref_def remove_client_from_list_def remove_loop.simps unlink_def split: option.splits)
qed

lemma disconnect_dispatched:
  assumes "sys_inv s" and "crashed s = None" and "dispatcher_free s"
    and "represents (clients (srv s)) (h # ps) (c # cs)"
  obtains st c' where "sys_step\<^sup>*\<^sup>* s (s\<lparr>srv := st, pool := pool s @ [Disconnect_Lookup (client_address c)]\<rparr>)"
    and "represents (clients st) (h # ps) (c' # cs)" and "client_address c' = client_address c"
proof -
  let ?cmd = "demo_cmd DISCONN []"
  from update_represents [OF assms(4), of 0 "client_address c"] obtain s' where
    s': "update_client_activity 0 (clients (srv s)) (client_address c) = Some (Ok s')"
      "represents s' (h # ps) (c\<lparr>last_active := 0, ping_sent := 0\<rparr> # cs)" by auto
  then have "mark_active 0 ?cmd (client_address c) (srv s) = Some (Ok (srv s\<lparr>clients := s'\<rparr>))"
    by (simp add: mark_active_def)
  from dispatch_steps [OF assms(1-3) _ this] have
    "sys_step\<^sup>*\<^sup>* s (s\<lparr>srv := srv s\<lparr>clients := s'\<rparr>, pool := pool s @ [Disconnect_Lookup (client_address c)]\<rparr>)"
    by (simp add: spawn_def)
  moreover have "represents (clients (srv s\<lparr>clients := s'\<rparr>)) (h # ps) (c\<lparr>last_active := 0, ping_sent := 0\<rparr> # cs)"
    using s'(2) by simp
  ultimately show thesis by (rule that) simp
qed

text \<open>
  C15. A client can bring the server down by sending \<open>disconn$\<close> twice. From every reachable state
  with at least two connected clients and no dispatch under way, an execution exists in which two
  handlers of the first client's disconnect are started and both find its node, and one
  removes and frees it before the other has entered the monitor. In the state reached nothing has
  gone wrong yet, the first handler has only to reply, nothing was sent, and the second stands before
  the removal with the freed node in its hands: its next step reads the name in the freed node.
\<close>

theorem double_disconnect_use_after_free:
  assumes "reach sys_init sys_step s" and "crashed s = None" and "dispatcher_free s"
    and "represents (clients (srv s)) ps cs" and "length cs \<ge> 2"
  shows "\<exists>u t. sys_step\<^sup>*\<^sup>* s u \<and> crashed u = None \<and>
      pool u = pool s @ [Disconnect_Lookup (client_address (hd cs)), Disconnect_Lookup (client_address (hd cs))] \<and>
    sys_step\<^sup>*\<^sup>* u t \<and> crashed t = None \<and> sent t = sent s \<and>
      pool t = pool s @ [Disconnect_Reply (Some (client_address (hd cs))), Disconnect_Remove (hd ps)] \<and>
      cells (clients (srv t)) (hd ps) = None \<and>
    thread_move (length (pool s) + 1) t (t\<lparr>crashed := Some UseAfterFree\<rparr>)"
proof -
  obtain h q qs where ps: "ps = h # q # qs"
    using assms(4,5) represents_length [OF assms(4)] by (cases ps rule: remdups_adj.cases) auto
  obtain c ds where cs: "cs = c # ds" using assms(5) by (cases cs) auto
  let ?L = "Disconnect_Lookup (client_address c)" and ?n = "length (pool s)"
  note inv = sys.reach_inv [OF assms(1)]
  obtain st1 c1 where s1: "sys_step\<^sup>*\<^sup>* s (s\<lparr>srv := st1, pool := pool s @ [?L]\<rparr>)"
    "represents (clients st1) (h # q # qs) (c1 # ds)" "client_address c1 = client_address c"
    by (rule disconnect_dispatched [OF inv assms(2,3,4) [unfolded ps cs]])
  let ?s1 = "s\<lparr>srv := st1, pool := pool s @ [?L]\<rparr>"
  have inv1: "sys_inv ?s1" by (rule sys.steps_inv [OF s1(1) inv])
  obtain st2 c2 where s2: "sys_step\<^sup>*\<^sup>* ?s1 (?s1\<lparr>srv := st2, pool := pool ?s1 @ [Disconnect_Lookup (client_address c1)]\<rparr>)"
    "represents (clients st2) (h # q # qs) (c2 # ds)" "client_address c2 = client_address c1"
    by (rule disconnect_dispatched [OF inv1, of h "q # qs" c1 ds]) (use assms(2,3) s1(2) in \<open>simp_all add: dispatcher_free_def\<close>)
  let ?s2 = "s\<lparr>srv := st2, pool := pool s @ [?L, ?L]\<rparr>"
  have step2: "sys_step\<^sup>*\<^sup>* ?s1 ?s2" using s2(1) s1(3) by simp
  have inv2: "sys_inv ?s2" by (rule sys.steps_inv [OF step2 inv1])
  obtain n s' where n: "deref (clients st2) h = Ok n" "head (clients st2) = h" "h \<noteq> 0"
    "remove_client_from_list (clients st2) (client_name n) = Some (Ok (s', Some (client_address n)))"
    "head s' \<noteq> 0" "cells s' h = None" and addr: "client_address n = client_address (hd (c2 # ds))"
    by (rule first_node [OF s2(2)]) blast
  have look: "disconnect_lookup (client_address c) st2 = Some (Ok h)"
    using find_client_by_address_represents [OF s2(2), of "client_address c"] s1(3) s2(3)
    by (simp add: disconnect_lookup_def by_address_def)
  let ?s3 = "s\<lparr>srv := st2, pool := pool s @ [Disconnect_Remove h, ?L]\<rparr>"
  have step3: "sys_step ?s2 ?s3"
    using moves(1) [OF inv2, of ?n 0 st2 "Disconnect_Remove h" "[]"] assms(2) look n(3)
    by (simp add: starts_connect_def nth_append list_update_append)
  note inv3 = sys.inv_step [OF step3 inv2]
  let ?s4 = "s\<lparr>srv := st2, pool := pool s @ [Disconnect_Remove h, Disconnect_Remove h]\<rparr>"
  have step4: "sys_step ?s3 ?s4"
    using moves(1) [OF inv3, of "Suc ?n" 0 st2 "Disconnect_Remove h" "[]"] assms(2) look n(3)
    by (simp add: starts_connect_def nth_append list_update_append)
  note inv4 = sys.inv_step [OF step4 inv3]
  let ?st = "st2\<lparr>clients := s'\<rparr>"
  let ?s5 = "s\<lparr>srv := ?st, pool := pool s @ [Disconnect_Reply (Some (client_address n)), Disconnect_Remove h]\<rparr>"
  have step5: "sys_step ?s4 ?s5"
    using moves(1) [OF inv4, of ?n 0 ?st "Disconnect_Reply (Some (client_address n))" "[]"] assms(2) n
    by (simp add: starts_connect_def nth_append list_update_append disconnect_remove_def)
  note inv5 = sys.inv_step [OF step5 inv4]
  have step6: "thread_move (Suc ?n) ?s5 (?s5\<lparr>crashed := Some UseAfterFree\<rparr>)"
    using thread_moves(2) [OF inv5, of "Suc ?n" 0 UseAfterFree] assms(2) n
    by (simp add: starts_connect_def nth_append disconnect_remove_def deref_def)
  have run: "sys_step\<^sup>*\<^sup>* s ?s2" "sys_step\<^sup>*\<^sup>* ?s2 ?s5"
    using rtranclp_trans [OF s1(1) step2] step3 step4 step5
    by (blast, meson rtranclp.rtrancl_into_rtrancl rtranclp.rtrancl_refl)
  show ?thesis
    by (intro exI [of _ ?s2] exI [of _ ?s5] conjI run)
       (use step6 assms(2) n(6) addr s1(3) s2(3) ps cs in simp_all)
qed

text \<open>Two clients who have joined one after the other.\<close>

lemma two_clients_reachable:
  "\<exists>s. reach sys_init sys_step s \<and> crashed s = None \<and> dispatcher_free s \<and>
     server_rep (srv s) \<lparr>members = [new_client (peer 1) ''ann'' 1, new_client (peer 2) ''bob'' 2], log = []\<rparr>"
proof -
  let ?rs = "[Request 8 1 (demo_cmd CONN [''ann'']) (peer 1), Request 16 2 (demo_cmd CONN [''bob'']) (peer 2)]"
  let ?s = "\<lparr>srv = server_init, pool = [Manager_Sleep], sent = [], crashed = None\<rparr>"
  have init: "sys_init ?s" by (simp add: sys_init_def)
  have g: "guarded request_guard request_exec request_spec server_init empty_room ?rs"
    by (simp add: valid_request_def server_init_def empty_store_def NAME_SIZE_def MAX_CMD_SIZE_def serve_def
        mark_active_def run_handler_def connect_to_server_def connect_add_def add_client_to_list_def
        connect_reply_def strcpy_def history_start_def BUFFER_SIZE_def del: spec_run.simps)
  from requests_reachable [of ?s empty_room ?rs, OF _ _ sys.inv_init [OF init]] g server_rep_init obtain t where
    t: "sys_step\<^sup>*\<^sup>* ?s t" "crashed t = None" "dispatcher_free t"
      "server_rep (srv t) (fst (spec_run request_spec empty_room ?rs))"
    by (auto simp: dispatcher_free_def simp del: guarded.simps spec_run.simps exec_run.simps)
  moreover have "fst (spec_run request_spec empty_room ?rs) =
      \<lparr>members = [new_client (peer 1) ''ann'' 1, new_client (peer 2) ''bob'' 2], log = []\<rparr>"
    by (simp add: room_serve_def room_touch_def room_handle_def room_connect_def empty_room_def)
  ultimately show ?thesis
    using reach_trans [OF t(1) reach_init [of sys_init, OF init]] by auto
qed

theorem double_disconnect_use_after_free_witness:
  "\<exists>s p t. reach sys_init sys_step s \<and> sys_step\<^sup>*\<^sup>* s t \<and> crashed t = None \<and>
    pool t = pool s @ [Disconnect_Reply (Some (peer 1)), Disconnect_Remove p] \<and>
    cells (clients (srv t)) p = None \<and> thread_move (length (pool s) + 1) t (t\<lparr>crashed := Some UseAfterFree\<rparr>)"
proof -
  obtain s where s: "reach sys_init sys_step s" "crashed s = None" "dispatcher_free s"
    "server_rep (srv s) \<lparr>members = [new_client (peer 1) ''ann'' 1, new_client (peer 2) ''bob'' 2], log = []\<rparr>"
    using two_clients_reachable by blast
  then obtain ps where "represents (clients (srv s)) ps [new_client (peer 1) ''ann'' 1, new_client (peer 2) ''bob'' 2]"
    by (auto simp: server_rep_def)
  from double_disconnect_use_after_free [OF s(1-3) this] obtain u t where
    "sys_step\<^sup>*\<^sup>* s u" "sys_step\<^sup>*\<^sup>* u t" "crashed t = None"
    "pool t = pool s @ [Disconnect_Reply (Some (peer 1)), Disconnect_Remove (hd ps)]"
    "cells (clients (srv t)) (hd ps) = None" "thread_move (length (pool s) + 1) t (t\<lparr>crashed := Some UseAfterFree\<rparr>)"
    by (auto simp: new_client_def)
  with s(1) rtranclp_trans [of sys_step s u t] show ?thesis by blast
qed

section \<open>The dispatcher without the monitor\<close>

text \<open>
  C16. The dispatcher walks through the list without entering the monitor, so anybody's request can
  bring the server down while a client is leaving. From every reachable state with a connected
  client and no dispatch under way, and for every request that is not \<open>conn$\<close>, an execution exists
  in which the first client's disconnect is being handled, the request comes in and the dispatcher's
  walk takes hold of the first node, and the handler of the disconnect then removes and frees that
  node although the walk stands on it. In the state reached nothing has gone wrong yet and nothing
  was sent, and the dispatcher's next step reads the freed node.
\<close>

theorem activity_walk_use_after_free:
  assumes "reach sys_init sys_step s" and "crashed s = None" and "dispatcher_free s"
    and "represents (clients (srv s)) ps cs" and "cs \<noteq> []" and "well_formed_command cmd" and "kind cmd \<noteq> CONN"
  shows "\<exists>u t. sys_step\<^sup>*\<^sup>* s u \<and> crashed u = None \<and> cells (clients (srv u)) (hd ps) \<noteq> None \<and>
      pool u = pool s @ [Disconnect_Remove (hd ps), Activity cmd from (hd ps)] \<and>
    thread_move (length (pool s)) u t \<and> crashed t = None \<and> sent t = sent s \<and>
      pool t = pool s @ [Disconnect_Reply (Some (client_address (hd cs))), Activity cmd from (hd ps)] \<and>
      cells (clients (srv t)) (hd ps) = None \<and>
    thread_move (length (pool s) + 1) t (t\<lparr>crashed := Some UseAfterFree\<rparr>)"
proof -
  obtain c ds h qs where cs: "cs = c # ds" "ps = h # qs"
    using assms(4,5) represents_length [OF assms(4)] by (cases cs; cases ps) auto
  let ?L = "Disconnect_Lookup (client_address c)" and ?n = "length (pool s)"
  note inv = sys.reach_inv [OF assms(1)]
  obtain st c1 where s1: "sys_step\<^sup>*\<^sup>* s (s\<lparr>srv := st, pool := pool s @ [?L]\<rparr>)"
    "represents (clients st) (h # qs) (c1 # ds)" "client_address c1 = client_address c"
    by (rule disconnect_dispatched [OF inv assms(2,3,4) [unfolded cs]])
  let ?s1 = "s\<lparr>srv := st, pool := pool s @ [?L]\<rparr>"
  note inv1 = sys.steps_inv [OF s1(1) inv]
  obtain n s' where n: "deref (clients st) h = Ok n" "head (clients st) = h" "h \<noteq> 0"
    "remove_client_from_list (clients st) (client_name n) = Some (Ok (s', Some (client_address n)))"
    "cells s' h = None" and addr: "client_address n = client_address (hd (c1 # ds))"
    by (rule first_node [OF s1(2)]) blast
  have look: "disconnect_lookup (client_address c) st = Some (Ok h)"
    using find_client_by_address_represents [OF s1(2), of "client_address c"] s1(3)
    by (simp add: disconnect_lookup_def by_address_def)
  let ?s2 = "s\<lparr>srv := st, pool := pool s @ [Disconnect_Remove h]\<rparr>"
  have step2: "sys_step ?s1 ?s2"
    using moves(1) [OF inv1, of ?n 0 st "Disconnect_Remove h" "[]"] assms(2) look n(3)
    by (simp add: starts_connect_def nth_append list_update_append)
  note inv2 = sys.inv_step [OF step2 inv1]
  let ?s3 = "s\<lparr>srv := st, pool := pool s @ [Disconnect_Remove h, Activity cmd from h]\<rparr>"
  have step3: "sys_step ?s2 ?s3"
    using dispatch [of ?s2 cmd "from"] assms(2,3,6,7) n(2)
    by (simp add: dispatcher_free_def dispatch_start_def) (simp add: dispatched_def dispatch_start_def)
  note inv3 = sys.inv_step [OF step3 inv2]
  let ?s4 = "s\<lparr>srv := st\<lparr>clients := s'\<rparr>, pool := pool s @ [Disconnect_Reply (Some (client_address n)), Activity cmd from h]\<rparr>"
  have step4: "thread_move ?n ?s3 ?s4"
    using thread_moves(1) [OF inv3, of ?n 0 "st\<lparr>clients := s'\<rparr>" "Disconnect_Reply (Some (client_address n))" "[]"] assms(2) n
    by (simp add: starts_connect_def nth_append list_update_append disconnect_remove_def)
  note inv4 = sys.inv_step [OF thread [OF step4] inv3]
  have step5: "thread_move (Suc ?n) ?s4 (?s4\<lparr>crashed := Some UseAfterFree\<rparr>)"
    using thread_moves(2) [OF inv4, of "Suc ?n" 0 UseAfterFree] assms(2) n
    by (simp add: starts_connect_def nth_append deref_def)
  have run: "sys_step\<^sup>*\<^sup>* s ?s3"
    using s1(1) step2 step3 by (meson rtranclp.rtrancl_into_rtrancl)
  have "cells (clients st) h \<noteq> None" using n(1) by (auto simp: deref_def split: option.splits if_splits)
  then show ?thesis
    by (intro exI [of _ ?s3] exI [of _ ?s4] conjI run)
       (use step4 step5 assms(2) n(5) addr s1(3) cs in simp_all)
qed

theorem activity_walk_use_after_free_witness:
  "\<exists>s p u t. reach sys_init sys_step s \<and> sys_step\<^sup>*\<^sup>* s u \<and>
    pool u = pool s @ [Disconnect_Remove p, Activity (demo_cmd SAY []) (peer 2) p] \<and>
    thread_move (length (pool s)) u t \<and> cells (clients (srv t)) p = None \<and>
    thread_move (length (pool s) + 1) t (t\<lparr>crashed := Some UseAfterFree\<rparr>)"
proof -
  obtain s where s: "reach sys_init sys_step s" "crashed s = None" "dispatcher_free s"
    "server_rep (srv s) \<lparr>members = [new_client (peer 1) ''ann'' 1, new_client (peer 2) ''bob'' 2], log = []\<rparr>"
    using two_clients_reachable by blast
  then obtain ps where "represents (clients (srv s)) ps [new_client (peer 1) ''ann'' 1, new_client (peer 2) ''bob'' 2]"
    by (auto simp: server_rep_def)
  from activity_walk_use_after_free [OF s(1-3) this, of "demo_cmd SAY []" "peer 2"] s(1) show ?thesis
    by (simp add: NAME_SIZE_def MAX_CMD_SIZE_def) blast
qed

section \<open>The history counter\<close>

lemma say_dispatched:
  assumes "crashed s = None" and "server_rep (srv s) r" and "find (by_address a) (members r) = Some c"
    and "sys_inv s" and "dispatcher_free s"
  obtains st r' c' where "sys_step\<^sup>*\<^sup>* s (s\<lparr>srv := st, pool := pool s @ [Say_Head (demo_cmd SAY []) a]\<rparr>)"
    and "server_rep st r'" and "log r' = log r" and "find (by_address a) (members r') = Some c'"
proof -
  from room_touch_refines [OF assms(2), of 0 "demo_cmd SAY []" a] obtain st where
    st: "mark_active 0 (demo_cmd SAY []) a (srv s) = Some (Ok st)"
      "server_rep st (room_touch 0 (demo_cmd SAY []) a r)" by blast
  have "\<exists>c \<in> set (members (room_touch 0 (demo_cmd SAY []) a r)). by_address a c"
    unfolding room_touch_mem using assms(3) by (auto simp: find_Some_iff)
  then obtain c' where "find (by_address a) (members (room_touch 0 (demo_cmd SAY []) a r)) = Some c'"
    by (cases "find (by_address a) (members (room_touch 0 (demo_cmd SAY []) a r))") (auto simp: find_None_iff)
  with st dispatch_steps [OF assms(4,1,5) _ st(1)] show thesis
    by (intro that [of st "room_touch 0 (demo_cmd SAY []) a r" c']) (auto simp: spawn_def room_touch_def)
qed

text \<open>Two handlers of \<open>say$\<close> that have both found room for the hundredth line.\<close>

lemma two_stores_ready:
  assumes "reach sys_init sys_step s" and "crashed s = None" and "server_rep (srv s) r"
    and "members r \<noteq> []" and "length (log r) = 99" and "dispatcher_free s"
  obtains st line h where "sys_step\<^sup>*\<^sup>* s (s\<lparr>srv := st, pool := pool s @ [Say_Store line h, Say_Store line h]\<rparr>)"
    and "chat_historyc st = 99" and "length (chat_history st) = 100"
proof -
  let ?cmd = "demo_cmd SAY []" and ?n = "length (pool s)"
  obtain a c where a: "find (by_address a) (members r) = Some c"
    using assms(4) by (cases "members r") (auto simp: by_address_def intro: that [of "client_address (hd (members r))"])
  note inv = sys.reach_inv [OF assms(1)]
  obtain st1 r1 c1 where s1: "sys_step\<^sup>*\<^sup>* s (s\<lparr>srv := st1, pool := pool s @ [Say_Head ?cmd a]\<rparr>)"
    "server_rep st1 r1" "log r1 = log r" "find (by_address a) (members r1) = Some c1"
    by (rule say_dispatched [OF assms(2,3) a inv assms(6)])
  let ?s1 = "s\<lparr>srv := st1, pool := pool s @ [Say_Head ?cmd a]\<rparr>"
  have inv1: "sys_inv ?s1" by (rule sys.steps_inv [OF s1(1) inv])
  obtain st r2 c2 where s2: "sys_step\<^sup>*\<^sup>* ?s1 (?s1\<lparr>srv := st, pool := pool ?s1 @ [Say_Head ?cmd a]\<rparr>)"
    "server_rep st r2" "log r2 = log r1" "find (by_address a) (members r2) = Some c2"
    by (rule say_dispatched [of ?s1 r1 a c1]) (use assms(2,6) s1 inv1 in \<open>simp_all add: dispatcher_free_def\<close>)
  define run2 where "run2 th1 th2 = s\<lparr>srv := st, pool := pool s @ [th1, th2]\<rparr>" for th1 th2
  have r2: "sys_step\<^sup>*\<^sup>* ?s1 (run2 (Say_Head ?cmd a) (Say_Head ?cmd a))"
    using s2(1) by (simp add: run2_def)
  have inv2: "sys_inv (run2 th1 th2)" for th1 th2
    using sys.steps_inv [OF r2 inv1] by (simp add: sys_inv_def run2_def)
  obtain ps where ps: "represents (clients st) ps (members r2)" using s2(2) by (auto simp: server_rep_def)
  obtain f n where f: "say_lookup a st = Some (Ok f)" "deref (clients st) f = Ok n"
    using find_client_by_address_represents [OF ps, of a] deref_first_ptr(2) [OF ps s2(4)]
    by (auto simp: say_lookup_def by_address_def)
  have cnt: "chat_historyc st = 99" "length (chat_history st) = 100"
    using s2(2,3) s1(3) assms(5) by (auto simp: server_rep_def MAX_MSGS_def)
  have j: "join_args (args ?cmd) 0 MAX_MESSAGE = Ok (message_of 0 ?cmd)"
    by (rule join_args_message) (simp add: demo_cmd_def)
  let ?line = "line_of (client_name n) (message_of 0 ?cmd)" and ?h = "say_head st"
  have fm: "say_format ?cmd f st = Ok ?line" using f(2) j by (simp add: say_format_def)
  have first: "sys_step\<^sup>*\<^sup>* (run2 (Say_Head ?cmd a) th) (run2 (Say_Store ?line ?h) th)" for th
  proof -
    have "sys_step (run2 (Say_Head ?cmd a) th) (run2 (Say_Lookup ?cmd a ?h) th)"
      using moves(1) [OF inv2, of "Say_Head ?cmd a" th ?n 0] assms(2)
      by (simp add: run2_def starts_connect_def nth_append list_update_append)
    moreover have "sys_step (run2 (Say_Lookup ?cmd a ?h) th) (run2 (Say_Format ?cmd ?h f) th)"
      using moves(1) [OF inv2, of "Say_Lookup ?cmd a ?h" th ?n 0] assms(2) f(1)
      by (simp add: run2_def starts_connect_def nth_append list_update_append)
    moreover have "sys_step (run2 (Say_Format ?cmd ?h f) th) (run2 (Say_Store ?line ?h) th)"
      using moves(1) [OF inv2, of "Say_Format ?cmd ?h f" th ?n 0] assms(2) fm cnt
      by (simp add: run2_def starts_connect_def nth_append list_update_append MAX_MSGS_def)
    ultimately show ?thesis by (meson rtranclp.rtrancl_into_rtrancl rtranclp.rtrancl_refl)
  qed
  have second: "sys_step\<^sup>*\<^sup>* (run2 th (Say_Head ?cmd a)) (run2 th (Say_Store ?line ?h))" for th
  proof -
    have "sys_step (run2 th (Say_Head ?cmd a)) (run2 th (Say_Lookup ?cmd a ?h))"
      using moves(1) [OF inv2, of th "Say_Head ?cmd a" "Suc ?n" 0] assms(2)
      by (simp add: run2_def starts_connect_def nth_append list_update_append)
    moreover have "sys_step (run2 th (Say_Lookup ?cmd a ?h)) (run2 th (Say_Format ?cmd ?h f))"
      using moves(1) [OF inv2, of th "Say_Lookup ?cmd a ?h" "Suc ?n" 0] assms(2) f(1)
      by (simp add: run2_def starts_connect_def nth_append list_update_append)
    moreover have "sys_step (run2 th (Say_Format ?cmd ?h f)) (run2 th (Say_Store ?line ?h))"
      using moves(1) [OF inv2, of th "Say_Format ?cmd ?h f" "Suc ?n" 0] assms(2) fm cnt
      by (simp add: run2_def starts_connect_def nth_append list_update_append MAX_MSGS_def)
    ultimately show ?thesis by (meson rtranclp.rtrancl_into_rtrancl rtranclp.rtrancl_refl)
  qed
  have "sys_step\<^sup>*\<^sup>* s (run2 (Say_Store ?line ?h) (Say_Store ?line ?h))"
    using rtranclp_trans [OF s1(1) r2] first second
    by (meson rtranclp_trans)
  then show thesis using cnt by (intro that) (auto simp: run2_def)
qed

text \<open>
  C26. The test of the history counter and the store are not protected together. From every
  reachable state in which 99 lines are recorded, somebody is connected and no dispatch is under way, an execution exists
  in which two handlers of \<open>say$\<close> both pass the test and the second one writes behind the end
  of the array.
\<close>

theorem history_race_overflows:
  assumes "reach sys_init sys_step s" and "crashed s = None" and "server_rep (srv s) r"
    and "members r \<noteq> []" and "length (log r) = 99" and "dispatcher_free s"
  shows "\<exists>t. sys_step\<^sup>*\<^sup>* s t \<and> crashed t = Some BufferOverflow"
proof -
  let ?n = "length (pool s)"
  obtain st line h where r: "sys_step\<^sup>*\<^sup>* s (s\<lparr>srv := st, pool := pool s @ [Say_Store line h, Say_Store line h]\<rparr>)"
    "chat_historyc st = 99" "length (chat_history st) = 100"
    by (rule two_stores_ready [OF assms])
  note inv2 = sys.steps_inv [OF r(1) sys.reach_inv [OF assms(1)]]
  let ?st3 = "st\<lparr>chat_history := (chat_history st)[99 := Some line]\<rparr>"
  let ?s3 = "s\<lparr>srv := ?st3, pool := pool s @ [Say_Count line h, Say_Store line h]\<rparr>"
  have s3: "sys_step (s\<lparr>srv := st, pool := pool s @ [Say_Store line h, Say_Store line h]\<rparr>) ?s3"
    using moves(1) [OF inv2, of ?n 0] assms(2) r(2,3)
    by (simp add: starts_connect_def nth_append list_update_append say_store_def)
  note inv3 = sys.inv_step [OF s3 inv2]
  let ?s4 = "s\<lparr>srv := say_count ?st3, pool := pool s @ [Say_Broadcast line h, Say_Store line h]\<rparr>"
  have s4: "sys_step ?s3 ?s4"
    using moves(1) [OF inv3, of ?n 0] assms(2)
    by (simp add: starts_connect_def nth_append list_update_append)
  note inv4 = sys.inv_step [OF s4 inv3]
  have s5: "sys_step ?s4 (?s4\<lparr>crashed := Some BufferOverflow\<rparr>)"
    using moves(2) [OF inv4, of "Suc ?n" 0 BufferOverflow] assms(2) r(2,3)
    by (simp add: starts_connect_def nth_append say_store_def say_count_def)
  have "sys_step\<^sup>*\<^sup>* s (?s4\<lparr>crashed := Some BufferOverflow\<rparr>)"
    using r(1) s3 s4 s5 by (meson rtranclp.rtrancl_into_rtrancl)
  then show ?thesis by (intro exI conjI) (assumption, simp)
qed

text \<open>The other order of the same steps: both store, then both count, and the counter is past the end.\<close>

lemma history_past_end:
  "length (chat_history st) < chat_historyc st \<Longrightarrow> i < chat_historyc st \<Longrightarrow>
   send_history from i st = Fault OutOfBounds"
proof (induction "length (chat_history st) - i" arbitrary: i)
  case 0
  then show ?case by (simp add: send_history.simps history_slot_def)
next
  case (Suc k)
  then have "i < length (chat_history st)" "k = length (chat_history st) - Suc i" by simp_all
  with Suc.hyps(1) [of "Suc i"] Suc.prems show ?case
    by (subst send_history.simps) (simp add: history_slot_def res_bind_def)
qed

lemma history_overread:
  assumes "sys_inv s" and "crashed s = None" and "dispatcher_free s" and "100 < chat_historyc (srv s)"
  shows "\<exists>t. sys_step\<^sup>*\<^sup>* s t \<and> crashed t = Some OutOfBounds"
proof -
  let ?cmd = "demo_cmd CONN [''eve'']" and ?s = "s\<lparr>pool := pool s @ [Connect_Add (demo_cmd CONN [''eve'']) (peer 3)]\<rparr>"
  have d: "sys_step s ?s"
    using dispatch [OF assms(2,3), of ?cmd "peer 3"]
    by (simp add: dispatched_def dispatch_start_def spawn_def NAME_SIZE_def MAX_CMD_SIZE_def)
  have inv: "sys_inv ?s" using sys.inv_step [OF d assms(1)] .
  obtain p where p: "p \<noteq> 0" "cells (clients (srv s)) p = None"
    using fresh_block assms(1) by (auto simp: sys_inv_def)
  obtain ps cs where "represents (clients (srv s)) ps cs" using assms(1) by (auto simp: sys_inv_def store_inv_def)
  from add_represents [OF this p, of 0 "peer 3" "''eve''"] obtain s' where
    add: "add_client_to_list p 0 (clients (srv s)) (peer 3) ''eve'' = Ok s'" by blast
  let ?st = "(srv s)\<lparr>clients := s'\<rparr>"
  have len: "length (chat_history ?st) = 100" using assms(1) by (simp add: sys_inv_def MAX_MSGS_def)
  have "send_history (peer 3) (history_start (chat_historyc ?st)) ?st = Fault OutOfBounds"
    using len assms(4) by (intro history_past_end) (auto simp: history_start_def CHAT_HISTORY_SIZE_def)
  moreover have "arg ?cmd 0 = ''eve''" by simp
  ultimately have "run_handler p 0 ?cmd (peer 3) (srv s) = Some (Fault OutOfBounds)"
    using add by (simp add: run_handler_def connect_to_server_def connect_add_def connect_reply_def strcpy_def BUFFER_SIZE_def)
  with run_thread_handler [of "srv s" p 0 ?cmd "peer 3"] have
    "run_thread 18 p 0 (pool ?s ! length (pool s)) (srv ?s) = Some (Fault OutOfBounds)"
    using assms(1) by (simp add: spawn_def sys_inv_def)
  from run_thread_faults [OF this inv] obtain t where
    "(thread_move (length (pool s)))\<^sup>*\<^sup>* ?s t" "crashed t = Some OutOfBounds"
    using assms(2) p by auto
  with d thread_moves_steps show ?thesis by (meson converse_rtranclp_into_rtranclp)
qed

text \<open>
  C27. The counter of the history can pass the end of the array. From every reachable state in which
  99 lines are recorded, somebody is connected and no dispatch is under way, an execution exists in
  which two handlers of \<open>say$\<close> store at the same index, one line being lost, and then both increment the
  counter to 101; the next client to connect is sent the slot behind the array.
\<close>

theorem history_counter_overruns:
  assumes "reach sys_init sys_step s" and "crashed s = None" and "server_rep (srv s) r"
    and "members r \<noteq> []" and "length (log r) = 99" and "dispatcher_free s"
  shows "\<exists>t u. sys_step\<^sup>*\<^sup>* s t \<and> crashed t = None \<and> chat_historyc (srv t) = 101 \<and>
    length (chat_history (srv t)) = 100 \<and> sys_step\<^sup>*\<^sup>* t u \<and> crashed u = Some OutOfBounds"
proof -
  let ?n = "length (pool s)"
  obtain st line h where r: "sys_step\<^sup>*\<^sup>* s (s\<lparr>srv := st, pool := pool s @ [Say_Store line h, Say_Store line h]\<rparr>)"
    "chat_historyc st = 99" "length (chat_history st) = 100"
    by (rule two_stores_ready [OF assms])
  note inv2 = sys.steps_inv [OF r(1) sys.reach_inv [OF assms(1)]]
  let ?st = "st\<lparr>chat_history := (chat_history st)[99 := Some line]\<rparr>"
  let ?s = "\<lambda>st th1 th2. s\<lparr>srv := st, pool := pool s @ [th1, th2]\<rparr>"
  have s3: "sys_step (?s st (Say_Store line h) (Say_Store line h)) (?s ?st (Say_Count line h) (Say_Store line h))"
    using moves(1) [OF inv2, of ?n 0] assms(2) r(2,3)
    by (simp add: starts_connect_def nth_append list_update_append say_store_def)
  note inv3 = sys.inv_step [OF s3 inv2]
  have s4: "sys_step (?s ?st (Say_Count line h) (Say_Store line h)) (?s ?st (Say_Count line h) (Say_Count line h))"
    using moves(1) [OF inv3, of "Suc ?n" 0] assms(2) r(2,3)
    by (simp add: starts_connect_def nth_append list_update_append say_store_def)
  note inv4 = sys.inv_step [OF s4 inv3]
  have s5: "sys_step (?s ?st (Say_Count line h) (Say_Count line h)) (?s (say_count ?st) (Say_Broadcast line h) (Say_Count line h))"
    using moves(1) [OF inv4, of ?n 0] assms(2)
    by (simp add: starts_connect_def nth_append list_update_append)
  note inv5 = sys.inv_step [OF s5 inv4]
  let ?t = "?s (say_count (say_count ?st)) (Say_Broadcast line h) (Say_Broadcast line h)"
  have s6: "sys_step (?s (say_count ?st) (Say_Broadcast line h) (Say_Count line h)) ?t"
    using moves(1) [OF inv5, of "Suc ?n" 0] assms(2)
    by (simp add: starts_connect_def nth_append list_update_append)
  have t: "sys_step\<^sup>*\<^sup>* s ?t" using r(1) s3 s4 s5 s6 by (meson rtranclp.rtrancl_into_rtrancl)
  have "\<exists>u. sys_step\<^sup>*\<^sup>* ?t u \<and> crashed u = Some OutOfBounds"
    by (rule history_overread [OF sys.inv_step [OF s6 inv5]])
       (use assms(2,6) r(2) in \<open>simp_all add: dispatcher_free_def say_count_def\<close>)
  then obtain u where "sys_step\<^sup>*\<^sup>* ?t u" "crashed u = Some OutOfBounds" by blast
  with t show ?thesis
    by (intro exI [of _ ?t] exI [of _ u] conjI) (use assms(2) r(2,3) in \<open>simp_all add: say_count_def\<close>)
qed

lemma says_valid:
  fixes a defines "rq \<equiv> Request 0 1 (demo_cmd SAY []) a"
  assumes "server_rep st r" and "\<exists>c \<in> set (members r). by_address a c" and "length (log r) + n \<le> 100"
  shows "guarded request_guard request_exec request_spec st r (replicate n rq) \<and>
    length (log (fst (spec_run request_spec r (replicate n rq)))) = length (log r) + n \<and>
    members (fst (spec_run request_spec r (replicate n rq))) \<noteq> []"
  using assms(2-4)
proof (induction n arbitrary: st r)
  case 0
  then show ?case by auto
next
  case (Suc n)
  let ?cmd = "demo_cmd SAY []"
  have v: "valid_request 0 ?cmd a st r" using Suc.prems(2) by (simp add: valid_request_def)
  let ?r = "fst (room_serve 1 ?cmd a r)"
  obtain c where "find (by_address a) (members (room_touch 1 ?cmd a r)) = Some c"
    using room_touch_mem(1) [of 1 ?cmd a r a] Suc.prems(2)
    by (cases "find (by_address a) (members (room_touch 1 ?cmd a r))") (auto simp: find_None_iff)
  then have r: "members ?r = members (room_touch 1 ?cmd a r)" "length (log ?r) = Suc (length (log r))"
    using Suc.prems(3) by (auto simp: room_serve_def room_handle_def room_say_def Let_def room_touch_def MAX_MSGS_def)
  from serve_refines [OF Suc.prems(1) v, of 1] obtain st' where
    st': "serve 0 1 ?cmd a st = Some (Ok (st', snd (room_serve 1 ?cmd a r)))" "server_rep st' ?r" by blast
  have "\<exists>c \<in> set (members ?r). by_address a c"
    unfolding r(1) room_touch_mem by (rule Suc.prems(2))
  from Suc.IH [OF st'(2) this] Suc.prems(3) r(2) v st'(1) show ?case
    by (auto simp: rq_def Let_def split: prod.splits)
qed

lemma ninety_nine_lines:
  obtains s r where "reach sys_init sys_step s" and "crashed s = None" and "server_rep (srv s) r"
    and "members r \<noteq> []" and "length (log r) = 99" and "dispatcher_free s"
proof -
  let ?r = "\<lparr>members = [new_client (peer 1) ''ann'' 1, new_client (peer 2) ''bob'' 2], log = []\<rparr>"
  let ?rs = "replicate 99 (Request 0 1 (demo_cmd SAY []) (peer 1))"
  obtain s where s: "reach sys_init sys_step s" "crashed s = None" "dispatcher_free s" "server_rep (srv s) ?r"
    using two_clients_reachable by blast
  have v: "guarded request_guard request_exec request_spec (srv s) ?r ?rs \<and>
    length (log (fst (spec_run request_spec ?r ?rs))) = 99 \<and> members (fst (spec_run request_spec ?r ?rs)) \<noteq> []"
    using says_valid [OF s(4), of "peer 1" 99] by (simp add: by_address_def new_client_def)
  from requests_reachable [of s ?r ?rs, OF _ s(4) sys.reach_inv [OF s(1)] s(2,3)] v obtain t where
    t: "sys_step\<^sup>*\<^sup>* s t" "crashed t = None" "server_rep (srv t) (fst (spec_run request_spec ?r ?rs))"
      "dispatcher_free t" by blast
  with v reach_trans [OF t(1) s(1)] show thesis by (intro that) auto
qed

theorem history_race_overflows_witness:
  "\<exists>s t. reach sys_init sys_step s \<and> sys_step\<^sup>*\<^sup>* s t \<and> crashed t = Some BufferOverflow"
  by (rule ninety_nine_lines) (use history_race_overflows in blast)

theorem history_counter_overruns_witness:
  "\<exists>s t. reach sys_init sys_step s \<and> sys_step\<^sup>*\<^sup>* s t \<and> crashed t = None \<and> chat_historyc (srv t) = 101"
  by (rule ninety_nine_lines) (use history_counter_overruns in blast)

end
