(* ===== verification/Monitor.thy ===== *)
theory Monitor
  imports Prelude
begin

text \<open>
  The reader-writer monitor of \<open>server_types.h\<close> that guards the client list. Between
  \<open>pthread_mutex_lock\<close> and the next wait or unlock a routine runs alone, so each such stretch is
  one function on the counters, and a thread is the place where it stands between stretches.
\<close>

record Monitor_t =
  AR :: int
  WR :: int
  AW :: int
  WW :: int
  client_head :: nat

definition monitor_init :: Monitor_t where
  "monitor_init = \<lparr>AR = 0, WR = 0, AW = 0, WW = 0, client_head = 0\<rparr>"

section \<open>The routines on the counters\<close>

text \<open>
  The check-in routines run to the wait in the loop body (\<open>False\<close>) or past the loop (\<open>True\<close>).
  \<open>reader_retry\<close> and \<open>writer_retry\<close> are what runs after the wait returns: the rest of the loop
  body, then the loop again.
\<close>

definition reader_checkin :: "Monitor_t \<Rightarrow> Monitor_t \<times> bool" where
  "reader_checkin m =
     (if AW m + WW m > 0 then (m\<lparr>WR := WR m + 1\<rparr>, False) else (m\<lparr>AR := AR m + 1\<rparr>, True))"

definition reader_retry :: "Monitor_t \<Rightarrow> Monitor_t \<times> bool" where
  "reader_retry m = reader_checkin (m\<lparr>WR := WR m - 1\<rparr>)"

definition writer_checkin :: "Monitor_t \<Rightarrow> Monitor_t \<times> bool" where
  "writer_checkin m =
     (if AW m + AR m > 0 then (m\<lparr>WW := WW m + 1\<rparr>, False) else (m\<lparr>AW := AW m + 1\<rparr>, True))"

definition writer_retry :: "Monitor_t \<Rightarrow> Monitor_t \<times> bool" where
  "writer_retry m = writer_checkin m"

datatype wakeup = No_Wakeup | Signal_Writer | Broadcast_Readers

definition reader_checkout :: "Monitor_t \<Rightarrow> Monitor_t \<times> wakeup" where
  "reader_checkout m =
     (let m' = m\<lparr>AR := AR m - 1\<rparr>
      in (m', if AR m' = 0 \<and> WW m' > 0 then Signal_Writer else No_Wakeup))"

definition writer_checkout :: "Monitor_t \<Rightarrow> Monitor_t \<times> wakeup" where
  "writer_checkout m =
     (let m' = m\<lparr>AW := AW m - 1\<rparr>
      in (m', if WW m' > 0 then Signal_Writer
              else if WR m' > 0 then Broadcast_Readers else No_Wakeup))"

lemmas monitor_defs = reader_checkin_def reader_retry_def writer_checkin_def writer_retry_def
  reader_checkout_def writer_checkout_def

section \<open>Threads\<close>

text \<open>
  \<open>R_Sleep\<close> and \<open>W_Sleep\<close>: asleep on the condition variable; \<open>R_Woken\<close> and \<open>W_Woken\<close>: woken, but
  not yet holding the mutex. A signal wakes at least one sleeper if there is one, a broadcast
  wakes all, and a sleeper may wake for no reason, as POSIX allows.
\<close>

datatype pc = Idle | R_Sleep | R_Woken | Reading | W_Sleep | W_Woken | Writing

record rw_system =
  mon :: Monitor_t
  pcs :: "pc list"

inductive wakes :: "wakeup \<Rightarrow> pc list \<Rightarrow> pc list \<Rightarrow> bool" where
  wakes_none: "wakes No_Wakeup ps ps"
| wakes_lost: "W_Sleep \<notin> set ps \<Longrightarrow> wakes Signal_Writer ps ps"
| wakes_writer: "i < length ps \<Longrightarrow> ps ! i = W_Sleep \<Longrightarrow> wakes Signal_Writer ps (ps[i := W_Woken])"
| wakes_readers: "wakes Broadcast_Readers ps (map (\<lambda>p. if p = R_Sleep then R_Woken else p) ps)"

datatype access = Free | Reader | Writer

inductive rw_enter :: "access \<Rightarrow> nat \<Rightarrow> rw_system \<Rightarrow> rw_system \<Rightarrow> bool" where
  r_checkin: "i < length (pcs s) \<Longrightarrow> pcs s ! i = Idle \<Longrightarrow> reader_checkin (mon s) = (m, go) \<Longrightarrow>
    rw_enter Reader i s (s\<lparr>mon := m, pcs := (pcs s)[i := if go then Reading else R_Sleep]\<rparr>)"
| r_retry: "i < length (pcs s) \<Longrightarrow> pcs s ! i = R_Woken \<Longrightarrow> reader_retry (mon s) = (m, go) \<Longrightarrow>
    rw_enter Reader i s (s\<lparr>mon := m, pcs := (pcs s)[i := if go then Reading else R_Sleep]\<rparr>)"
| w_checkin: "i < length (pcs s) \<Longrightarrow> pcs s ! i = Idle \<Longrightarrow> writer_checkin (mon s) = (m, go) \<Longrightarrow>
    rw_enter Writer i s (s\<lparr>mon := m, pcs := (pcs s)[i := if go then Writing else W_Sleep]\<rparr>)"
| w_retry: "i < length (pcs s) \<Longrightarrow> pcs s ! i = W_Woken \<Longrightarrow> writer_retry (mon s) = (m, go) \<Longrightarrow>
    rw_enter Writer i s (s\<lparr>mon := m, pcs := (pcs s)[i := if go then Writing else W_Sleep]\<rparr>)"
| r_spurious: "i < length (pcs s) \<Longrightarrow> pcs s ! i = R_Sleep \<Longrightarrow>
    rw_enter Reader i s (s\<lparr>pcs := (pcs s)[i := R_Woken]\<rparr>)"
| w_spurious: "i < length (pcs s) \<Longrightarrow> pcs s ! i = W_Sleep \<Longrightarrow>
    rw_enter Writer i s (s\<lparr>pcs := (pcs s)[i := W_Woken]\<rparr>)"

inductive rw_leave :: "access \<Rightarrow> nat \<Rightarrow> rw_system \<Rightarrow> rw_system \<Rightarrow> bool" where
  r_checkout: "i < length (pcs s) \<Longrightarrow> pcs s ! i = Reading \<Longrightarrow> reader_checkout (mon s) = (m, w) \<Longrightarrow>
    wakes w ((pcs s)[i := Idle]) ps \<Longrightarrow> rw_leave Reader i s (s\<lparr>mon := m, pcs := ps\<rparr>)"
| w_checkout: "i < length (pcs s) \<Longrightarrow> pcs s ! i = Writing \<Longrightarrow> writer_checkout (mon s) = (m, w) \<Longrightarrow>
    wakes w ((pcs s)[i := Idle]) ps \<Longrightarrow> rw_leave Writer i s (s\<lparr>mon := m, pcs := ps\<rparr>)"

inductive rw_step :: "rw_system \<Rightarrow> rw_system \<Rightarrow> bool" where
  rw_enters: "rw_enter a i s t \<Longrightarrow> rw_step s t"
| rw_leaves: "rw_leave a i s t \<Longrightarrow> rw_step s t"

inductive_cases wakes_cases: "wakes w ps qs"
inductive_cases rw_step_cases: "rw_step s t"
inductive_cases rw_enter_cases: "rw_enter a i s t"
inductive_cases rw_leave_cases: "rw_leave a i s t"
inductive_simps wakes_none_simps [simp]: "wakes No_Wakeup ps qs"
inductive_simps wakes_readers_simps [simp]: "wakes Broadcast_Readers ps qs"

definition rw_init :: "rw_system \<Rightarrow> bool" where
  "rw_init s \<longleftrightarrow> mon s = monitor_init \<and> set (pcs s) \<subseteq> {Idle}"

section \<open>The invariant: counters agree with threads\<close>

definition at :: "pc list \<Rightarrow> pc set \<Rightarrow> int" where
  "at ps P = int (length (filter (\<lambda>p. p \<in> P) ps))"

definition rw_inv :: "rw_system \<Rightarrow> bool" where
  "rw_inv s \<longleftrightarrow>
     AR (mon s) = at (pcs s) {Reading} \<and> AW (mon s) = at (pcs s) {Writing} \<and>
     WR (mon s) = at (pcs s) {R_Sleep, R_Woken} \<and>
     WW (mon s) \<ge> at (pcs s) {W_Sleep, W_Woken} \<and>
     AW (mon s) \<le> 1 \<and> (AW (mon s) = 1 \<longrightarrow> AR (mon s) = 0)"

lemma at_nonneg [simp]: "0 \<le> at ps P"
  by (simp add: at_def)

lemma at_update:
  "i < length ps \<Longrightarrow>
   at (ps[i := p]) P = at ps P - (if ps ! i \<in> P then 1 else 0) + (if p \<in> P then 1 else 0)"
  using length_filter_update [of i ps "\<lambda>p. p \<in> P" p] by (auto simp: at_def split: if_splits)

lemma at_pos: "i < length ps \<Longrightarrow> ps ! i \<in> P \<Longrightarrow> 0 < at ps P"
  by (auto simp: at_def filter_empty_conv)

lemma at_wakes:
  assumes "wakes w ps qs" and "P \<in> {{Reading}, {Writing}, {R_Sleep, R_Woken}, {W_Sleep, W_Woken}}"
  shows "at qs P = at ps P"
  using assms(1)
proof cases
  case wakes_readers
  have "length (filter (\<lambda>p. p \<in> P) (map (\<lambda>p. if p = R_Sleep then R_Woken else p) ps))
      = length (filter (\<lambda>p. p \<in> P) ps)"
    using assms(2) by (induction ps) auto
  then show ?thesis by (simp add: at_def wakes_readers)
next
  case (wakes_writer i)
  then show ?thesis using assms(2) by (auto simp: at_update)
qed simp_all

lemma rw_inv_init: "rw_init s \<Longrightarrow> rw_inv s"
proof -
  assume "rw_init s"
  moreover have "set ps \<subseteq> {Idle} \<Longrightarrow> Idle \<notin> P \<Longrightarrow> at ps P = 0" for ps P
    by (auto simp: at_def filter_empty_conv)
  ultimately show ?thesis by (simp add: rw_init_def rw_inv_def monitor_init_def)
qed

text \<open>One thread changes its place and the counters follow.\<close>

lemma rw_inv_move:
  assumes "rw_inv s" and "i < length (pcs s)"
    and "AR m = AR (mon s) - (if pcs s ! i = Reading then 1 else 0) + (if p = Reading then 1 else 0)"
    and "AW m = AW (mon s) - (if pcs s ! i = Writing then 1 else 0) + (if p = Writing then 1 else 0)"
    and "WR m = WR (mon s) - (if pcs s ! i \<in> {R_Sleep, R_Woken} then 1 else 0)
           + (if p \<in> {R_Sleep, R_Woken} then 1 else 0)"
    and "WW m \<ge> WW (mon s) - (if pcs s ! i \<in> {W_Sleep, W_Woken} then 1 else 0)
           + (if p \<in> {W_Sleep, W_Woken} then 1 else 0)"
    and "AW m \<le> 1" and "AW m = 1 \<longrightarrow> AR m = 0"
  shows "rw_inv (s\<lparr>mon := m, pcs := (pcs s)[i := p]\<rparr>)"
proof -
  have "at ((pcs s)[i := p]) {W_Sleep, W_Woken} \<le> WW m"
    using assms(1,2,6) by (simp add: rw_inv_def at_update)
  then show ?thesis
    using assms by (simp add: rw_inv_def at_update)
qed

lemma rw_inv_wakes:
  assumes "rw_inv (s\<lparr>mon := m, pcs := ps\<rparr>)" and "wakes w ps qs"
  shows "rw_inv (s\<lparr>mon := m, pcs := qs\<rparr>)"
proof -
  have "at qs {Reading} = at ps {Reading}" "at qs {Writing} = at ps {Writing}"
    "at qs {R_Sleep, R_Woken} = at ps {R_Sleep, R_Woken}"
    "at qs {W_Sleep, W_Woken} = at ps {W_Sleep, W_Woken}"
    by (rule at_wakes [OF assms(2)], simp)+
  with assms(1) show ?thesis by (auto simp: rw_inv_def)
qed

lemma rw_inv_facts:
  assumes "rw_inv s"
  shows "0 \<le> AR (mon s)" "0 \<le> AW (mon s)" "0 \<le> WR (mon s)" "0 \<le> WW (mon s)" "AW (mon s) \<le> 1"
    "AW (mon s) = 0 \<or> AR (mon s) = 0"
proof -
  have "0 \<le> at (pcs s) {W_Sleep, W_Woken}" by simp
  then show "0 \<le> WW (mon s)" using assms unfolding rw_inv_def by linarith
  show ar: "0 \<le> AR (mon s)" and aw: "0 \<le> AW (mon s)" and "0 \<le> WR (mon s)" and "AW (mon s) \<le> 1"
    using assms by (simp_all add: rw_inv_def)
  then show "AW (mon s) = 0 \<or> AR (mon s) = 0"
    using assms unfolding rw_inv_def by linarith
qed

lemma rw_inv_enter: "rw_enter a i s t \<Longrightarrow> rw_inv s \<Longrightarrow> rw_inv t"
proof (induction rule: rw_enter.induct)
  case (r_checkin i s m go)
  with rw_inv_facts [OF r_checkin(4)] show ?case
    by (intro rw_inv_move) (auto simp: reader_checkin_def split: if_splits)
next
  case (r_retry i s m go)
  with rw_inv_facts [OF r_retry(4)] show ?case
    by (intro rw_inv_move) (auto simp: reader_retry_def reader_checkin_def split: if_splits)
next
  case (w_checkin i s m go)
  with rw_inv_facts [OF w_checkin(4)] show ?case
    by (intro rw_inv_move) (auto simp: writer_checkin_def split: if_splits)
next
  case (w_retry i s m go)
  with rw_inv_facts [OF w_retry(4)] show ?case
    by (intro rw_inv_move) (auto simp: writer_retry_def writer_checkin_def split: if_splits)
next
  case (r_spurious i s)
  with rw_inv_move [of s i "mon s" R_Woken] rw_inv_facts [OF r_spurious(3)] show ?case
    by (auto simp: rw_inv_def)
next
  case (w_spurious i s)
  with rw_inv_move [of s i "mon s" W_Woken] rw_inv_facts [OF w_spurious(3)] show ?case
    by (auto simp: rw_inv_def)
qed

lemma rw_inv_leave: "rw_leave a i s t \<Longrightarrow> rw_inv s \<Longrightarrow> rw_inv t"
proof (induction rule: rw_leave.induct)
  case (r_checkout i s m w ps)
  have "AW (mon s) = 0"
    using r_checkout at_pos [OF r_checkout(1), of "{Reading}"] rw_inv_facts [OF r_checkout(5)]
    by (simp add: rw_inv_def)
  with r_checkout show ?case
    by (intro rw_inv_wakes [OF _ r_checkout(4)] rw_inv_move)
       (auto simp: reader_checkout_def Let_def)
next
  case (w_checkout i s m w ps)
  with rw_inv_facts [OF w_checkout(5)] show ?case
    by (intro rw_inv_wakes [OF _ w_checkout(4)] rw_inv_move)
       (auto simp: writer_checkout_def Let_def)
qed

lemma rw_inv_step: "rw_step s t \<Longrightarrow> rw_inv s \<Longrightarrow> rw_inv t"
  by (erule rw_step_cases) (auto intro: rw_inv_enter rw_inv_leave)

interpretation rw: inductive_invariant rw_init rw_step rw_inv
  by unfold_locales (auto intro: rw_inv_init rw_inv_step)

section \<open>Properties\<close>

lemma at_ge_2:
  assumes "i < length ps" and "j < length ps" and "i \<noteq> j" and "ps ! i \<in> P" and "ps ! j \<in> P"
  shows "2 \<le> at ps P"
proof -
  obtain q where "q \<notin> P \<or> P = UNIV" by auto
  have "{i, j} \<subseteq> {k. k < length ps \<and> ps ! k \<in> P}" using assms by auto
  then have "card {i, j} \<le> card {k. k < length ps \<and> ps ! k \<in> P}"
    by (intro card_mono) auto
  then show ?thesis using assms(3) by (simp add: at_def length_filter_conv_card)
qed

lemma writer_alone:
  assumes "rw_inv s" and "i < length (pcs s)" and "pcs s ! i = Writing"
    and "j < length (pcs s)" and "j \<noteq> i"
  shows "pcs s ! j \<noteq> Writing \<and> pcs s ! j \<noteq> Reading"
proof -
  have "0 < at (pcs s) {Writing}" using at_pos [of i "pcs s" "{Writing}"] assms by simp
  then have "AW (mon s) = 1" "AR (mon s) = 0" using assms(1) by (auto simp: rw_inv_def)
  then have "at (pcs s) {Writing} = 1" "at (pcs s) {Reading} = 0" using assms(1) by (simp_all add: rw_inv_def)
  then show ?thesis
    using at_ge_2 [of i "pcs s" j "{Writing}"] at_pos [of j "pcs s" "{Reading}"] assms by auto
qed

text \<open>
  C11. Mutual exclusion: in every reachable state, for any number of threads and any schedule,
  spurious wakeups included, a writer in its critical section is alone.
\<close>

theorem writer_excludes_all:
  assumes "reach rw_init rw_step s" and "i < length (pcs s)" and "pcs s ! i = Writing"
    and "j < length (pcs s)" and "j \<noteq> i"
  shows "pcs s ! j \<noteq> Writing \<and> pcs s ! j \<noteq> Reading"
  using writer_alone [OF rw.reach_inv [OF assms(1)] assms(2-5)] .

text \<open>
  A short run of two threads: a reader enters, a writer has to wait, the reader leaves and wakes
  it, the writer writes and leaves. Everybody is idle again, but the count of waiting writers
  stays at one.
\<close>

definition rw_at :: "int \<Rightarrow> int \<Rightarrow> int \<Rightarrow> int \<Rightarrow> pc list \<Rightarrow> rw_system" where
  "rw_at ar wr aw ww ps =
     \<lparr>mon = \<lparr>AR = ar, WR = wr, AW = aw, WW = ww, client_head = 0\<rparr>, pcs = ps\<rparr>"

lemma rw_run:
  "reach rw_init rw_step (rw_at 0 0 0 0 [Idle, Idle])"
  "rw_enter Reader 0 (rw_at 0 0 0 0 [Idle, Idle]) (rw_at 1 0 0 0 [Reading, Idle])"
  "rw_enter Writer 1 (rw_at 1 0 0 0 [Reading, Idle]) (rw_at 1 0 0 1 [Reading, W_Sleep])"
  "rw_leave Reader 0 (rw_at 1 0 0 1 [Reading, W_Sleep]) (rw_at 0 0 0 1 [Idle, W_Woken])"
  "rw_enter Writer 1 (rw_at 0 0 0 1 [Idle, W_Woken]) (rw_at 0 0 1 1 [Idle, Writing])"
  "rw_leave Writer 1 (rw_at 0 0 1 1 [Idle, Writing]) (rw_at 0 0 0 1 [Idle, Idle])"
  "rw_enter Reader 0 (rw_at 0 0 0 1 [Idle, Idle]) (rw_at 0 1 0 1 [R_Sleep, Idle])"
proof -
  let ?w = "wakes Signal_Writer"
  have w1: "?w [Idle, W_Sleep] [Idle, W_Woken]"
    using wakes_writer [of 1 "[Idle, W_Sleep]"] by simp
  have w2: "?w [Idle, Idle] [Idle, Idle]" by (rule wakes_lost) simp
  show "reach rw_init rw_step (rw_at 0 0 0 0 [Idle, Idle])"
    by (rule reach_init) (simp add: rw_init_def rw_at_def monitor_init_def)
  show "rw_enter Reader 0 (rw_at 0 0 0 0 [Idle, Idle]) (rw_at 1 0 0 0 [Reading, Idle])"
    using r_checkin [of 0 "rw_at 0 0 0 0 [Idle, Idle]"] by (simp add: rw_at_def monitor_defs)
  show "rw_enter Writer 1 (rw_at 1 0 0 0 [Reading, Idle]) (rw_at 1 0 0 1 [Reading, W_Sleep])"
    using w_checkin [of 1 "rw_at 1 0 0 0 [Reading, Idle]" _ False] by (simp add: rw_at_def monitor_defs)
  show "rw_leave Reader 0 (rw_at 1 0 0 1 [Reading, W_Sleep]) (rw_at 0 0 0 1 [Idle, W_Woken])"
    using r_checkout [of 0 "rw_at 1 0 0 1 [Reading, W_Sleep]" _ Signal_Writer "[Idle, W_Woken]"]
    by (simp add: rw_at_def monitor_defs w1)
  show "rw_enter Writer 1 (rw_at 0 0 0 1 [Idle, W_Woken]) (rw_at 0 0 1 1 [Idle, Writing])"
    using w_retry [of 1 "rw_at 0 0 0 1 [Idle, W_Woken]"] by (simp add: rw_at_def monitor_defs)
  show "rw_leave Writer 1 (rw_at 0 0 1 1 [Idle, Writing]) (rw_at 0 0 0 1 [Idle, Idle])"
    using w_checkout [of 1 "rw_at 0 0 1 1 [Idle, Writing]" _ Signal_Writer "[Idle, Idle]"]
    by (simp add: rw_at_def monitor_defs w2)
  show "rw_enter Reader 0 (rw_at 0 0 0 1 [Idle, Idle]) (rw_at 0 1 0 1 [R_Sleep, Idle])"
    using r_checkin [of 0 "rw_at 0 0 0 1 [Idle, Idle]" _ False] by (simp add: rw_at_def monitor_defs)
qed

lemmas rw_run_steps = rw_enters [OF rw_run(2)] rw_enters [OF rw_run(3)] rw_leaves [OF rw_run(4)]
  rw_enters [OF rw_run(5)] rw_leaves [OF rw_run(6)] rw_enters [OF rw_run(7)]

lemma rw_reach_writing: "reach rw_init rw_step (rw_at 0 0 1 1 [Idle, Writing])"
  by (rule reach_step [OF reach_step [OF reach_step [OF reach_step [OF rw_run(1) rw_run_steps(1)]
        rw_run_steps(2)] rw_run_steps(3)] rw_run_steps(4)])

lemma rw_reach_quiet: "reach rw_init rw_step (rw_at 0 0 0 1 [Idle, Idle])"
  by (rule reach_step [OF rw_reach_writing rw_run_steps(5)])

theorem writer_excludes_all_witness:
  "reach rw_init rw_step (rw_at 0 0 1 1 [Idle, Writing]) \<and>
   pcs (rw_at 0 0 1 1 [Idle, Writing]) ! 0 \<noteq> Reading"
  using writer_excludes_all [OF rw_reach_writing, of 1 0] rw_reach_writing
  by (simp add: rw_at_def)

lemma WW_step: "rw_step s t \<Longrightarrow> WW (mon s) \<le> WW (mon t)"
  by (erule rw_step_cases; erule rw_enter_cases rw_leave_cases)
     (auto simp: monitor_defs Let_def split: if_splits)

lemma wakes_reading: "wakes w ps qs \<Longrightarrow> length qs = length ps \<and> (j < length ps \<longrightarrow> qs ! j = Reading \<longrightarrow> ps ! j = Reading)"
  by (auto simp: nth_list_update elim!: wakes_cases split: if_splits)

lemma no_new_reader:
  assumes "rw_step s t" and "rw_inv s" and "0 < WW (mon s)" and "j < length (pcs s)"
  shows "length (pcs t) = length (pcs s) \<and> (pcs t ! j = Reading \<longrightarrow> pcs s ! j = Reading)"
proof -
  have "0 \<le> AW (mon s)" using assms(2) by (rule rw_inv_facts)
  with assms show ?thesis
    by (elim rw_step_cases rw_enter_cases rw_leave_cases)
       (auto simp: monitor_defs nth_list_update dest!: wakes_reading [of _ _ _ j] split: if_splits)
qed

text \<open>
  The count of waiting writers is never taken down again. Once a single writer has had to
  wait, no thread that is not reading at that moment enters a read section ever again, under
  any schedule: every later reader sleeps for good.
\<close>

lemma readers_starve:
  assumes "reach rw_init rw_step s" and "0 < WW (mon s)" and "rw_step\<^sup>*\<^sup>* s t"
    and "j < length (pcs s)" and "pcs s ! j \<noteq> Reading"
  shows "pcs t ! j \<noteq> Reading \<and> 0 < WW (mon t)"
proof -
  have "rw_inv t \<and> 0 < WW (mon t) \<and> length (pcs t) = length (pcs s) \<and> pcs t ! j \<noteq> Reading"
    using assms(3)
  proof (induction rule: rtranclp_induct)
    case base
    then show ?case using assms rw.reach_inv by auto
  next
    case (step u v)
    then show ?case
      using assms(4) no_new_reader [OF step(2), of j] rw_inv_step [OF step(2)] WW_step [OF step(2)]
      by auto
  qed
  then show ?thesis by simp
qed

text \<open>
  For instance, in the quiet state above: nobody reads, writes or waits, and yet a thread that now
  wants to read goes to sleep and never reads.
\<close>

lemma readers_starve_instance:
  "reach rw_init rw_step (rw_at 0 0 0 1 [Idle, Idle]) \<and>
   rw_step (rw_at 0 0 0 1 [Idle, Idle]) (rw_at 0 1 0 1 [R_Sleep, Idle]) \<and>
   pcs (rw_at 0 1 0 1 [R_Sleep, Idle]) ! 0 \<noteq> Reading \<and> 0 < WW (mon (rw_at 0 1 0 1 [R_Sleep, Idle]))"
  using readers_starve [OF rw_reach_quiet _ r_into_rtranclp [of rw_step, OF rw_run_steps(6)], of 0]
    rw_reach_quiet rw_run_steps(6)
  by (simp add: rw_at_def)

end
