(* ===== verification/Server_Guarded.thy ===== *)
theory Server_Guarded
  imports Server_Threads Monitor
begin

text \<open>
  The handler threads together with the monitor. In theory \<open>Server_Threads\<close> a thread takes a
  critical section as one step whenever its turn comes; here it has to check in first, may have to
  sleep, and checks out when the section is over. The two views have the same runs of the server,
  but only this one can tell who waits for whom.
\<close>

section \<open>Critical sections\<close>

text \<open>The section a thread has before it: as a reader, as a writer, or none.\<close>

fun section_of :: "hthread \<Rightarrow> access" where
  "section_of (Connect_Add cmd from) = Writer"
| "section_of (Sayto_Lookup cmd from) = Reader"
| "section_of (Say_Lookup cmd from node) = Reader"
| "section_of (Say_Broadcast line node) = Reader"
| "section_of (Disconnect_Lookup from) = Reader"
| "section_of (Disconnect_Remove node) = Writer"
| "section_of (Rename_Update cmd from) = Writer"
| "section_of (Kick_Check cmd from) = Reader"
| "section_of (Kick_Remove cmd) = Writer"
| "section_of (Kick_Announce cmd) = Reader"
| "section_of Manager_Sleep = Reader"
| "section_of (Manager_Remove name) = Writer"
| "section_of th = Free"

definition inside :: "access \<Rightarrow> pc" where
  "inside a = (case a of Reader \<Rightarrow> Reading | Writer \<Rightarrow> Writing | Free \<Rightarrow> Idle)"

record guarded_server =
  core :: system
  gate :: rw_system

text \<open>
  What a thread does inside a section is one step, taken together with the check-out; a fault inside
  ends the process. This is sound for what the sections do to each other because the monitor keeps the list
  still around a thread that is inside (C18 below), whenever its step is taken. Code that reads the list
  outside of any section, the dispatcher's walk and the threads that keep a pointer, sees a
  section as one step here, while in C it may also see the pointers half changed.
\<close>

inductive guard_step :: "guarded_server \<Rightarrow> guarded_server \<Rightarrow> bool" where
  g_dispatch: "crashed (core s) = None \<Longrightarrow> dispatcher_free (core s) \<Longrightarrow> well_formed_command cmd \<Longrightarrow>
     guard_step s (s\<lparr>core := dispatched cmd from (core s), gate := (gate s)\<lparr>pcs := pcs (gate s) @ [Idle]\<rparr>\<rparr>)"
| g_enter: "crashed (core s) = None \<Longrightarrow> i < length (pool (core s)) \<Longrightarrow>
     rw_enter (section_of (pool (core s) ! i)) i (gate s) g \<Longrightarrow> guard_step s (s\<lparr>gate := g\<rparr>)"
| g_free: "section_of (pool (core s) ! i) = Free \<Longrightarrow> thread_move i (core s) t \<Longrightarrow>
     guard_step s (s\<lparr>core := t\<rparr>)"
| g_section: "thread_move i (core s) t \<Longrightarrow> crashed t = None \<Longrightarrow>
     rw_leave (section_of (pool (core s) ! i)) i (gate s) g \<Longrightarrow> guard_step s (s\<lparr>core := t, gate := g\<rparr>)"
| g_fault: "thread_move i (core s) t \<Longrightarrow> crashed t \<noteq> None \<Longrightarrow>
     section_of (pool (core s) ! i) \<noteq> Free \<Longrightarrow> pcs (gate s) ! i = inside (section_of (pool (core s) ! i)) \<Longrightarrow>
     guard_step s (s\<lparr>core := t\<rparr>)"

inductive_cases guard_step_cases: "guard_step s t"

definition guard_init :: "guarded_server \<Rightarrow> bool" where
  "guard_init s \<longleftrightarrow> sys_init (core s) \<and> gate s = \<lparr>mon = monitor_init, pcs = [Idle]\<rparr>"

definition guard_inv :: "guarded_server \<Rightarrow> bool" where
  "guard_inv s \<longleftrightarrow> rw_inv (gate s) \<and> length (pcs (gate s)) = length (pool (core s)) \<and> sys_inv (core s)"

section \<open>The same runs\<close>

lemma thread_move_pool: "thread_move i s t \<Longrightarrow> i < length (pool s) \<and> length (pool t) = length (pool s) \<and> crashed s = None"
  by (erule thread_move_cases) simp_all

lemma wakes_length: "wakes w ps qs \<Longrightarrow> length qs = length ps"
  by (erule wakes_cases) simp_all

lemma enter_length: "rw_enter a i s t \<Longrightarrow> length (pcs t) = length (pcs s)"
  by (erule rw_enter_cases) simp_all

lemma leave_length: "rw_leave a i s t \<Longrightarrow> length (pcs t) = length (pcs s)"
  by (erule rw_leave_cases) (simp_all add: wakes_length)

lemma at_new: "Idle \<notin> P \<Longrightarrow> at (ps @ [Idle]) P = at ps P"
  by (simp add: at_def)

lemma rw_inv_new: "rw_inv g \<Longrightarrow> rw_inv (g\<lparr>pcs := pcs g @ [Idle]\<rparr>)"
  unfolding rw_inv_def by (elim conjE) (simp add: at_new)

lemma guard_step_core: "guard_step s t \<Longrightarrow> sys_step\<^sup>=\<^sup>= (core s) (core t)"
  by (erule guard_step_cases) (auto intro: dispatch thread)

interpretation guard: inductive_invariant guard_init guard_step guard_inv
proof unfold_locales
  fix s t
  show "guard_init s \<Longrightarrow> guard_inv s"
    using sys.inv_init [of "core s"] rw_inv_init [of "gate s"]
    by (auto simp: guard_init_def guard_inv_def rw_init_def sys_init_def)
  assume inv: "guard_inv s"
  show "guard_inv t" if st: "guard_step s t"
  proof -
    have "sys_inv (core t)"
      using guard_step_core [OF st] inv sys.inv_step by (auto simp: guard_inv_def)
    moreover have "rw_inv (gate t) \<and> length (pcs (gate t)) = length (pool (core t))"
      using st inv
      by (cases rule: guard_step.cases)
         (auto simp: guard_inv_def rw_inv_new rw_inv_enter rw_inv_leave enter_length leave_length
           dest: thread_move_pool)
    ultimately show ?thesis by (simp add: guard_inv_def)
  qed
qed

lemma guard_reach_core: "reach guard_init guard_step s \<Longrightarrow> reach sys_init sys_step (core s)"
proof (induction rule: reach.induct)
  case (reach_init s)
  then show ?case by (intro reach.reach_init) (simp add: guard_init_def)
next
  case (reach_step s t)
  then show ?case using guard_step_core [OF reach_step(2)] by (auto intro: reach.reach_step)
qed

text \<open>A monitor nobody uses lets a thread in and is as before when the thread has left.\<close>

definition quiet :: "guarded_server \<Rightarrow> bool" where
  "quiet s \<longleftrightarrow> gate s = \<lparr>mon = monitor_init, pcs = replicate (length (pool (core s))) Idle\<rparr>"

lemma quiet_section:
  assumes "i < n" and "a \<noteq> Free"
  shows "\<exists>g. rw_enter a i \<lparr>mon = monitor_init, pcs = replicate n Idle\<rparr> g \<and> pcs g ! i = inside a \<and>
    rw_leave a i g \<lparr>mon = monitor_init, pcs = replicate n Idle\<rparr>"
proof -
  let ?q = "\<lparr>mon = monitor_init, pcs = replicate n Idle\<rparr>"
  have id: "(replicate n Idle)[i := Idle] = replicate n Idle" by (metis assms(1) list_update_id nth_replicate)
  show ?thesis
  proof (cases a)
    case Reader
    have "rw_enter Reader i ?q (?q\<lparr>mon := monitor_init\<lparr>AR := 1\<rparr>, pcs := (replicate n Idle)[i := Reading]\<rparr>)"
      using r_checkin [of i ?q "monitor_init\<lparr>AR := 1\<rparr>" True] assms(1)
      by (simp add: monitor_defs monitor_init_def)
    moreover have "rw_leave Reader i (?q\<lparr>mon := monitor_init\<lparr>AR := 1\<rparr>, pcs := (replicate n Idle)[i := Reading]\<rparr>) ?q"
      using r_checkout [of i "?q\<lparr>mon := monitor_init\<lparr>AR := 1\<rparr>, pcs := (replicate n Idle)[i := Reading]\<rparr>"
          monitor_init No_Wakeup "replicate n Idle"] assms(1)
      by (simp add: monitor_defs monitor_init_def id)
    ultimately show ?thesis
      using Reader assms(1)
      by (intro exI [of _ "?q\<lparr>mon := monitor_init\<lparr>AR := 1\<rparr>, pcs := (replicate n Idle)[i := Reading]\<rparr>"])
         (simp add: inside_def)
  next
    case Writer
    have "rw_enter Writer i ?q (?q\<lparr>mon := monitor_init\<lparr>AW := 1\<rparr>, pcs := (replicate n Idle)[i := Writing]\<rparr>)"
      using w_checkin [of i ?q "monitor_init\<lparr>AW := 1\<rparr>" True] assms(1)
      by (simp add: monitor_defs monitor_init_def)
    moreover have "rw_leave Writer i (?q\<lparr>mon := monitor_init\<lparr>AW := 1\<rparr>, pcs := (replicate n Idle)[i := Writing]\<rparr>) ?q"
      using w_checkout [of i "?q\<lparr>mon := monitor_init\<lparr>AW := 1\<rparr>, pcs := (replicate n Idle)[i := Writing]\<rparr>"
          monitor_init No_Wakeup "replicate n Idle"] assms(1)
      by (simp add: monitor_defs monitor_init_def id)
    ultimately show ?thesis
      using Writer assms(1)
      by (intro exI [of _ "?q\<lparr>mon := monitor_init\<lparr>AW := 1\<rparr>, pcs := (replicate n Idle)[i := Writing]\<rparr>"])
         (simp add: inside_def)
  qed (use assms(2) in simp)
qed

lemma quiet_move:
  assumes "thread_move i (core s) c" and "quiet s"
  shows "\<exists>t. guard_step\<^sup>*\<^sup>* s t \<and> core t = c \<and> (crashed c = None \<longrightarrow> quiet t)"
proof (cases "section_of (pool (core s) ! i) = Free")
  case True
  from g_free [OF True assms(1)] assms(2) thread_move_pool [OF assms(1)] show ?thesis
    by (intro exI [of _ "s\<lparr>core := c\<rparr>"]) (auto simp: quiet_def)
next
  case False
  let ?a = "section_of (pool (core s) ! i)"
  note p = thread_move_pool [OF assms(1)]
  from quiet_section [of i "length (pool (core s))", OF _ False] p assms(2) obtain g where
    g: "rw_enter ?a i (gate s) g" "pcs g ! i = inside ?a" "rw_leave ?a i g (gate s)"
    by (auto simp: quiet_def)
  have one: "guard_step s (s\<lparr>gate := g\<rparr>)" by (rule g_enter) (use p g(1) in simp_all)
  show ?thesis
  proof (cases "crashed c = None")
    case True
    have "guard_step (s\<lparr>gate := g\<rparr>) (s\<lparr>gate := g\<rparr>\<lparr>core := c, gate := gate s\<rparr>)"
      by (rule g_section [of i]) (use True assms(1) g(3) in simp_all)
    with one have "guard_step\<^sup>*\<^sup>* s (s\<lparr>gate := g\<rparr>\<lparr>core := c, gate := gate s\<rparr>)" by auto
    with assms(2) p show ?thesis
      by (intro exI [of _ "s\<lparr>gate := g\<rparr>\<lparr>core := c, gate := gate s\<rparr>"]) (simp add: quiet_def)
  next
    case crash: False
    have "guard_step (s\<lparr>gate := g\<rparr>) (s\<lparr>gate := g\<rparr>\<lparr>core := c\<rparr>)"
      by (rule g_fault [of i]) (use crash False assms(1) g(2) in simp_all)
    with one have "guard_step\<^sup>*\<^sup>* s (s\<lparr>gate := g\<rparr>\<lparr>core := c\<rparr>)" by auto
    with crash show ?thesis by (intro exI [of _ "s\<lparr>gate := g\<rparr>\<lparr>core := c\<rparr>"]) auto
  qed
qed

lemma sys_reach_guarded:
  "reach sys_init sys_step c \<Longrightarrow> \<exists>s. reach guard_init guard_step s \<and> core s = c \<and> (crashed c = None \<longrightarrow> quiet s)"
proof (induction rule: reach.induct)
  case (reach_init c)
  let ?s = "\<lparr>core = c, gate = \<lparr>mon = monitor_init, pcs = [Idle]\<rparr>\<rparr>"
  from reach_init have "guard_init ?s" "quiet ?s" by (simp_all add: guard_init_def quiet_def sys_init_def)
  moreover from this(1) have "reach guard_init guard_step ?s" by (rule reach.reach_init)
  ultimately show ?case by (intro exI [of _ ?s]) simp
next
  case (reach_step c d)
  from reach_step(3) obtain s where
    s: "reach guard_init guard_step s" "core s = c" "crashed c = None \<longrightarrow> quiet s"
    by (elim exE conjE) (rule that)
  from reach_step(2) show ?case
  proof (cases rule: sys_step.cases)
    case (dispatch cmd "from")
    let ?t = "s\<lparr>core := d, gate := (gate s)\<lparr>pcs := pcs (gate s) @ [Idle]\<rparr>\<rparr>"
    have "guard_step s ?t" using g_dispatch [of s cmd "from"] s(2) dispatch by simp
    then have "reach guard_init guard_step ?t" by (rule reach.reach_step [OF s(1)])
    moreover have "quiet ?t" using s(2,3) dispatch by (simp add: quiet_def replicate_append_same)
    ultimately show ?thesis by (intro exI [of _ ?t]) simp
  next
    case (thread i)
    with quiet_move [of i s d] s thread_move_pool [OF thread] obtain t where
      t: "guard_step\<^sup>*\<^sup>* s t" "core t = d" "crashed d = None \<longrightarrow> quiet t" by auto
    with reach_trans [OF t(1) s(1)] show ?thesis by auto
  qed
qed
section \<open>Properties\<close>

text \<open>
  Taking each critical section as one step loses nothing and adds nothing: the states of the
  server that threads can reach when they check in and out of the monitor, sleeping and retrying as
  they must, are exactly the states the interleaved system reaches, crashed states included.
\<close>

lemma guarded_states_are_interleaved_states:
  "(\<exists>s. reach guard_init guard_step s \<and> core s = c) \<longleftrightarrow> reach sys_init sys_step c"
  using guard_reach_core sys_reach_guarded by blast

text \<open>
  What there is to see of the list, the two time stamps apart: the dispatcher's walk and the manager's
  ping write those without the monitor.
\<close>

definition list_view :: "store \<Rightarrow> nat \<times> nat \<times> (nat \<rightharpoonup> client_node)" where
  "list_view s = (head s, tail s, \<lambda>p. map_option (\<lambda>n. n\<lparr>last_active := 0, ping_sent := 0\<rparr>) (cells s p))"

lemma list_view_stamp:
  assumes "deref s p = Ok n"
  shows "list_view (s\<lparr>cells := (cells s)(p \<mapsto> n\<lparr>last_active := t, ping_sent := u\<rparr>)\<rparr>) = list_view s"
    and "list_view (s\<lparr>cells := (cells s)(p \<mapsto> n\<lparr>ping_sent := u\<rparr>)\<rparr>) = list_view s"
  using assms by (auto simp: list_view_def deref_def fun_eq_iff split: option.splits if_splits)

lemma free_step_view:
  "thread_step p now th st = Some (Ok (st', th', ds)) \<Longrightarrow> section_of th = Free \<Longrightarrow>
   list_view (clients st') = list_view (clients st)"
  by (cases th) (auto simp: run_bind_def res_bind_def list_view_stamp say_store_def say_count_def cm_ping_def
      split: option.splits sum.splits if_splits)

lemma reader_step_view:
  "thread_step p now th st = Some (Ok (st', th', ds)) \<Longrightarrow> section_of th = Reader \<Longrightarrow> clients st' = clients st"
  by (cases th) (auto simp: run_bind_def split: option.splits sum.splits if_splits)

lemma move_view:
  assumes "thread_move i s t" and "section_of (pool s ! i) \<noteq> Writer"
  shows "list_view (clients (srv t)) = list_view (clients (srv s))"
  using assms(1)
proof (cases rule: thread_move.cases)
  case (move p now st th ds)
  with free_step_view [OF move(6)] reader_step_view [OF move(6)] assms(2) show ?thesis
    by (cases "section_of (pool s ! i)") simp_all
qed simp

text \<open>A thread that is inside stands before the section it has checked in for.\<close>

definition in_place :: "guarded_server \<Rightarrow> bool" where
  "in_place s \<longleftrightarrow> (\<forall>i < length (pool (core s)).
     (pcs (gate s) ! i = Reading \<longrightarrow> section_of (pool (core s) ! i) = Reader) \<and>
     (pcs (gate s) ! i = Writing \<longrightarrow> section_of (pool (core s) ! i) = Writer))"

lemma wakes_inside: "wakes w ps qs \<Longrightarrow> i < length ps \<Longrightarrow> x \<in> {Reading, Writing} \<Longrightarrow> qs ! i = x \<longleftrightarrow> ps ! i = x"
  by (erule wakes_cases) (auto simp: nth_list_update)

lemma leave_inside:
  assumes "rw_leave a i g h" and "j < length (pcs g)" and "x \<in> {Reading, Writing}"
  shows "pcs h ! j = x \<longleftrightarrow> j \<noteq> i \<and> pcs g ! j = x"
  using assms(1)
  by (rule rw_leave_cases) (use assms(2,3) in \<open>auto simp: wakes_inside nth_list_update\<close>)

lemma move_others:
  assumes "thread_move i s t" and "j \<noteq> i"
  shows "pool t ! j = pool s ! j"
  using assms by (auto elim!: thread_move_cases)

lemma fault_move: "thread_move i s t \<Longrightarrow> crashed t \<noteq> None \<Longrightarrow> pool t = pool s \<and> srv t = srv s"
  by (erule thread_move_cases) simp_all

lemma in_place_step:
  assumes "guard_step s t" and "guard_inv s" and "in_place s"
  shows "in_place t"
  using assms(1)
proof (cases rule: guard_step.cases)
  case (g_dispatch cmd "from")
  with assms(2,3) show ?thesis by (auto simp: in_place_def guard_inv_def dispatched_def nth_append)
next
  case (g_enter i g)
  from g_enter(4) show ?thesis
    by (cases rule: rw_enter.cases)
       (use g_enter(1) assms(2,3) in \<open>auto simp: in_place_def guard_inv_def nth_list_update\<close>)
next
  case (g_free i u)
  have "section_of (pool u ! j) = section_of (pool (core s) ! j)" if "j \<noteq> i" for j
    using move_others [OF g_free(3) that] by simp
  with g_free(1,2) assms(3) thread_move_pool [OF g_free(3)] show ?thesis
    by (auto simp: in_place_def) (metis access.distinct(1) access.distinct(3))+
next
  case (g_section i u g)
  note m = thread_move_pool [OF g_section(2)]
  have "pcs g ! j = x \<longleftrightarrow> j \<noteq> i \<and> pcs (gate s) ! j = x" if "j < length (pool u)" "x \<in> {Reading, Writing}" for j x
    using leave_inside [OF g_section(4)] that m assms(2) by (simp add: guard_inv_def)
  with g_section(1) assms(3) m move_others [OF g_section(2)] show ?thesis
    by (simp add: in_place_def)
next
  case (g_fault i u)
  with assms(3) fault_move [OF g_fault(2,3)] show ?thesis by (simp add: in_place_def)
qed

interpretation placed: inductive_invariant guard_init guard_step "\<lambda>s. guard_inv s \<and> in_place s"
  using guard.inv_init guard.inv_step in_place_step
  by unfold_locales (auto simp: in_place_def guard_init_def sys_init_def)

text \<open>While somebody is inside, nobody else ends a section as a writer.\<close>

lemma still_step:
  assumes "guard_step s t" and "guard_inv s" and "in_place s" and "i < length (pool (core s))"
    and "pcs (gate s) ! i = x" and "pcs (gate t) ! i = x" and "x \<in> {Reading, Writing}"
  shows "pool (core t) ! i = pool (core s) ! i \<and> list_view (clients (srv (core t))) = list_view (clients (srv (core s)))"
proof -
  have inv: "rw_inv (gate s)" "length (pcs (gate s)) = length (pool (core s))"
    using assms(2) by (simp_all add: guard_inv_def)
  have sec: "section_of (pool (core s) ! i) \<noteq> Free"
    using assms(3-5,7) by (auto simp: in_place_def)
  from assms(1) show ?thesis
  proof (cases rule: guard_step.cases)
    case (g_dispatch cmd "from")
    then show ?thesis using assms(4) by (simp add: dispatched_def nth_append)
  next
    case (g_free j u)
    then have "j \<noteq> i" using sec by auto
    with move_others [OF g_free(3)] move_view [OF g_free(3)] g_free(1,2) show ?thesis by simp
  next
    case (g_section j u g)
    have j: "j < length (pcs (gate s))" using thread_move_pool [OF g_section(2)] inv(2) by simp
    have ne: "j \<noteq> i" "pcs (gate s) ! j = inside (section_of (pool (core s) ! j))"
      using leave_inside [OF g_section(4), of i x] g_section(1,4) assms(4,6,7) inv(2)
      by (auto simp: inside_def elim: rw_leave_cases)
    have "section_of (pool (core s) ! j) \<noteq> Writer"
      using writer_alone [OF inv(1) j, of i] ne assms(4,5,7) inv(2) by (auto simp: inside_def)
    with move_others [OF g_section(2)] move_view [OF g_section(2)] g_section(1) ne(1) show ?thesis by simp
  next
    case (g_fault j u)
    then show ?thesis using fault_move [OF g_fault(2,3)] by simp
  qed simp
qed

text \<open>
  C18. A thread inside a section has the list to itself. From the moment it has checked in, as a reader or
  as a writer, until it checks out, and whatever the other threads do meanwhile under any schedule,
  the head, the tail, the set of nodes and every name, address and pointer in them stay as they
  are; nobody but the thread itself can change them. The dispatcher and the manager's ping, which do
  not use the monitor, change only time stamps. It is therefore the same whether the
  section's accesses to these are made one by one or in one step.
\<close>

theorem sections_see_a_still_list:
  assumes "reach guard_init guard_step s" and "i < length (pool (core s))"
    and "pcs (gate s) ! i \<in> {Reading, Writing}"
    and "(\<lambda>u v. guard_step u v \<and> pcs (gate v) ! i = pcs (gate s) ! i)\<^sup>*\<^sup>* s t"
  shows "pool (core t) ! i = pool (core s) ! i \<and>
    list_view (clients (srv (core t))) = list_view (clients (srv (core s)))"
proof -
  let ?x = "pcs (gate s) ! i"
  from assms(4) have "guard_inv t \<and> in_place t \<and> i < length (pool (core t)) \<and> pcs (gate t) ! i = ?x \<and>
    pool (core t) ! i = pool (core s) ! i \<and> list_view (clients (srv (core t))) = list_view (clients (srv (core s)))"
  proof (induction rule: rtranclp_induct)
    case base
    then show ?case using placed.reach_inv [OF assms(1)] assms(2) by simp
  next
    case (step u v)
    then have u: "guard_step u v" "guard_inv u" "in_place u" "i < length (pool (core u))"
      "pcs (gate u) ! i = ?x" "pcs (gate v) ! i = ?x" by simp_all
    have "length (pool (core u)) \<le> length (pool (core v))"
      using guard_step_core [OF u(1)] by (auto elim!: sys_step_cases simp: dispatched_def dest: thread_move_pool)
    with u step.IH still_step [OF u assms(3)] guard.inv_step [OF u(1)] in_place_step [OF u(1)] show ?case by simp
  qed
  then show ?thesis by simp
qed

text \<open>The manager stands inside its scan of the empty list while a client's first request comes in.\<close>

theorem sections_see_a_still_list_witness:
  "\<exists>s t. reach guard_init guard_step s \<and> pcs (gate s) ! 0 = Reading \<and> guard_step s t \<and> length (pool (core t)) = 2 \<and>
    pool (core t) ! 0 = Manager_Sleep \<and> list_view (clients (srv (core t))) = list_view empty_store"
proof -
  let ?c = "\<lparr>srv = server_init, pool = [Manager_Sleep], sent = [], crashed = None\<rparr>"
  let ?s = "\<lparr>core = ?c, gate = rw_at 0 0 0 0 [Idle]\<rparr>" and ?t = "\<lparr>core = ?c, gate = rw_at 1 0 0 0 [Reading]\<rparr>"
  let ?cmd = "demo_cmd CONN [''ann'']"
  let ?u = "?t\<lparr>core := dispatched ?cmd (peer 1) ?c, gate := rw_at 1 0 0 0 [Reading, Idle]\<rparr>"
  have "reach guard_init guard_step ?s"
    by (rule reach_init) (simp add: guard_init_def sys_init_def rw_at_def monitor_init_def)
  moreover have "guard_step ?s ?t"
    using g_enter [of ?s 0 "rw_at 1 0 0 0 [Reading]"] r_checkin [of 0 "rw_at 0 0 0 0 [Idle]"]
    by (simp add: rw_at_def monitor_defs)
  ultimately have r: "reach guard_init guard_step ?t" by (rule reach_step)
  have g: "guard_step ?t ?u"
  proof -
    have "well_formed_command ?cmd" by (simp add: demo_cmd_def well_formed_command_def NAME_SIZE_def MAX_CMD_SIZE_def)
    from g_dispatch [OF _ _ this, of ?t "peer 1"] show ?thesis
      by (simp add: dispatcher_free_def rw_at_def dispatched_def)
  qed
  have "(\<lambda>u v. guard_step u v \<and> pcs (gate v) ! 0 = pcs (gate ?t) ! 0)\<^sup>*\<^sup>* ?t ?u"
    by (intro r_into_rtranclp conjI g) (simp add: rw_at_def)
  from sections_see_a_still_list [OF r _ _ this] r g show ?thesis
    by (intro exI [of _ ?t] exI [of _ ?u]) (simp add: rw_at_def dispatched_def server_init_def)
qed

text \<open>The threads that have been through their first section as readers and know what it told them.\<close>

fun has_read :: "hthread \<Rightarrow> bool" where
  "has_read (Sayto_Send cmd c f) = True"
| "has_read (Say_Format cmd node f) = True"
| "has_read (Say_Store line node) = True"
| "has_read (Say_Count line node) = True"
| "has_read (Say_Broadcast line node) = True"
| "has_read (Disconnect_Remove node) = True"
| "has_read (Disconnect_Reply addr) = True"
| "has_read (Kick_Refuse from) = True"
| "has_read (Kick_Remove cmd) = True"
| "has_read (Kick_Notify cmd a) = True"
| "has_read (Kick_Announce cmd) = True"
| "has_read (Manager_Ping t q) = True"
| "has_read (Manager_Notify q name) = True"
| "has_read (Manager_Remove name) = True"
| "has_read th = False"

lemma spawn_not_read [simp]: "\<not> has_read (spawn cmd from)"
  by (simp add: spawn_def split: command_kind.splits)

lemma dispatch_not_read [simp]: "\<not> has_read (dispatch_start cmd from st)"
  by (simp add: dispatch_start_def)

lemma unread_step:
  "thread_step p now th st = Some (Ok (st', th', ds)) \<Longrightarrow> \<not> has_read th \<Longrightarrow> section_of th \<noteq> Reader \<Longrightarrow> \<not> has_read th'"
  by (cases th) (auto simp: run_bind_def split: option.splits sum.splits if_splits)

lemma unread_move:
  assumes "thread_move i s t" and "section_of (pool s ! i) \<noteq> Reader" and "j < length (pool s)"
  shows "(section_of (pool s ! j) = Reader \<longrightarrow> pool t ! j = pool s ! j) \<and>
    (\<not> has_read (pool s ! j) \<longrightarrow> \<not> has_read (pool t ! j))"
  using assms(1)
proof (cases rule: thread_move.cases)
  case (move p now st th ds)
  with unread_step [OF move(6)] assms(2,3) show ?thesis by (auto simp: nth_list_update)
qed simp

definition unread_upto :: "nat \<Rightarrow> system \<Rightarrow> system \<Rightarrow> bool" where
  "unread_upto n s t \<longleftrightarrow> length (pool s) \<le> length (pool t) \<and>
     (\<forall>j < length (pool s). (section_of (pool s ! j) = Reader \<longrightarrow> pool t ! j = pool s ! j)) \<and>
     (\<forall>j. n \<le> j \<and> j < length (pool t) \<longrightarrow> \<not> has_read (pool t ! j))"

lemma starved_gate:
  assumes "rw_step g h" and "rw_inv g" and "0 < WW (mon g)" and "Reading \<notin> set (pcs g)"
  shows "0 < WW (mon h) \<and> Reading \<notin> set (pcs h)"
proof -
  have len: "length (pcs h) = length (pcs g)"
    using assms(1) by (auto elim!: rw_step_cases dest: enter_length leave_length)
  have "pcs h ! j \<noteq> Reading" if "j < length (pcs g)" for j
    using no_new_reader [OF assms(1-3) that] assms(4) that by (metis nth_mem)
  with len have "Reading \<notin> set (pcs h)" by (auto simp: in_set_conv_nth)
  with WW_step [OF assms(1)] assms(3) show ?thesis by simp
qed

lemma starved_step:
  assumes "guard_step s t" and "guard_inv s" and "0 < WW (mon (gate s))" and "Reading \<notin> set (pcs (gate s))"
    and "n \<le> length (pool (core s))" and "\<forall>j. n \<le> j \<and> j < length (pool (core s)) \<longrightarrow> \<not> has_read (pool (core s) ! j)"
  shows "0 < WW (mon (gate t)) \<and> Reading \<notin> set (pcs (gate t)) \<and> unread_upto n (core s) (core t)"
  using assms(1)
proof (cases rule: guard_step.cases)
  case (g_dispatch cmd "from")
  with assms show ?thesis by (auto simp: unread_upto_def nth_append)
next
  case (g_enter i g)
  with starved_gate [OF rw_enters [OF g_enter(4)]] assms show ?thesis
    by (auto simp: guard_inv_def unread_upto_def)
next
  case (g_free i u)
  with unread_move [OF g_free(3)] thread_move_pool [OF g_free(3)] assms show ?thesis
    by (auto simp: unread_upto_def)
next
  case (g_section i u g)
  have "section_of (pool (core s) ! i) \<noteq> Reader"
    using g_section(4) assms(4) by (auto elim!: rw_leave_cases dest: nth_mem)
  with unread_move [OF g_section(2)] thread_move_pool [OF g_section(2)] starved_gate [OF rw_leaves [OF g_section(4)]]
    g_section(1) assms show ?thesis
    by (auto simp: guard_inv_def unread_upto_def)
next
  case (g_fault i u)
  then have "section_of (pool (core s) ! i) \<noteq> Reader"
    using thread_move_pool [OF g_fault(2)] assms(2,4)
    by (auto simp: inside_def guard_inv_def in_set_conv_nth)
  with unread_move [OF g_fault(2)] thread_move_pool [OF g_fault(2)] g_fault(1) assms show ?thesis
    by (auto simp: unread_upto_def)
qed

lemma starved_steps:
  assumes "guard_step\<^sup>*\<^sup>* s t" and "guard_inv s" and "0 < WW (mon (gate s))" and "Reading \<notin> set (pcs (gate s))"
  shows "guard_inv t \<and> 0 < WW (mon (gate t)) \<and> Reading \<notin> set (pcs (gate t)) \<and>
    unread_upto (length (pool (core s))) (core s) (core t)"
  using assms(1)
proof (induction rule: rtranclp_induct)
  case base
  from assms(2-4) show ?case by (auto simp: unread_upto_def)
next
  case (step u v)
  then show ?case
    using starved_step [OF step(2), of "length (pool (core s))"] guard.inv_step [OF step(2)]
    by (auto simp: unread_upto_def)
qed

text \<open>
  C17. One collision silences the server for good. Once a writer has had to wait, and the readers
  inside at that time have left, no thread is ever in a read section again: every thread that was in
  front of one, the connection manager included, stands there for ever, and no request that arrives
  later gets past its first look at the list, so nothing anybody says, sends privately, kicks or
  disconnects is ever carried out, under any schedule.
\<close>

theorem collision_silences_server:
  assumes "reach guard_init guard_step s" and "0 < WW (mon (gate s))" and "Reading \<notin> set (pcs (gate s))"
    and "guard_step\<^sup>*\<^sup>* s t"
  shows "Reading \<notin> set (pcs (gate t)) \<and>
    (\<forall>i < length (pool (core s)). section_of (pool (core s) ! i) = Reader \<longrightarrow> pool (core t) ! i = pool (core s) ! i) \<and>
    (\<forall>i. length (pool (core s)) \<le> i \<and> i < length (pool (core t)) \<longrightarrow> \<not> has_read (pool (core t) ! i))"
  using starved_steps [OF assms(4) guard.reach_inv [OF assms(1)] assms(2,3)]
  by (simp add: unread_upto_def)

text \<open>
  The collision takes one client and one unlucky moment: the first client connects while the
  connection manager makes its scan of the empty list.
\<close>

definition guard_at :: "server \<Rightarrow> hthread list \<Rightarrow> rw_system \<Rightarrow> guarded_server" where
  "guard_at st ths g = \<lparr>core = \<lparr>srv = st, pool = ths, sent = [], crashed = None\<rparr>, gate = g\<rparr>"

lemma collision_run:
  fixes cmd a defines "cmd \<equiv> demo_cmd CONN [''ann'']" and "a \<equiv> peer 1"
  shows "\<exists>st. server_rep st \<lparr>members = [new_client (peer 1) ''ann'' 1], log = []\<rparr> \<and>
    reach guard_init guard_step (guard_at st [Manager_Sleep, Connect_Reply cmd a] (rw_at 0 0 0 1 [Idle, Idle]))"
proof -
  let ?s = "guard_at server_init"
  have full: "well_formed_command cmd" "kind cmd = CONN"
    by (simp_all add: cmd_def demo_cmd_def well_formed_command_def NAME_SIZE_def MAX_CMD_SIZE_def)
  have 0: "reach guard_init guard_step (?s [Manager_Sleep] (rw_at 0 0 0 0 [Idle]))"
    by (rule reach_init) (simp add: guard_init_def guard_at_def sys_init_def rw_at_def monitor_init_def)
  have "rw_enter Reader 0 (rw_at 0 0 0 0 [Idle]) (rw_at 1 0 0 0 [Reading])"
    using r_checkin [of 0 "rw_at 0 0 0 0 [Idle]"] by (simp add: rw_at_def monitor_defs)
  then have 1: "guard_step (?s [Manager_Sleep] (rw_at 0 0 0 0 [Idle])) (?s [Manager_Sleep] (rw_at 1 0 0 0 [Reading]))"
    using g_enter [of "?s [Manager_Sleep] (rw_at 0 0 0 0 [Idle])" 0] by (simp add: guard_at_def)
  have 2: "guard_step (?s [Manager_Sleep] (rw_at 1 0 0 0 [Reading]))
      (?s [Manager_Sleep, Connect_Add cmd a] (rw_at 1 0 0 0 [Reading, Idle]))"
    using g_dispatch [of "?s [Manager_Sleep] (rw_at 1 0 0 0 [Reading])" cmd a] full
    by (simp add: guard_at_def rw_at_def dispatched_def dispatch_start_def dispatcher_free_def spawn_def)
  have 3: "guard_step (?s [Manager_Sleep, Connect_Add cmd a] (rw_at 1 0 0 0 [Reading, Idle]))
      (?s [Manager_Sleep, Connect_Add cmd a] (rw_at 1 0 0 1 [Reading, W_Sleep]))"
    using g_enter [of "?s [Manager_Sleep, Connect_Add cmd a] (rw_at 1 0 0 0 [Reading, Idle])" 1] rw_run(3)
    by (simp add: guard_at_def)
  have "thread_move 0 (core (?s [Manager_Sleep, Connect_Add cmd a] g)) (core (?s [Manager_Sleep, Connect_Add cmd a] g'))" for g g'
    using move [of "core (?s [Manager_Sleep, Connect_Add cmd a] g)" 0 8 0 server_init Manager_Sleep "[]"]
    by (simp add: guard_at_def server_init_def empty_store_def cm_scan.simps)
  then have 4: "guard_step (?s [Manager_Sleep, Connect_Add cmd a] (rw_at 1 0 0 1 [Reading, W_Sleep]))
      (?s [Manager_Sleep, Connect_Add cmd a] (rw_at 0 0 0 1 [Idle, W_Woken]))"
    using g_section [of 0 "?s [Manager_Sleep, Connect_Add cmd a] (rw_at 1 0 0 1 [Reading, W_Sleep])"] rw_run(4)
    by (simp add: guard_at_def)
  have 5: "guard_step (?s [Manager_Sleep, Connect_Add cmd a] (rw_at 0 0 0 1 [Idle, W_Woken]))
      (?s [Manager_Sleep, Connect_Add cmd a] (rw_at 0 0 1 1 [Idle, Writing]))"
    using g_enter [of "?s [Manager_Sleep, Connect_Add cmd a] (rw_at 0 0 0 1 [Idle, W_Woken])" 1] rw_run(5)
    by (simp add: guard_at_def)
  obtain s' where s': "add_client_to_list 8 1 (clients server_init) a ''ann'' = Ok s'"
    "represents s' [8] [new_client a ''ann'' 1]"
    using add_represents [OF represents_empty, of 8 1 a "''ann''"] by (auto simp: server_init_def empty_store_def new_client_def)
  have "thread_move 1 (core (?s [Manager_Sleep, Connect_Add cmd a] g))
      (core (guard_at (server_init\<lparr>clients := s'\<rparr>) [Manager_Sleep, Connect_Reply cmd a] g'))" for g g'
    using move [of "core (?s [Manager_Sleep, Connect_Add cmd a] g)" 1 8 1 "server_init\<lparr>clients := s'\<rparr>" "Connect_Reply cmd a" "[]"]
      s'(1) by (simp add: guard_at_def connect_add_def cmd_def arg_def demo_cmd_def) (simp add: server_init_def empty_store_def)
  then have 6: "guard_step (?s [Manager_Sleep, Connect_Add cmd a] (rw_at 0 0 1 1 [Idle, Writing]))
      (guard_at (server_init\<lparr>clients := s'\<rparr>) [Manager_Sleep, Connect_Reply cmd a] (rw_at 0 0 0 1 [Idle, Idle]))"
    using g_section [of 1 "?s [Manager_Sleep, Connect_Add cmd a] (rw_at 0 0 1 1 [Idle, Writing])"] rw_run(6)
    by (simp add: guard_at_def)
  have "server_rep (server_init\<lparr>clients := s'\<rparr>) \<lparr>members = [new_client (peer 1) ''ann'' 1], log = []\<rparr>"
    using s'(2) by (auto simp: server_rep_def server_init_def a_def)
  moreover have "reach guard_init guard_step
      (guard_at (server_init\<lparr>clients := s'\<rparr>) [Manager_Sleep, Connect_Reply cmd a] (rw_at 0 0 0 1 [Idle, Idle]))"
    by (rule reach_step [OF reach_step [OF reach_step [OF reach_step [OF reach_step [OF reach_step [OF 0 1] 2] 3] 4] 5] 6])
  ultimately show ?thesis by blast
qed

theorem collision_silences_server_witness:
  "\<exists>s. reach guard_init guard_step s \<and> crashed (core s) = None \<and> set (pcs (gate s)) = {Idle} \<and>
    server_rep (srv (core s)) \<lparr>members = [new_client (peer 1) ''ann'' 1], log = []\<rparr> \<and>
    (\<forall>t. guard_step\<^sup>*\<^sup>* s t \<longrightarrow> pool (core t) ! 0 = Manager_Sleep \<and>
      (\<forall>i. 2 \<le> i \<and> i < length (pool (core t)) \<longrightarrow> \<not> has_read (pool (core t) ! i)))"
proof -
  obtain st where st: "server_rep st \<lparr>members = [new_client (peer 1) ''ann'' 1], log = []\<rparr>"
    "reach guard_init guard_step (guard_at st [Manager_Sleep, Connect_Reply (demo_cmd CONN [''ann'']) (peer 1)]
       (rw_at 0 0 0 1 [Idle, Idle]))"
    using collision_run by blast
  have "pool (core t) ! 0 = Manager_Sleep \<and> (\<forall>i. 2 \<le> i \<and> i < length (pool (core t)) \<longrightarrow> \<not> has_read (pool (core t) ! i))"
    if "guard_step\<^sup>*\<^sup>* (guard_at st [Manager_Sleep, Connect_Reply (demo_cmd CONN [''ann'']) (peer 1)] (rw_at 0 0 0 1 [Idle, Idle])) t" for t
    using collision_silences_server [OF st(2) _ _ that] by (auto simp: guard_at_def rw_at_def)
  with st show ?thesis
    by (intro exI [of _ "guard_at st [Manager_Sleep, Connect_Reply (demo_cmd CONN [''ann'']) (peer 1)] (rw_at 0 0 0 1 [Idle, Idle])"])
       (simp add: guard_at_def rw_at_def)
qed

end
