(* ===== verification/Client_Waits.thy ===== *)
theory Client_Waits
  imports Client_Threads
begin

text \<open>
  The condition variables of the client: the input threads are never locked out although both
  wait for one condition that is signalled to one of them, a signal to the display is lost while it
  does not wait, and the thread that reads the keyboard need not be the one of the connection state.
\<close>

section \<open>The input threads\<close>

abbreviation tests :: "input_pc \<Rightarrow> input_pc \<Rightarrow> bool" where
  "tests x y \<equiv> input_test True x = Some y"

lemma input_reads: "x \<noteq> Input_Waiting \<Longrightarrow> tests\<^sup>*\<^sup>* x Input_Reading"
proof -
  assume x: "x \<noteq> Input_Waiting"
  have r: "tests\<^sup>*\<^sup>* Input_Recheck Input_Reading" by (rule r_into_rtranclp) simp
  with converse_rtranclp_into_rtranclp [of tests x Input_Recheck Input_Reading] x show ?thesis
    by (cases x) simp_all
qed

lemma pre_tests:
  assumes "tests\<^sup>*\<^sup>* x y" and "running s" and "\<not> connected (cli (view s))"
    and "pre_at (waits_at s) = x"
  shows "(client_act None)\<^sup>*\<^sup>* s (s\<lparr>waits_at := (waits_at s)\<lparr>pre_at := y\<rparr>\<rparr>)"
  using assms(1)
proof (induction rule: rtranclp_induct)
  case base
  with assms(4) show ?case by (cases s; cases "waits_at s") auto
next
  case (step y z)
  from pre_test [of "s\<lparr>waits_at := (waits_at s)\<lparr>pre_at := y\<rparr>\<rparr>" z] step(2) assms(2,3)
  have "client_act None (s\<lparr>waits_at := (waits_at s)\<lparr>pre_at := y\<rparr>\<rparr>) (s\<lparr>waits_at := (waits_at s)\<lparr>pre_at := z\<rparr>\<rparr>)"
    by (simp add: pre_connection_awake_def)
  with step(3) show ?case by (rule rtranclp.rtrancl_into_rtrancl)
qed

lemma post_tests:
  assumes "tests\<^sup>*\<^sup>* x y" and "running s" and "connected (cli (view s))"
    and "post_at (waits_at s) = x"
  shows "(client_act None)\<^sup>*\<^sup>* s (s\<lparr>waits_at := (waits_at s)\<lparr>post_at := y\<rparr>\<rparr>)"
  using assms(1)
proof (induction rule: rtranclp_induct)
  case base
  with assms(4) show ?case by (cases s; cases "waits_at s") auto
next
  case (step y z)
  from post_test [of "s\<lparr>waits_at := (waits_at s)\<lparr>post_at := y\<rparr>\<rparr>" z] step(2) assms(2,3)
  have "client_act None (s\<lparr>waits_at := (waits_at s)\<lparr>post_at := y\<rparr>\<rparr>) (s\<lparr>waits_at := (waits_at s)\<lparr>post_at := z\<rparr>\<rparr>)"
    by (simp add: user_input_awake_def)
  with step(3) show ?case by (rule rtranclp.rtrancl_into_rtrancl)
qed

lemma keyboard_reached:
  assumes "client_inv s" and "running s"
  shows "connected (cli (view s)) \<Longrightarrow> post_at (waits_at s) \<noteq> Input_Waiting \<and>
      (client_act None)\<^sup>*\<^sup>* s (s\<lparr>waits_at := (waits_at s)\<lparr>post_at := Input_Reading\<rparr>\<rparr>)"
    and "\<not> connected (cli (view s)) \<Longrightarrow> pre_at (waits_at s) \<noteq> Input_Waiting \<and>
      (client_act None)\<^sup>*\<^sup>* s (s\<lparr>waits_at := (waits_at s)\<lparr>pre_at := Input_Reading\<rparr>\<rparr>)"
proof -
  have w: "pre_at (waits_at s) = Input_Waiting \<Longrightarrow> connected (cli (view s))"
    "post_at (waits_at s) = Input_Waiting \<Longrightarrow> \<not> connected (cli (view s))"
    using assms(1) by (auto simp: client_inv_def)
  show "post_at (waits_at s) \<noteq> Input_Waiting \<and>
      (client_act None)\<^sup>*\<^sup>* s (s\<lparr>waits_at := (waits_at s)\<lparr>post_at := Input_Reading\<rparr>\<rparr>)" if "connected (cli (view s))"
    using w(2) post_tests [OF input_reads assms(2) that refl] that by blast
  show "pre_at (waits_at s) \<noteq> Input_Waiting \<and>
      (client_act None)\<^sup>*\<^sup>* s (s\<lparr>waits_at := (waits_at s)\<lparr>pre_at := Input_Reading\<rparr>\<rparr>)" if "\<not> connected (cli (view s))"
    using w(1) pre_tests [OF input_reads assms(2) that refl] that by blast
qed

text \<open>
  C22. The keyboard is never dead. Both input threads wait for the same condition, each change of the
  connection state wakes only one of them, and both may be on their way when it changes again; yet in
  every reachable state of a running client the thread whose state it is does not sleep, and gets to
  its \<open>fgets\<close> by its own tests, without a further signal or step of any other thread.
\<close>

theorem input_never_locked_out:
  assumes "reach client_init client_step s" and "running s"
  shows "if connected (cli (view s))
    then post_at (waits_at s) \<noteq> Input_Waiting \<and> client_step\<^sup>*\<^sup>* s (s\<lparr>waits_at := (waits_at s)\<lparr>post_at := Input_Reading\<rparr>\<rparr>)
    else pre_at (waits_at s) \<noteq> Input_Waiting \<and> client_step\<^sup>*\<^sup>* s (s\<lparr>waits_at := (waits_at s)\<lparr>pre_at := Input_Reading\<rparr>\<rparr>)"
  using keyboard_reached [OF client_proc.reach_inv [OF assms(1)] assms(2)] own_acts [of client_act] by auto

lemma idle_client_disconnected [simp]: "\<not> connected (cli (view idle_client))"
  by (simp add: idle_client_def Let_def setup_client_def)

theorem input_never_locked_out_witness:
  "client_step\<^sup>*\<^sup>* idle_client (idle_client\<lparr>waits_at := waits_init\<lparr>pre_at := Input_Reading\<rparr>\<rparr>)"
  using input_never_locked_out [OF idle_client_reach] by simp

section \<open>The wrong thread at the keyboard\<close>

text \<open>
  C31. The thread of the unconnected state can still be reading when the connection comes. It tests
  the state again for a line it forwards, but not for \<open>:q\<close>: from every reachable state in which that
  thread reads the keyboard and the client is connected, \<open>:q\<close> ends the client without a \<open>disconn$\<close>,
  so the server goes on sending to it.
\<close>

theorem quit_without_disconnect:
  assumes "reach client_init client_step s" and "running s" and "connected (cli (view s))"
    and "pre_at (waits_at s) = Input_Reading"
  shows "\<exists>t. client_step s t \<and> \<not> running t \<and> outbox t = outbox s @ leave_screen \<and> (\<forall>d. Send d \<notin> set leave_screen)"
proof -
  have i: "user_input_pre_connection (\<lambda>_. None) 0 (\<lambda>_. 0) (Some '':q'') (cli (view s)) = (cli (view s), leave_screen)"
    by (simp add: user_input_pre_connection_def strip_newline_def)
  from some_actI [of client_act, OF type_pre [OF assms(2,4) _ i]] have
    "client_step s (s\<lparr>view := (view s)\<lparr>cli := cli (view s)\<rparr>, outbox := outbox s @ leave_screen,
       waits_at := (waits_at s)\<lparr>pre_at := Input_Check\<rparr>\<rparr>)" by (simp add: MAX_LEN_def)
  then show ?thesis by (intro exI conjI) (assumption, simp_all add: running_def leave_screen_def)
qed

text \<open>The connection comes while that thread reads.\<close>

lemma connected_while_reading:
  "\<exists>s. reach client_init client_step s \<and> running s \<and> connected (cli (view s)) \<and> pre_at (waits_at s) = Input_Reading"
proof -
  let ?s = "idle_client\<lparr>waits_at := waits_init\<lparr>pre_at := Input_Reading\<rparr>\<rparr>"
  have 1: "client_step\<^sup>*\<^sup>* idle_client ?s"
    using own_acts [of client_act, OF pre_tests [OF input_reads [of Input_Check], of idle_client]] by (simp add: waits_init_def)
  have w: "take 49 (words_of (remove1 DOLLAR ''connsuccess$ eve'')) = [''connsuccess'', ''eve'']"
    by (simp add: words_of.simps)
  have c: "command_handler demo_junk (Some [''connsuccess'', ''eve'']) =
      \<lparr>kind = CONN_SUCCESS, args = ''eve'' # replicate (MAX_CMD_SIZE - 1) ''''\<rparr>"
    by (simp add: command_handler_closed NAME_SIZE_def kind_of_token_def MAX_CMD_SIZE_def)
  let ?v = "(view ?s)\<lparr>cli := (cli (view ?s))\<lparr>responder_addr := zero_addr\<rparr>\<rparr>"
  obtain v out where h: "handle_cli_side_cmd demo_junk [''connsuccess'', ''eve''] ?v = Ok (v, out)" "connected (cli v)"
    by (auto simp: handle_cli_side_cmd_def c execute_server_command_def execute_connect_response_def strcpy_def
        NAME_SIZE_def)
  from client_obeys_any_sender [OF reach_trans [OF 1 idle_client_reach], of "''connsuccess$ eve''" demo_junk zero_addr] h
  obtain t where "client_step\<^sup>*\<^sup>* ?s t" "view t = v" "running t" "woken_only (waits_at ?s) (waits_at t)"
    unfolding w by auto
  with h(2) reach_trans [OF _ reach_trans [OF 1 idle_client_reach]] show ?thesis
    by (intro exI [of _ t]) (auto simp: woken_only_def input_woken_def)
qed

theorem quit_without_disconnect_witness:
  "\<exists>s t. reach client_init client_step s \<and> connected (cli (view s)) \<and> client_step s t \<and> \<not> running t \<and>
     outbox t = outbox s @ leave_screen"
  using connected_while_reading quit_without_disconnect by blast

section \<open>The display\<close>

text \<open>
  C32. A signal to the display is lost while it is between two redraws, because it waits without
  testing whether there is something new. From every reachable state of a running client in which the
  display is there, nothing is queued and a line still fits, an execution exists in which a line arrives and is
  recorded, and the display goes to sleep with its screen as it was: the line stays unseen until
  something else happens.
\<close>

theorem lost_redraw:
  assumes "reach client_init client_step s" and "running s" and "\<not> messages_mutex s"
    and "q_contents (response_queue s) = []" and "display_at (waits_at s) = Display_Outside"
    and "message_count (view s) < 100"
    and "\<forall>w \<in> set ws. is_word w \<and> length w < 20" and "length ws \<le> 48" and "length (unwords ws) < 300"
  shows "\<exists>t. client_step\<^sup>*\<^sup>* s t \<and> running t \<and> display_at (waits_at t) = Display_Waiting \<and> screen t = screen s
    \<and> message_count (view t) = message_count (view s) + 1 \<and> messages (view t) ! message_count (view s) = unwords ws
    \<and> q_contents (response_queue t) = []"
proof -
  note inv = client_proc.reach_inv [OF assms(1)]
  let ?v = "(view s)\<lparr>cli := (cli (view s))\<lparr>responder_addr := zero_addr\<rparr>\<rparr>"
  obtain q b where d: "reacts client_act (Received zero_addr ((''say$ '' @ unwords ws) @ [NUL])) s (s\<lparr>view := ?v, response_queue := q,
      response_buffer := b, handlers := handlers s @ [Parse (''say'' # ws)]\<rparr>)" "q_contents q = []"
    by (rule deliver_text [OF inv assms(2,4), of "''say$ '' @ unwords ws" zero_addr])
       (use no_nul_unwords [OF assms(7)] assms(7-9) text_command(1) [OF assms(7,8), of "''say''" demo_junk] in simp_all)
  let ?s1 = "s\<lparr>view := ?v, response_queue := q, response_buffer := b, handlers := handlers s @ [Parse (''say'' # ws)]\<rparr>"
  note s1 = reacts_acts [of client_act, OF d(1)] d(2)
  let ?v1 = "?v\<lparr>messages := (messages (view s))[message_count (view s) := unwords ws], message_count := message_count (view s) + 1\<rparr>"
  have m: "length (messages (view s)) = 100" using inv by (simp add: client_inv_def chat_inv_def MAX_MSGS_def)
  have "handle_cli_side_cmd demo_junk (''say'' # ws) (view ?s1) = Ok (?v1, [])"
    using say_handled [OF assms(7-9), of demo_junk "view ?s1"] assms(6) m say_command(1) [OF assms(7,8)] by simp
  with handler_steps [of ?s1 "handlers s" "''say'' # ws" demo_junk] assms(2,3) obtain r w where
    s2: "client_step\<^sup>*\<^sup>* ?s1 (?s1\<lparr>view := ?v1, join_result := r, messages_mutex := False,
      handlers := handlers s @ [Finished], waits_at := w, screen := screen s\<rparr>)" "woken_only (waits_at s) w"
    by auto
  let ?s2 = "?s1\<lparr>view := ?v1, join_result := r, messages_mutex := False, handlers := handlers s @ [Finished],
      waits_at := w, screen := screen s\<rparr>"
  have s3: "client_step ?s2 (?s2\<lparr>waits_at := w\<lparr>display_at := Display_Waiting\<rparr>\<rparr>)"
    using display_wait [of ?s2] assms(2,5) s2(2) by (auto simp: woken_only_def)
  have "client_step\<^sup>*\<^sup>* s (?s2\<lparr>waits_at := w\<lparr>display_at := Display_Waiting\<rparr>\<rparr>)"
    using rtranclp_trans [OF s1(1) s2(1)] s3 by (rule rtranclp.rtrancl_into_rtrancl)
  then show ?thesis
    by (intro exI conjI) (assumption, use assms(2,6) s1(2) m in simp_all)
qed

theorem lost_redraw_witness:
  "\<exists>t. client_step\<^sup>*\<^sup>* idle_client t \<and> display_at (waits_at t) = Display_Waiting \<and> screen t = screen idle_client
    \<and> message_count (view t) = 1 \<and> messages (view t) ! 0 = ''bob: hi''"
  using lost_redraw [OF idle_client_reach, of "[''bob:'', ''hi'']"]
  by (auto simp: waits_init_def is_word_def)

end
