(* ===== verification/World.thy ===== *)
theory World
  imports Server_Session Client_Waits
begin

text \<open>
  The server process, any number of client processes and the network between them: nothing is
  received that was not sent.
\<close>

section \<open>The network\<close>

text \<open>
  UDP: a datagram that was sent may be lost, or arrive any number of times and in any order; the
  bytes behind its NUL are what the sender's buffer held. The server sits at the address \<open>S\<close> that
  the clients write to. A client has the address of its socket, which it never closes; before it
  has opened one it neither sends nor receives.
\<close>

record world =
  host :: process
  clients_at :: "sockaddr_in \<rightharpoonup> client_process"
  in_flight :: "(sockaddr_in \<times> datagram) list"

fun sends :: "ui_action list \<Rightarrow> datagram list" where
  "sends [] = []"
| "sends (Send d # acts) = d # sends acts"
| "sends (act # acts) = sends acts"

definition new_posts :: "client_process \<Rightarrow> client_process \<Rightarrow> datagram list" where
  "new_posts c c' = (if sd (cli (view c')) = 0 then [] else sends (drop (length (outbox c)) (outbox c')))"

definition new_replies :: "process \<Rightarrow> process \<Rightarrow> datagram list" where
  "new_replies s t = drop (length (sent (sys s))) (sent (sys t))"

inductive world_step :: "sockaddr_in \<Rightarrow> world \<Rightarrow> world \<Rightarrow> bool" for S where
  host_acts: "process_act None (host w) p \<Longrightarrow>
     world_step S w (w\<lparr>host := p, in_flight := in_flight w @ map (Pair S) (new_replies (host w) p)\<rparr>)"
| host_hears: "(a, d) \<in> set (in_flight w) \<Longrightarrow> to_addr d = S \<Longrightarrow>
     process_act (Some (Received a (wire junk d))) (host w) p \<Longrightarrow> world_step S w (w\<lparr>host := p\<rparr>)"
| host_error: "process_act (Some Recv_Error) (host w) p \<Longrightarrow> world_step S w (w\<lparr>host := p\<rparr>)"
| client_acts: "clients_at w a = Some c \<Longrightarrow> client_act None c c' \<Longrightarrow>
     world_step S w (w\<lparr>clients_at := (clients_at w)(a \<mapsto> c'),
       in_flight := in_flight w @ map (Pair a) (new_posts c c')\<rparr>)"
| client_hears: "clients_at w a = Some c \<Longrightarrow> sd (cli (view c)) \<noteq> 0 \<Longrightarrow> (b, d) \<in> set (in_flight w) \<Longrightarrow> to_addr d = a \<Longrightarrow>
     client_act (Some (Received b (wire junk d))) c c' \<Longrightarrow> world_step S w (w\<lparr>clients_at := (clients_at w)(a \<mapsto> c')\<rparr>)"
| client_error: "clients_at w a = Some c \<Longrightarrow> client_act (Some Recv_Error) c c' \<Longrightarrow>
     world_step S w (w\<lparr>clients_at := (clients_at w)(a \<mapsto> c')\<rparr>)"

definition world_init :: "world \<Rightarrow> bool" where
  "world_init w \<longleftrightarrow> process_init (host w) \<and> (\<forall>a c. clients_at w a = Some c \<longrightarrow> client_init c) \<and> in_flight w = []"

text \<open>What is reachable in the world is reachable in each process.\<close>

definition ends_reached :: "world \<Rightarrow> bool" where
  "ends_reached w \<longleftrightarrow> reach process_init process_step (host w) \<and>
     (\<forall>a c. clients_at w a = Some c \<longrightarrow> reach client_init client_step c)"

interpretation ends: inductive_invariant world_init "world_step S" ends_reached
proof unfold_locales
  fix w w'
  show "world_init w \<Longrightarrow> ends_reached w" by (auto simp: world_init_def ends_reached_def intro: reach_init)
  assume "ends_reached w"
  note reached = this [unfolded ends_reached_def]
  assume "world_step S w w'"
  then show "ends_reached w'"
    by (cases rule: world_step.cases)
       (use reached in \<open>auto simp: ends_reached_def split: if_splits intro: reach_act [of _ process_act] reach_act [of _ client_act]\<close>)
qed

section \<open>Only texts are sent\<close>

text \<open>A text with its NUL that the receiver's buffer can hold.\<close>

definition post_ok :: "datagram \<Rightarrow> bool" where
  "post_ok d \<longleftrightarrow> terminated d \<and> length (payload d) < BUFFER_SIZE"

lemma datagram_ok_post: "datagram_ok d \<Longrightarrow> post_ok d"
  by (simp add: datagram_ok_def post_ok_def terminated_def)

definition posts_ok :: "ui_action list \<Rightarrow> bool" where
  "posts_ok acts \<longleftrightarrow> (\<forall>d. Send d \<in> set acts \<longrightarrow> post_ok d)"

lemma posts_ok_simps [simp]:
  "posts_ok []" "posts_ok (xs @ ys) \<longleftrightarrow> posts_ok xs \<and> posts_ok ys" "posts_ok leave_screen"
  "posts_ok (act # acts) \<longleftrightarrow> (\<forall>d. act = Send d \<longrightarrow> post_ok d) \<and> posts_ok acts"
  by (auto simp: posts_ok_def leave_screen_def)

lemma send_text_ok: "no_nul t \<Longrightarrow> length t < BUFFER_SIZE \<Longrightarrow> send_text c t = Send d \<Longrightarrow> post_ok d"
  by (auto simp: send_text_def post_ok_def)

lemma stripped:
  assumes "no_nul raw" and "length raw < MAX_LEN"
  shows "no_nul (strip_newline raw)" and "length (strip_newline raw) < BUFFER_SIZE"
proof -
  show "no_nul (strip_newline raw)" using assms(1) by (auto simp: strip_newline_def no_nul_def dest: set_takeWhileD)
  show "length (strip_newline raw) < BUFFER_SIZE"
    using assms(2) length_takeWhile_le [of "\<lambda>c. c \<noteq> NL" raw] by (simp add: strip_newline_def MAX_LEN_def BUFFER_SIZE_def)
qed

lemma input_posts_ok:
  assumes "case fgets of None \<Rightarrow> True | Some raw \<Rightarrow> no_nul raw \<and> length raw < MAX_LEN"
  shows "posts_ok (user_input fgets c)"
    and "user_input_pre_connection inet_pton sock bound fgets c = (c', acts) \<Longrightarrow> posts_ok acts"
proof -
  have r: "no_nul (strip_newline raw) \<and> length (strip_newline raw) < BUFFER_SIZE" if "fgets = Some raw" for raw
    using assms that stripped by simp
  have n: "post_ok d" if "no_nul t" "send_text c1 (snprintf BUFFER_SIZE (''conn$ '' @ drop 6 t)) = Send d" for t c1 d
  proof (rule send_text_ok [OF _ _ that(2)])
    show "no_nul (snprintf BUFFER_SIZE (''conn$ '' @ drop 6 t))" "length (snprintf BUFFER_SIZE (''conn$ '' @ drop 6 t)) < BUFFER_SIZE"
      using that(1) by (auto simp: snprintf_def no_nul_def BUFFER_SIZE_def dest: in_set_takeD in_set_dropD)
  qed
  have d: "send_text c ''disconn$'' = Send d \<Longrightarrow> post_ok d" for d
    by (rule send_text_ok [of "''disconn$''"]) (simp_all add: BUFFER_SIZE_def)
  show "posts_ok (user_input fgets c)"
    using r d by (auto simp: user_input_def Let_def intro: send_text_ok split: option.split)
  show "user_input_pre_connection inet_pton sock bound fgets c = (c', acts) \<Longrightarrow> posts_ok acts"
    using r n by (auto simp: user_input_pre_connection_def send_connect_request_def Let_def intro: send_text_ok
        split: option.splits if_splits)
qed

interpretation posted: inductive_invariant client_init client_step "\<lambda>s. posts_ok (outbox s)"
proof unfold_locales
  fix s t
  show "client_init s \<Longrightarrow> posts_ok (outbox s)" by (simp add: client_init_def)
  assume "client_step s t"
  then obtain l where "client_act l s t" by (rule some_actE)
  then show "posts_ok (outbox s) \<Longrightarrow> posts_ok (outbox t)"
    by (cases rule: client_act.cases) (use input_posts_ok in auto)
qed

section \<open>What is sent stays sent\<close>

lemma thread_move_sent: "thread_move i s t \<Longrightarrow> \<exists>ds. sent t = sent s @ ds"
  by (auto elim!: thread_move.cases)

lemma process_act_sent:
  assumes "process_act l s t"
  shows "sent (sys t) = sent (sys s) @ new_replies s t" and "l \<noteq> None \<Longrightarrow> sent (sys t) = sent (sys s)"
proof -
  have "\<exists>ds. sent (sys t) = sent (sys s) @ ds"
    using assms by (cases rule: process_act.cases) (auto simp: dispatched_def dest: thread_move_sent)
  then show "sent (sys t) = sent (sys s) @ new_replies s t" by (auto simp: new_replies_def)
  show "l \<noteq> None \<Longrightarrow> sent (sys t) = sent (sys s)"
    using assms by (cases rule: process_act.cases) simp_all
qed

lemma cthread_step_sd:
  "cthread_step junk th (v, r, locked) = Some (Ok ((v', r', locked'), th', out)) \<Longrightarrow>
   sd (cli v') = sd (cli v) \<and> server_addr (cli v') = server_addr (cli v)"
  by (cases th)
     (auto simp: run_bind_def mute_exec_def unmute_exec_def rename_exec_def res_bind_def execute_ping_def
       split: option.splits sum.splits if_splits command_kind.splits)

lemma input_sd:
  assumes "user_input_pre_connection f s b i c = (c', acts)" and "sd c \<noteq> 0"
  shows "sd c' = sd c"
  using assms by (auto simp: user_input_pre_connection_def Let_def split: option.splits if_splits)

lemma cli_listener_turn_sd: "cli_listener_turn ev buf c q = Some (c', q', b) \<Longrightarrow> sd c' = sd c"
  by (auto simp: cli_listener_turn_def Let_def split: prod.splits if_splits option.splits)

lemma client_act_sent:
  assumes "client_act l c c'"
  shows "\<exists>acts. outbox c' = outbox c @ acts" and "l \<noteq> None \<Longrightarrow> outbox c' = outbox c"
    and "sd (cli (view c)) \<noteq> 0 \<Longrightarrow> sd (cli (view c')) = sd (cli (view c))"
  using assms
  by (auto elim!: client_act.cases dest: cthread_step_sd cli_listener_turn_sd input_sd)

definition texts_only :: "world \<Rightarrow> bool" where
  "texts_only w \<longleftrightarrow> ends_reached w \<and> (\<forall>(a, d) \<in> set (in_flight w). post_ok d)"

lemma new_posts_ok: "posts_ok (outbox c') \<Longrightarrow> \<forall>d \<in> set (new_posts c c'). post_ok d"
proof -
  have "d \<in> set (sends acts) \<Longrightarrow> Send d \<in> set acts" for d acts
    by (induction acts rule: sends.induct) auto
  then show "posts_ok (outbox c') \<Longrightarrow> \<forall>d \<in> set (new_posts c c'). post_ok d"
    by (auto simp: posts_ok_def new_posts_def dest: in_set_dropD)
qed

lemma new_replies_ok: "reach process_init process_step p \<Longrightarrow> \<forall>d \<in> set (new_replies s p). post_ok d"
  using typed.reach_inv
  by (fastforce simp: process_typed_def system_typed_def list_all_iff new_replies_def dest: in_set_dropD datagram_ok_post)

interpretation texts: inductive_invariant world_init "world_step S" texts_only
proof unfold_locales
  fix w w'
  show "world_init w \<Longrightarrow> texts_only w" using ends.inv_init by (simp add: texts_only_def world_init_def)
  assume inv: "texts_only w" and step: "world_step S w w'"
  have ends': "ends_reached w'" using ends.inv_step [OF step] inv by (simp add: texts_only_def)
  show "texts_only w'"
    using step
  proof (cases rule: world_step.cases)
    case (host_acts p)
    with ends' inv new_replies_ok [of p "host w"] show ?thesis by (auto simp: texts_only_def ends_reached_def)
  next
    case (client_acts a c c')
    then have "clients_at w' a = Some c'" by simp
    then have "reach client_init client_step c'" using ends' unfolding ends_reached_def by blast
    from new_posts_ok [OF posted.reach_inv [OF this], of c] client_acts ends' inv show ?thesis by (auto simp: texts_only_def)
  qed (use ends' inv in \<open>auto simp: texts_only_def\<close>)
qed

text \<open>
  C10. Between these programs the missing test for the NUL does no harm. In every reachable world,
  every datagram that can be received, whoever sent it, holds its NUL among the bytes the
  receiver's buffer takes, so that neither listener ever reads behind its buffer or takes old bytes
  for a part of the message: what each of them queues is exactly the text that was sent.
\<close>

theorem only_texts_travel:
  assumes "reach world_init (world_step S) w" and "(a, d) \<in> set (in_flight w)"
  shows "cstr (wire junk d) = payload d \<and>
    (\<forall>buf q e. listener_turn (Received a (wire junk d)) buf q \<noteq> Some (Fault e)) \<and>
    (\<forall>buf q q' b. listener_turn (Received a (wire junk d)) buf q = Some (Ok (q', b)) \<longrightarrow>
       cstr b = payload d \<and> q_append q b (Some a) = Some q') \<and>
    (\<forall>buf c q c' q' b. cli_listener_turn (Received a (wire junk d)) buf c q = Some (c', q', b) \<longrightarrow>
       cstr b = payload d \<and> q_append q b None = Some q')"
proof -
  have ok: "terminated d" "length (payload d) < BUFFER_SIZE"
    using texts.reach_inv [OF assms(1)] assms(2) by (auto simp: texts_only_def post_ok_def)
  from ok have n: "NUL \<in> set (take BUFFER_SIZE (wire junk d))"
    by (auto simp: wire_def terminated_def take_Cons')
  have c: "cstr (wire junk d) = payload d" using wire_terminated [OF ok(1)] .
  have host: "\<exists>b. cstr b = payload d \<and> (\<forall>q. listener_turn (Received a (wire junk d)) buf q =
    (case q_append q b (Some a) of None \<Rightarrow> None | Some q' \<Rightarrow> Some (Ok (q', b))))" for buf
    by (rule listener_turn_packet [OF n, of a buf]) (use c in auto)
  have client: "cstr b = payload d \<and> q_append q b None = Some q'"
    if "cli_listener_turn (Received a (wire junk d)) buf c q = Some (c', q', b)" for buf c q c' q' b
  proof -
    obtain rc b1 src where r: "udp_socket_read (Received a (wire junk d)) buf BUFFER_SIZE = (rc, b1, src)" by (metis surj_pair)
    have "rc > 0" using r n by (auto simp: udp_socket_read_def Let_def BUFFER_SIZE_def)
    with that r read_exact [OF r n] c show ?thesis
      by (auto simp: cli_listener_turn_def Let_def split: option.splits)
  qed
  have "listener_turn (Received a (wire junk d)) buf q \<noteq> Some (Fault e)" for buf q e
  proof -
    obtain b where b: "listener_turn (Received a (wire junk d)) buf q =
      (case q_append q b (Some a) of None \<Rightarrow> None | Some q' \<Rightarrow> Some (Ok (q', b)))" using host [of buf] by blast
    show ?thesis unfolding b by (simp split: option.split)
  qed
  moreover have "cstr b = payload d \<and> q_append q b (Some a) = Some q'"
    if "listener_turn (Received a (wire junk d)) buf q = Some (Ok (q', b))" for buf q q' b
  proof -
    obtain b1 where b: "cstr b1 = payload d" "listener_turn (Received a (wire junk d)) buf q =
      (case q_append q b1 (Some a) of None \<Rightarrow> None | Some q' \<Rightarrow> Some (Ok (q', b1)))" using host [of buf] by blast
    from that b(1) show ?thesis unfolding b(2) by (auto split: option.splits)
  qed
  ultimately show ?thesis using c client by blast
qed

section \<open>Runs of one process\<close>

lemma host_runs:
  assumes "(process_act None)\<^sup>*\<^sup>* (host w) p"
  shows "(world_step S)\<^sup>*\<^sup>* w (w\<lparr>host := p, in_flight := in_flight w @ map (Pair S) (new_replies (host w) p)\<rparr>)"
  using assms
proof (induction rule: rtranclp_induct)
  case base
  then show ?case by (cases w) (simp add: new_replies_def)
next
  case (step u v)
  obtain ds where ds: "sent (sys u) = sent (sys (host w)) @ ds"
    using step(1) by (induction rule: rtranclp_induct) (auto dest: process_act_sent(1))
  obtain es where es: "sent (sys v) = sent (sys u) @ es" using process_act_sent(1) [OF step(2)] by blast
  have "new_replies (host w) v = new_replies (host w) u @ new_replies u v"
    by (simp add: new_replies_def ds es)
  with step(3) host_acts [of "w\<lparr>host := u, in_flight := in_flight w @ map (Pair S) (new_replies (host w) u)\<rparr>" v S] step(2)
  show ?case by (auto intro: rtranclp.rtrancl_into_rtrancl)
qed

lemma client_runs:
  assumes "(client_act None)\<^sup>*\<^sup>* c c'" and "clients_at w a = Some c" and "sd (cli (view c)) \<noteq> 0"
  shows "(world_step S)\<^sup>*\<^sup>* w (w\<lparr>clients_at := (clients_at w)(a \<mapsto> c'),
      in_flight := in_flight w @ map (Pair a) (new_posts c c')\<rparr>) \<and> sd (cli (view c')) \<noteq> 0"
  using assms(1)
proof (induction rule: rtranclp_induct)
  case base
  have "(clients_at w)(a \<mapsto> c) = clients_at w" using assms(2) by auto
  with assms(3) show ?case by (cases w) (simp add: new_posts_def)
next
  case (step u v)
  obtain acts where acts: "outbox u = outbox c @ acts"
    using step(1) by (induction rule: rtranclp_induct) (auto dest: client_act_sent(1))
  have sends_append: "sends (xs @ ys) = sends xs @ sends ys" for xs ys
    by (induction xs rule: sends.induct) simp_all
  have v: "sd (cli (view v)) \<noteq> 0" using client_act_sent(3) [OF step(2)] step(3) by simp
  have "new_posts c v = new_posts c u @ new_posts u v"
    using client_act_sent(1) [OF step(2)] acts step(3) v by (auto simp: new_posts_def sends_append)
  with client_acts [of "w\<lparr>clients_at := (clients_at w)(a \<mapsto> u), in_flight := in_flight w @ map (Pair a) (new_posts c u)\<rparr>"
      a u v S] step(2)
  have "world_step S (w\<lparr>clients_at := (clients_at w)(a \<mapsto> u), in_flight := in_flight w @ map (Pair a) (new_posts c u)\<rparr>)
      (w\<lparr>clients_at := (clients_at w)(a \<mapsto> v), in_flight := in_flight w @ map (Pair a) (new_posts c v)\<rparr>)" by simp
  with step(3) v show ?case by (blast intro: rtranclp.rtrancl_into_rtrancl)
qed

lemma host_reacts:
  assumes "reacts process_act (Received a (wire junk d)) (host w) p" and "(a, d) \<in> set (in_flight w)" and "to_addr d = S"
  shows "(world_step S)\<^sup>*\<^sup>* w (w\<lparr>host := p, in_flight := in_flight w @ map (Pair S) (new_replies (host w) p)\<rparr>)"
proof -
  obtain u where u: "process_act (Some (Received a (wire junk d))) (host w) u" "(process_act None)\<^sup>*\<^sup>* u p"
    using assms(1) by (auto simp: reacts_def)
  from process_act_sent(2) [OF u(1)] have "new_replies u p = new_replies (host w) p" by (simp add: new_replies_def)
  with host_runs [of "w\<lparr>host := u\<rparr>" p S] u(2) host_hears [OF assms(2,3) u(1)] show ?thesis
    by (auto intro: converse_rtranclp_into_rtranclp)
qed

text \<open>A client that listens and works without typing sends nothing.\<close>

lemma client_reacts:
  assumes "reacts client_act (Received b (wire junk d)) c c'" and "outbox c' = outbox c"
    and "clients_at w a = Some c" and "sd (cli (view c)) \<noteq> 0" and "(b, d) \<in> set (in_flight w)" and "to_addr d = a"
  shows "(world_step S)\<^sup>*\<^sup>* w (w\<lparr>clients_at := (clients_at w)(a \<mapsto> c')\<rparr>)"
proof -
  obtain u where u: "client_act (Some (Received b (wire junk d))) c u" "(client_act None)\<^sup>*\<^sup>* u c'"
    using assms(1) by (auto simp: reacts_def)
  let ?w = "w\<lparr>clients_at := (clients_at w)(a \<mapsto> u)\<rparr>"
  have p: "outbox u = outbox c" "sd (cli (view u)) \<noteq> 0"
    using client_act_sent(2,3) [OF u(1)] assms(4) by simp_all
  have posts: "new_posts u c' = []" using p(1) assms(2) by (simp add: new_posts_def)
  have "(world_step S)\<^sup>*\<^sup>* ?w (w\<lparr>clients_at := (clients_at w)(a \<mapsto> c')\<rparr>)"
    using client_runs [OF u(2), of ?w a S] p posts by (cases w) simp
  with client_hears [OF assms(3-6) u(1)] show ?thesis by (rule converse_rtranclp_into_rtranclp)
qed

end
