(* ===== verification/World_Chat.thy ===== *)
theory World_Chat
  imports World
begin

text \<open>
  What users at clients at rest can bring about in the world: joining, and a line for everybody.
\<close>

section \<open>What a client at rest can do\<close>

text \<open>Running, with an open socket, nothing queued and nobody recording a line.\<close>

definition ready :: "client_process \<Rightarrow> bool" where
  "ready c \<longleftrightarrow> running c \<and> sd (cli (view c)) \<noteq> 0 \<and> q_contents (response_queue c) = [] \<and> \<not> messages_mutex c"

lemma ready_executes:
  assumes "client_inv c" and "ready c" and "terminated d" and "length (payload d) < 512" and "well_formed_command junk"
    and "handle_cli_side_cmd junk (take 49 (words_of (remove1 DOLLAR (payload d))))
           ((view c)\<lparr>cli := (cli (view c))\<lparr>responder_addr := b\<rparr>\<rparr>) = Ok (v, out)"
  shows "\<exists>c'. reacts client_act (Received b (wire rest d)) c c' \<and> outbox c' = outbox c \<and> view c' = v \<and> ready c' \<and>
    screen c' = screen c @ out"
proof -
  let ?h = "take 49 (words_of (remove1 DOLLAR (payload d)))"
  let ?v = "(view c)\<lparr>cli := (cli (view c))\<lparr>responder_addr := b\<rparr>\<rparr>"
  have c: "running c" "sd (cli (view c)) \<noteq> 0" "q_contents (response_queue c) = []" "\<not> messages_mutex c"
    using assms(2) by (simp_all add: ready_def)
  have p: "cstr (wire rest d) = payload d" "NUL \<in> set (take BUFFER_SIZE (wire rest d))"
    using wire_terminated [OF assms(3)] assms(3,4) by (auto simp: wire_def terminated_def BUFFER_SIZE_def take_Cons')
  obtain q b' where 1: "reacts client_act (Received b (wire rest d)) c
      (c\<lparr>view := ?v, response_queue := q, response_buffer := b', handlers := handlers c @ [Parse ?h]\<rparr>)" "q_contents q = []"
    by (rule deliver [OF assms(1) c(1,3) p(2), of b, unfolded p(1)]) (use assms(4) in auto)
  let ?s1 = "c\<lparr>view := ?v, response_queue := q, response_buffer := b', handlers := handlers c @ [Parse ?h]\<rparr>"
  obtain r w where 2: "(client_act None)\<^sup>*\<^sup>* ?s1 (?s1\<lparr>view := v, join_result := r, messages_mutex := False,
      handlers := handlers c @ [Finished], waits_at := w, screen := screen ?s1 @ out\<rparr>)"
    using handler_acts [of ?s1 "handlers c" ?h junk] c assms(5,6) by auto
  let ?c' = "?s1\<lparr>view := v, join_result := r, messages_mutex := False, handlers := handlers c @ [Finished],
      waits_at := w, screen := screen ?s1 @ out\<rparr>"
  have 3: "reacts client_act (Received b (wire rest d)) c ?c'" using reacts_then [of client_act, OF 1(1) 2] .
  have "sd (cli (view ?c')) \<noteq> 0"
  proof -
    obtain u where u: "client_act (Some (Received b (wire rest d))) c u" "(client_act None)\<^sup>*\<^sup>* u ?c'"
      using 3 by (auto simp: reacts_def)
    have "sd (cli (view u)) \<noteq> 0" using client_act_sent(3) [OF u(1)] c(2) by simp
    with u(2) show ?thesis by (induction rule: rtranclp_induct) (auto dest: client_act_sent(3))
  qed
  with 3 1(2) c(1) show ?thesis by (intro exI [of _ ?c']) (simp add: ready_def)
qed

text \<open>A line typed at a connected client, or a request to connect at another, is sent to the server.\<close>

definition typable :: "string \<Rightarrow> bool" where
  "typable t \<longleftrightarrow> no_nul t \<and> NL \<notin> set t \<and> length t + 1 < MAX_LEN"

lemma strip_typed: "typable t \<Longrightarrow> strip_newline (t @ [NL]) = t"
  by (simp add: typable_def strip_newline_def takeWhile_stop)

lemma ready_types:
  assumes "client_inv c" and "ready c" and "connected (cli (view c))" and "typable t"
    and "t \<notin> {'''', '':q''}"
  shows "\<exists>c'. (client_act None)\<^sup>*\<^sup>* c c' \<and> view c' = view c \<and> ready c' \<and>
    new_posts c c' = [udp_socket_write (server_addr (cli (view c))) t (length t + 1)]"
proof -
  have r: "running c" "sd (cli (view c)) \<noteq> 0" using assms(2) by (simp_all add: ready_def)
  let ?s = "c\<lparr>waits_at := (waits_at c)\<lparr>post_at := Input_Reading\<rparr>\<rparr>"
  have 1: "(client_act None)\<^sup>*\<^sup>* c ?s" using keyboard_reached(1) [OF assms(1) r(1) assms(3)] by blast
  have u: "user_input (Some (t @ [NL])) (cli (view c)) = send_text (cli (view c)) t #
      (if t = ''disconn$'' then [Print (''Disconnecting...'' @ [NL])] else [])"
    using assms(4,5) by (auto simp: user_input_def strip_typed Let_def)
  have raw: "no_nul (t @ [NL])" "length (t @ [NL]) < MAX_LEN" using assms(4) by (simp_all add: typable_def)
  let ?c' = "?s\<lparr>outbox := outbox ?s @ user_input (Some (t @ [NL])) (cli (view ?s)), waits_at := (waits_at ?s)\<lparr>post_at := Input_Check\<rparr>\<rparr>"
  have 2: "client_act None ?s ?c'" by (rule type_line) (use r(1) raw in simp_all)
  have "running ?c'" using r(1) u by (simp add: running_def send_text_def)
  moreover have "sends (drop (length (outbox c)) (outbox ?c')) = [udp_socket_write (server_addr (cli (view c))) t (length t + 1)]"
    using u by (simp add: send_text_def)
  ultimately show ?thesis
    using rtranclp.rtrancl_into_rtrancl [of "client_act None", OF 1 2] assms(2) r(2)
    by (intro exI [of _ ?c']) (simp add: ready_def new_posts_def)
qed

lemma ready_asks:
  assumes "client_inv c" and "ready c" and "\<not> connected (cli (view c))" and "typable t" and "t = ''conn$ '' @ n" and "n \<noteq> ''''"
  shows "\<exists>c'. (client_act None)\<^sup>*\<^sup>* c c' \<and> view c' = view c \<and> ready c' \<and>
    new_posts c c' = [udp_socket_write (server_addr (cli (view c))) t (length t + 1)]"
proof -
  let ?t = t
  have r: "running c" "sd (cli (view c)) \<noteq> 0" using assms(2) by (simp_all add: ready_def)
  let ?s = "c\<lparr>waits_at := (waits_at c)\<lparr>pre_at := Input_Reading\<rparr>\<rparr>"
  have 1: "(client_act None)\<^sup>*\<^sup>* c ?s" using keyboard_reached(2) [OF assms(1) r(1) assms(3)] by blast
  have st: "strip_newline (?t @ [NL]) = ?t" using strip_typed [OF assms(4)] .
  have sn: "snprintf BUFFER_SIZE ?t = ?t" using assms(4) by (simp add: typable_def snprintf_def MAX_LEN_def BUFFER_SIZE_def)
  have u: "user_input_pre_connection (\<lambda>_. None) 0 (\<lambda>_. 0) (Some (?t @ [NL])) (cli (view ?s)) =
      (cli (view c), [send_text (cli (view c)) ?t])"
    using assms(3,5,6) r(2) st sn by (simp add: user_input_pre_connection_def send_connect_request_def Let_def)
  have raw: "no_nul (?t @ [NL])" "length (?t @ [NL]) < MAX_LEN" using assms(4) by (simp_all add: typable_def)
  let ?c' = "?s\<lparr>view := (view ?s)\<lparr>cli := cli (view c)\<rparr>, outbox := outbox ?s @ [send_text (cli (view c)) ?t],
      waits_at := (waits_at ?s)\<lparr>pre_at := Input_Check\<rparr>\<rparr>"
  have 2: "client_act None ?s ?c'" by (rule type_pre [OF _ _ _ u]) (use r(1) raw in simp_all)
  have "running ?c'" using r(1) by (simp add: running_def send_text_def)
  then show ?thesis
    using rtranclp.rtrancl_into_rtrancl [of "client_act None", OF 1 2] assms(2) r(2)
    by (intro exI [of _ ?c']) (simp add: ready_def new_posts_def send_text_def)
qed

section \<open>The server in the world\<close>

lemma typed_room: "server_typed st \<Longrightarrow> server_rep st r \<Longrightarrow> room_ok r"
  using heap_typed_represents
  by (fastforce simp: server_typed_def server_rep_def room_ok_def)

lemma host_serves:
  assumes "process_rep (host w) r" and "(a, d) \<in> set (in_flight w)" and "to_addr d = S"
    and "letter_ok (Letter a (wire junk d) now) r"
  shows "\<exists>p. (world_step S)\<^sup>*\<^sup>* w (w\<lparr>host := p,
      in_flight := in_flight w @ map (Pair S) (snd (letter_spec (Letter a (wire junk d) now) r))\<rparr>) \<and>
    process_rep p (fst (letter_spec (Letter a (wire junk d) now) r))"
proof -
  from letter_served [OF assms(1,4)] obtain p where p: "reacts process_act (Received a (wire junk d)) (host w) p"
    "process_rep p (fst (letter_spec (Letter a (wire junk d) now) r))"
    "sent (sys p) = sent (sys (host w)) @ snd (letter_spec (Letter a (wire junk d) now) r)" by auto
  from p(3) have "new_replies (host w) p = snd (letter_spec (Letter a (wire junk d) now) r)"
    by (simp add: new_replies_def)
  with host_reacts [OF p(1) assms(2,3)] p(2) show ?thesis by auto
qed

lemma host_serves_text:
  assumes "process_rep (host w) r" and "(a, udp_socket_write S t (length t + 1)) \<in> set (in_flight w)"
    and "no_nul t" and "length t < 512" and "words_of (remove1 DOLLAR t) \<noteq> []" and "room_accepts (text_command t) a r"
  shows "\<exists>p. (world_step S)\<^sup>*\<^sup>* w (w\<lparr>host := p,
      in_flight := in_flight w @ map (Pair S) (snd (room_serve now (text_command t) a r))\<rparr>) \<and>
    process_rep p (fst (room_serve now (text_command t) a r))"
proof -
  define d where d: "d = udp_socket_write S t (length t + 1)"
  have pkt: "wire [] d = t @ [NUL]" by (simp add: d wire_def)
  let ?l = "Letter a (wire [] d) now"
  have cmd: "letter_command ?l = text_command t"
    unfolding letter_command_def letter.sel pkt using assms(3) by (simp add: cstr_append_nul)
  have "packet_ok (wire [] d)"
    unfolding pkt by (rule packet_ok_text) (use assms(3-5) in \<open>simp_all add: QUEUE_MSG_SIZE_def\<close>)
  with assms(6) have ok: "letter_ok ?l r" by (simp add: letter_ok_def cmd)
  have spec: "letter_spec ?l r = room_serve now (text_command t) a r" by (simp add: letter_spec_def cmd)
  have "to_addr d = S" by (simp add: d)
  from host_serves [OF assms(1) assms(2) [folded d] this ok] show ?thesis unfolding spec .
qed

text \<open>What the user causes, as a step of the world.\<close>

lemma user_sends:
  assumes "clients_at w a = Some c" and "client_inv c" and "ready c" and "connected (cli (view c))"
    and "typable t" and "t \<notin> {'''', '':q''}" and "server_addr (cli (view c)) = S"
  shows "\<exists>c'. (world_step S)\<^sup>*\<^sup>* w (w\<lparr>clients_at := (clients_at w)(a \<mapsto> c'),
      in_flight := in_flight w @ [(a, udp_socket_write S t (length t + 1))]\<rparr>) \<and> view c' = view c \<and> ready c' \<and> client_inv c'"
proof -
  have "sd (cli (view c)) \<noteq> 0" using assms(3) by (simp add: ready_def)
  from ready_types [OF assms(2-6)] client_runs [OF _ assms(1) this, of _ S] show ?thesis
    using client_proc.steps_inv [OF own_acts [of client_act] assms(2)] assms(7) by fastforce
qed

lemma newcomer_asks:
  assumes "clients_at w a = Some c" and "client_inv c" and "ready c" and "\<not> connected (cli (view c))"
    and "typable t" and "t = ''conn$ '' @ n" and "n \<noteq> ''''" and "server_addr (cli (view c)) = S"
  shows "\<exists>c'. (world_step S)\<^sup>*\<^sup>* w (w\<lparr>clients_at := (clients_at w)(a \<mapsto> c'),
      in_flight := in_flight w @ [(a, udp_socket_write S t (length t + 1))]\<rparr>) \<and> view c' = view c \<and> ready c' \<and> client_inv c'"
proof -
  have "sd (cli (view c)) \<noteq> 0" using assms(3) by (simp add: ready_def)
  from ready_asks [OF assms(2-7)] client_runs [OF _ assms(1) this, of _ S] show ?thesis
    using client_proc.steps_inv [OF own_acts [of client_act] assms(2)] assms(8) by fastforce
qed

text \<open>A line that a connected user types is served as the room serves its command.\<close>

lemma text_served:
  assumes "process_rep (host w) r" and "clients_at w a = Some c" and "client_inv c" and "ready c"
    and "connected (cli (view c))" and "server_addr (cli (view c)) = S" and "typable t"
    and "t \<notin> {'''', '':q''}" and "length t < 512" and "words_of (remove1 DOLLAR t) \<noteq> []"
    and "room_accepts (text_command t) a r"
  shows "\<exists>w' c'. (world_step S)\<^sup>*\<^sup>* w w' \<and> clients_at w' = (clients_at w)(a \<mapsto> c') \<and>
    view c' = view c \<and> ready c' \<and> client_inv c' \<and> process_rep (host w') (fst (room_serve now (text_command t) a r)) \<and>
    in_flight w' = in_flight w @ (a, udp_socket_write S t (length t + 1)) # map (Pair S) (snd (room_serve now (text_command t) a r))"
proof -
  have nn: "no_nul t" using assms(7) by (simp add: typable_def)
  obtain c1 where 1: "(world_step S)\<^sup>*\<^sup>* w (w\<lparr>clients_at := (clients_at w)(a \<mapsto> c1),
      in_flight := in_flight w @ [(a, udp_socket_write S t (length t + 1))]\<rparr>)"
    and c1: "view c1 = view c" "ready c1" "client_inv c1"
    using user_sends [OF assms(2-5,7,8,6)] by blast
  let ?w1 = "w\<lparr>clients_at := (clients_at w)(a \<mapsto> c1), in_flight := in_flight w @ [(a, udp_socket_write S t (length t + 1))]\<rparr>"
  let ?w2 = "\<lambda>p. ?w1\<lparr>host := p, in_flight := in_flight ?w1 @ map (Pair S) (snd (room_serve now (text_command t) a r))\<rparr>"
  obtain p where p: "(world_step S)\<^sup>*\<^sup>* ?w1 (?w2 p)" "process_rep p (fst (room_serve now (text_command t) a r))"
    using host_serves_text [OF _ _ nn assms(9-11), of ?w1 S now] assms(1) by auto
  with rtranclp_trans [OF 1 p(1)] c1 show ?thesis by (intro exI [of _ "?w2 p"] exI [of _ c1]) auto
qed

text \<open>A client at rest executes what is in flight to it.\<close>

lemma hears_and_executes:
  assumes "clients_at w a = Some c" and "client_inv c" and "ready c" and "(S, d) \<in> set (in_flight w)" and "to_addr d = a"
    and "terminated d" and "length (payload d) < 512"
    and "handle_cli_side_cmd demo_junk (take 49 (words_of (remove1 DOLLAR (payload d))))
           ((view c)\<lparr>cli := (cli (view c))\<lparr>responder_addr := S\<rparr>\<rparr>) = Ok (v, out)"
  shows "\<exists>c'. (world_step S)\<^sup>*\<^sup>* w (w\<lparr>clients_at := (clients_at w)(a \<mapsto> c')\<rparr>) \<and> view c' = v \<and> ready c' \<and> client_inv c'"
proof -
  from ready_executes [OF assms(2,3,6,7) demo_junk_full(1) assms(8)] obtain c' where
    c': "reacts client_act (Received S (wire [] d)) c c'" "outbox c' = outbox c" "view c' = v" "ready c'" by blast
  have "sd (cli (view c)) \<noteq> 0" using assms(3) by (simp add: ready_def)
  from client_reacts [OF c'(1,2) assms(1) this assms(4,5)] c'(3,4)
    client_proc.steps_inv [OF reacts_acts [of client_act, OF c'(1)] assms(2)]
  show ?thesis by blast
qed

lemma world_room_ok: "ends_reached w \<Longrightarrow> server_rep (srv (sys (host w))) r \<Longrightarrow> room_ok r"
  using typed.reach_inv typed_room by (auto simp: ends_reached_def process_typed_def system_typed_def)

text \<open>A keyword and one word, as the server and as the client parse it.\<close>

lemma keyword_words:
  assumes "is_word n"
  shows "words_of (remove1 DOLLAR (keyword k @ ''$ '' @ n)) = [keyword k, n]"
proof -
  have "words_of n = [n]" using assms by (intro words_of_word_end) (auto simp: is_word_def)
  then show ?thesis unfolding message_words(1) [OF keyword_word] by simp
qed

lemma word_request:
  assumes "is_word n" and "length n < 20"
  shows "text_command (keyword k @ ''$ '' @ n) = \<lparr>kind = k, args = n # replicate (MAX_CMD_SIZE - 1) ''''\<rparr>"
    and "words_of (remove1 DOLLAR (keyword k @ ''$ '' @ n)) \<noteq> []"
  unfolding text_command_def keyword_words [OF assms(1)]
  using assms(2) by (simp_all add: request_of_def NAME_SIZE_def MAX_COMMAND_LEN_def)

lemma word_answer:
  assumes "is_word n" and "length n < 20" and "well_formed_command junk"
  shows "command_handler junk (Some (take 49 (words_of (remove1 DOLLAR (keyword k @ ''$ '' @ n))))) =
    \<lparr>kind = k, args = n # replicate 49 ''''\<rparr>"
proof -
  have "length (args junk) = MAX_CMD_SIZE" using assms(3) by (simp add: well_formed_command_def)
  with assms(2) show ?thesis
    unfolding keyword_words [OF assms(1)] by (simp add: command_handler_closed NAME_SIZE_def MAX_CMD_SIZE_def)
qed

section \<open>Joining\<close>

lemma conn_request:
  assumes "is_word n" and "length n < 20"
  shows "text_command (''conn$ '' @ n) = \<lparr>kind = CONN, args = n # replicate (MAX_CMD_SIZE - 1) ''''\<rparr>"
    and "words_of (remove1 DOLLAR (''conn$ '' @ n)) \<noteq> []"
  using word_request [OF assms, of CONN] by simp_all

lemma confirmation_handled:
  assumes "is_word n" and "length n < 20" and "well_formed_command junk"
  shows "handle_cli_side_cmd junk (take 49 (words_of (remove1 DOLLAR (''connsuccess$ '' @ n)))) v =
    Ok (v\<lparr>cli := (cli v)\<lparr>connected := True, cname := n\<rparr>\<rparr>, [''Successfully connected as: '' @ n @ [NL]])"
  using word_answer [OF assms, of CONN_SUCCESS] assms(2)
  by (simp add: handle_cli_side_cmd_def execute_server_command_def execute_connect_response_def strcpy_def NAME_SIZE_def)

lemma dismissal_handled:
  assumes "well_formed_command junk"
  shows "handle_cli_side_cmd junk (take 49 (words_of (remove1 DOLLAR ''disconnresponse$''))) v =
    Ok (v\<lparr>cli := (cli v)\<lparr>connected := False\<rparr>, message_count := 0\<rparr>, [''Disconnected from server.'' @ [NL]])"
  using message_words(2) [OF keyword_word, of DISCONN_RESPONSE] assms
  by (simp add: handle_cli_side_cmd_def command_handler_closed kind_of_token_def execute_server_command_def
      execute_disconnect_response_def well_formed_command_def MAX_CMD_SIZE_def)

text \<open>What the room does with a request to connect.\<close>

lemma connect_request:
  assumes "is_word n" and "length n < 20" and "t = ''conn$ '' @ n" and "room_ok r"
  shows "room_accepts (text_command t) a r"
    and "fst (room_serve now (text_command t) a r) = r\<lparr>members := members r @ [new_client a n now]\<rparr>"
    and "udp_socket_write a (''connsuccess$ '' @ n) MAX_MESSAGE \<in> set (snd (room_serve now (text_command t) a r))"
    and "l \<in> set (drop (length (log r) - 15) (log r)) \<Longrightarrow>
      udp_socket_write a (''say$ '' @ l) 512 \<in> set (snd (room_serve now (text_command t) a r))"
proof -
  note conn = conn_request(1) [OF assms(1,2), folded assms(3)]
  show "room_accepts (text_command t) a r" by (simp add: conn room_accepts_def)
  show "fst (room_serve now (text_command t) a r) = r\<lparr>members := members r @ [new_client a n now]\<rparr>"
    "udp_socket_write a (''connsuccess$ '' @ n) MAX_MESSAGE \<in> set (snd (room_serve now (text_command t) a r))"
    by (simp_all add: conn room_defs arg_def)
  assume l: "l \<in> set (drop (length (log r) - 15) (log r))"
  then have "say_text l = ''say$ '' @ l"
    using assms(4) by (intro say_text_exact) (auto simp: room_ok_def line_ok_def dest!: in_set_dropD)
  moreover have "udp_socket_write a (say_text l) 512 \<in> set (snd (room_serve now (text_command t) a r))"
    using l unfolding conn
    by (simp add: room_defs recent_def CHAT_HISTORY_SIZE_def RESPONSE_BUFFER_SIZE_def MAX_MESSAGE_def del: One_nat_def)
  ultimately show "udp_socket_write a (''say$ '' @ l) 512 \<in> set (snd (room_serve now (text_command t) a r))" by (simp only:)
qed

lemma newcomer_joins:
  assumes "ends_reached w" and "at_rest (host w)" and "server_rep (srv (sys (host w))) r"
    and "clients_at w a = Some c" and "ready c" and "\<not> connected (cli (view c))" and "server_addr (cli (view c)) = S"
    and "is_word n" and "NL \<notin> set n" and "length n < 20"
  shows "\<exists>w' c'. (world_step S)\<^sup>*\<^sup>* w w' \<and> at_rest (host w') \<and>
    server_rep (srv (sys (host w'))) (r\<lparr>members := members r @ [new_client a n now]\<rparr>) \<and>
    clients_at w' = (clients_at w)(a \<mapsto> c') \<and> ready c' \<and>
    view c' = (view c)\<lparr>cli := (cli (view c))\<lparr>responder_addr := S, connected := True, cname := n\<rparr>\<rparr> \<and>
    (a, udp_socket_write S (''conn$ '' @ n) (length n + 7)) \<in> set (in_flight w') \<and>
    (\<forall>l \<in> set (drop (length (log r) - 15) (log r)). (S, udp_socket_write a (''say$ '' @ l) 512) \<in> set (in_flight w'))"
proof -
  have ci: "client_inv c" using assms(1,4) client_proc.reach_inv by (auto simp: ends_reached_def)
  have rep: "process_rep (host w) r"
    using assms(1-3) process.reach_inv by (simp add: ends_reached_def process_rep_def)
  have nn: "no_nul n" "n \<noteq> ''''" using assms(8) by (auto simp: is_word_def)
  define t where t: "t = ''conn$ '' @ n"
  have tt: "typable t" "no_nul t" "length t < 512" using nn assms(9,10) by (simp_all add: t typable_def MAX_LEN_def)
  obtain c1 where 1: "(world_step S)\<^sup>*\<^sup>* w (w\<lparr>clients_at := (clients_at w)(a \<mapsto> c1),
      in_flight := in_flight w @ [(a, udp_socket_write S t (length t + 1))]\<rparr>)"
    and c1: "view c1 = view c" "ready c1" "client_inv c1"
    using newcomer_asks [OF assms(4) ci assms(5,6) tt(1) t nn(2) assms(7)] by blast
  let ?w1 = "w\<lparr>clients_at := (clients_at w)(a \<mapsto> c1), in_flight := in_flight w @ [(a, udp_socket_write S t (length t + 1))]\<rparr>"
  note conn = conn_request(2) [OF assms(8,10), folded t]
  note served = connect_request [OF assms(8,10) t world_room_ok [OF assms(1,3)], where a = a]
  obtain p where
    p: "(world_step S)\<^sup>*\<^sup>* ?w1 (?w1\<lparr>host := p, in_flight := in_flight ?w1 @ map (Pair S) (snd (room_serve now (text_command t) a r))\<rparr>)"
    "process_rep p (fst (room_serve now (text_command t) a r))"
    using host_serves_text [OF _ _ tt(2,3) conn served(1), of ?w1 S now] rep by auto
  let ?w2 = "?w1\<lparr>host := p, in_flight := in_flight ?w1 @ map (Pair S) (snd (room_serve now (text_command t) a r))\<rparr>"
  let ?e = "udp_socket_write a (''connsuccess$ '' @ n) MAX_MESSAGE"
  let ?v = "(view c)\<lparr>cli := (cli (view c))\<lparr>responder_addr := S\<rparr>\<rparr>"
  have h: "handle_cli_side_cmd demo_junk (take 49 (words_of (remove1 DOLLAR (payload ?e)))) ?v =
      Ok (?v\<lparr>cli := (cli ?v)\<lparr>connected := True, cname := n\<rparr>\<rparr>, [''Successfully connected as: '' @ n @ [NL]])"
    using confirmation_handled [OF assms(8,10) demo_junk_full(1), of ?v] by simp
  obtain c2 where c2: "(world_step S)\<^sup>*\<^sup>* ?w2 (?w2\<lparr>clients_at := (clients_at ?w2)(a \<mapsto> c2)\<rparr>)"
      "view c2 = ?v\<lparr>cli := (cli ?v)\<lparr>connected := True, cname := n\<rparr>\<rparr>" "ready c2"
    using hears_and_executes [of ?w2 a c1 S ?e] c1 h served(3) [where now = now] nn(1) assms(10) by (auto simp: MAX_MESSAGE_def)
  with 1 p(1) have "(world_step S)\<^sup>*\<^sup>* w (?w2\<lparr>clients_at := (clients_at ?w2)(a \<mapsto> c2)\<rparr>)" by (meson rtranclp_trans)
  moreover have "\<forall>l \<in> set (drop (length (log r) - 15) (log r)). (S, udp_socket_write a (''say$ '' @ l) 512) \<in> set (in_flight ?w2)"
    using served(4) [where now = now] by auto
  moreover have "(a, udp_socket_write S (''conn$ '' @ n) (length n + 7)) \<in> set (in_flight ?w2)"
    unfolding t [symmetric] using arg_cong [OF t, of length] by (simp add: eval_nat_numeral)
  ultimately show ?thesis
    using p(2) c2(2,3) served(2)
    by (intro exI [of _ "?w2\<lparr>clients_at := (clients_at ?w2)(a \<mapsto> c2)\<rparr>"] exI [of _ c2]) (auto simp: process_rep_def)
qed

text \<open>
  C5. Anybody can join. In every reachable world whose server waits for a datagram and represents a
  room, the user of an unconnected client at rest types \<open>conn$\<close> and a name of one word of at most 19
  characters. There is an execution, through both processes and the network, in which that text is
  sent and after which the room has the newcomer, with that name and the client's address, as its last member, the client
  knows that it is connected and under which name, its messages are as they were, the last fifteen
  recorded lines are on their way to it, both are at rest again, and no other client has moved.
\<close>

theorem user_joins:
  assumes "reach world_init (world_step S) w" and "at_rest (host w)" and "server_rep (srv (sys (host w))) r"
    and "clients_at w a = Some c" and "ready c" and "\<not> connected (cli (view c))" and "server_addr (cli (view c)) = S"
    and "is_word n" and "NL \<notin> set n" and "length n < 20"
  shows "\<exists>w' c'. (world_step S)\<^sup>*\<^sup>* w w' \<and> at_rest (host w') \<and>
    server_rep (srv (sys (host w'))) (r\<lparr>members := members r @ [new_client a n now]\<rparr>) \<and>
    clients_at w' = (clients_at w)(a \<mapsto> c') \<and> ready c' \<and>
    view c' = (view c)\<lparr>cli := (cli (view c))\<lparr>responder_addr := S, connected := True, cname := n\<rparr>\<rparr> \<and>
    (a, udp_socket_write S (''conn$ '' @ n) (length n + 7)) \<in> set (in_flight w') \<and>
    (\<forall>l \<in> set (drop (length (log r) - 15) (log r)). (S, udp_socket_write a (''say$ '' @ l) 512) \<in> set (in_flight w'))"
  by (rule newcomer_joins [OF ends.reach_inv [OF assms(1)] assms(2-)])

definition demo_world :: world where
  "demo_world = \<lparr>host = demo_process, clients_at = [peer 1 \<mapsto> idle_client, peer 2 \<mapsto> idle_client], in_flight = []\<rparr>"

abbreviation demo_host_address :: sockaddr_in where
  "demo_host_address \<equiv> server_addr (cli (view idle_client))"

lemma demo_world_reach [simp]: "reach world_init (world_step S) demo_world"
  by (rule reach_init) (simp add: world_init_def demo_world_def demo_process_init idle_client_init)

lemma demo_world_sel [simp]:
  "host demo_world = demo_process" "clients_at demo_world = [peer 1 \<mapsto> idle_client, peer 2 \<mapsto> idle_client]"
  by (simp_all add: demo_world_def)

lemma idle_client_ready [simp]: "ready idle_client"
proof -
  have "sd (cli (view idle_client)) = 3"
    by (simp add: idle_client_def Let_def init_client_socket_def udp_socket_open_spec set_socket_addr_def LOCALHOST_def)
  then show ?thesis by (simp add: ready_def)
qed

theorem user_joins_witness:
  "\<exists>w' c'. (world_step demo_host_address)\<^sup>*\<^sup>* demo_world w' \<and> at_rest (host w') \<and>
    server_rep (srv (sys (host w'))) \<lparr>members = [new_client (peer 1) ''ann'' 7], log = []\<rparr> \<and>
    clients_at w' (peer 1) = Some c' \<and> connected (cli (view c')) \<and> cname (cli (view c')) = ''ann''"
  using user_joins [OF demo_world_reach, of empty_room "peer 1" idle_client demo_host_address "''ann''" 7] demo_at_rest
  by (fastforce simp: empty_room_def is_word_def)

section \<open>A line for everybody\<close>

definition records_line :: "sockaddr_in \<Rightarrow> string \<Rightarrow> client_process \<Rightarrow> client_process \<Rightarrow> bool" where
  "records_line S line c c' \<longleftrightarrow> ready c' \<and>
     view c' = (view c)\<lparr>cli := (cli (view c))\<lparr>responder_addr := S\<rparr>,
       messages := (messages (view c))[message_count (view c) := line], message_count := message_count (view c) + 1\<rparr>"

lemma ready_records:
  assumes "client_inv c" and "ready c" and "message_count (view c) < 100"
    and "\<forall>w \<in> set ws. is_word w \<and> length w < 20" and "length ws \<le> 48" and "length (unwords ws) < 300"
  shows "\<exists>c'. reacts client_act (Received S (wire rest (udp_socket_write a (''say$ '' @ unwords ws) 512))) c c' \<and>
    outbox c' = outbox c \<and> records_line S (unwords ws) c c'"
proof -
  let ?v = "(view c)\<lparr>cli := (cli (view c))\<lparr>responder_addr := S\<rparr>\<rparr>"
  have m: "length (messages (view c)) = 100" using assms(1) by (simp add: client_inv_def chat_inv_def MAX_MSGS_def)
  have nn: "no_nul (unwords ws)" using no_nul_unwords [OF assms(4)] .
  obtain c' where "reacts client_act (Received S (wire rest (udp_socket_write a (''say$ '' @ unwords ws) 512))) c c'"
    "outbox c' = outbox c" "ready c'"
    "view c' = ?v\<lparr>messages := (messages ?v)[message_count ?v := unwords ws], message_count := message_count ?v + 1\<rparr>"
    using ready_executes [OF assms(1,2) _ _ demo_junk_full(1), of "udp_socket_write a (''say$ '' @ unwords ws) 512" S]
      say_handled [OF assms(4-6) demo_junk_full(2), of ?v] nn assms(3,6) m by auto
  then show ?thesis by (intro exI [of _ c']) (simp add: records_line_def)
qed

lemma everyone_hears:
  assumes "\<forall>w \<in> set ws. is_word w \<and> length w < 20" and "length ws \<le> 48" and "length (unwords ws) < 300"
    and "distinct as"
    and "\<forall>a \<in> set as. \<exists>c. clients_at w a = Some c \<and> client_inv c \<and> ready c \<and> message_count (view c) < 100 \<and>
      (S, udp_socket_write a (''say$ '' @ unwords ws) 512) \<in> set (in_flight w)"
  shows "\<exists>w'. (world_step S)\<^sup>*\<^sup>* w w' \<and> host w' = host w \<and> in_flight w' = in_flight w \<and>
    (\<forall>b. b \<notin> set as \<longrightarrow> clients_at w' b = clients_at w b) \<and>
    (\<forall>a \<in> set as. \<exists>c c'. clients_at w a = Some c \<and> clients_at w' a = Some c' \<and> records_line S (unwords ws) c c')"
  using assms(4,5)
proof (induction as arbitrary: w)
  case Nil
  then show ?case by auto
next
  case (Cons a as)
  let ?d = "udp_socket_write a (''say$ '' @ unwords ws) 512"
  obtain c where c: "clients_at w a = Some c" "client_inv c" "ready c" "message_count (view c) < 100"
    "(S, ?d) \<in> set (in_flight w)" using Cons.prems(2) by auto
  from ready_records [OF c(2-4) assms(1-3), of S "[]" a] obtain c' where
    c': "reacts client_act (Received S (wire [] ?d)) c c'" "outbox c' = outbox c" "records_line S (unwords ws) c c'" by blast
  let ?w = "w\<lparr>clients_at := (clients_at w)(a \<mapsto> c')\<rparr>"
  have 1: "(world_step S)\<^sup>*\<^sup>* w ?w"
    by (rule client_reacts [OF c'(1,2) c(1) _ c(5)]) (use c(3) in \<open>simp_all add: ready_def\<close>)
  have as: "\<forall>b \<in> set as. \<exists>c. clients_at ?w b = Some c \<and> client_inv c \<and> ready c \<and> message_count (view c) < 100 \<and>
      (S, udp_socket_write b (''say$ '' @ unwords ws) 512) \<in> set (in_flight ?w)"
  proof
    fix b assume "b \<in> set as"
    with Cons.prems show "\<exists>c. clients_at ?w b = Some c \<and> client_inv c \<and> ready c \<and> message_count (view c) < 100 \<and>
      (S, udp_socket_write b (''say$ '' @ unwords ws) 512) \<in> set (in_flight ?w)" by (cases "b = a") auto
  qed
  have "distinct as" "a \<notin> set as" using Cons.prems(1) by simp_all
  from Cons.IH [OF this(1) as] obtain w' where w': "(world_step S)\<^sup>*\<^sup>* ?w w'" "host w' = host w"
    "\<forall>b. b \<notin> set as \<longrightarrow> clients_at w' b = clients_at ?w b"
    "\<forall>b \<in> set as. \<exists>c c'. clients_at ?w b = Some c \<and> clients_at w' b = Some c' \<and> records_line S (unwords ws) c c'"
    "in_flight w' = in_flight w"
    by auto
  have "\<exists>c c'. clients_at w b = Some c \<and> clients_at w' b = Some c' \<and> records_line S (unwords ws) c c'" if "b \<in> set (a # as)" for b
  proof (cases "b = a")
    case True
    with w'(3) \<open>a \<notin> set as\<close> c(1) c'(3) show ?thesis by auto
  next
    case False
    with that w'(4) show ?thesis by (fastforce split: if_splits)
  qed
  with w'(2,3,5) rtranclp_trans [OF 1 w'(1)] show ?case by (intro exI [of _ w']) auto
qed

lemma members_hear:
  assumes "\<forall>w \<in> set ws. is_word w \<and> length w < 20" and "length ws \<le> 48" and "length (unwords ws) < 300"
    and "\<forall>n \<in> set ms. (S, udp_socket_write (client_address n) (''say$ '' @ unwords ws) 512) \<in> set (in_flight w)"
    and "\<forall>n \<in> set ms. \<exists>c. clients_at w (client_address n) = Some c \<and> client_inv c \<and> ready c \<and> message_count (view c) < 100"
  shows "\<exists>w'. (world_step S)\<^sup>*\<^sup>* w w' \<and> host w' = host w \<and> in_flight w' = in_flight w \<and>
    (\<forall>b. b \<notin> client_address ` set ms \<longrightarrow> clients_at w' b = clients_at w b) \<and>
    (\<forall>n \<in> set ms. \<exists>c c'. clients_at w (client_address n) = Some c \<and> clients_at w' (client_address n) = Some c' \<and>
      records_line S (unwords ws) c c')"
  using everyone_hears [OF assms(1-3), of "remdups (map client_address ms)" w S] assms(4,5) by auto

text \<open>A client that has sent a line is as good a listener as before.\<close>

lemma members_listen:
  assumes "clients_at w a = Some c" and "view c1 = view c" and "ready c1" and "client_inv c1"
    and "f = (clients_at w)(a \<mapsto> c1)"
    and "\<forall>n \<in> set ms. \<exists>c. clients_at w (client_address n) = Some c \<and> ready c \<and> message_count (view c) < 100"
    and "\<forall>b c. clients_at w b = Some c \<longrightarrow> client_inv c"
  shows "\<forall>n \<in> set ms. \<exists>c. f (client_address n) = Some c \<and> client_inv c \<and> ready c \<and> message_count (view c) < 100"
    and "\<forall>n \<in> set ms. \<exists>c c'. f (client_address n) = Some c \<and> g (client_address n) = Some c' \<and> records_line S line c c' \<Longrightarrow>
      \<forall>n \<in> set ms. \<exists>c c'. clients_at w (client_address n) = Some c \<and> g (client_address n) = Some c' \<and> records_line S line c c'"
proof -
  show "\<forall>n \<in> set ms. \<exists>c. f (client_address n) = Some c \<and> client_inv c \<and> ready c \<and> message_count (view c) < 100"
  proof
    fix n assume "n \<in> set ms"
    with assms(6) obtain cn where "clients_at w (client_address n) = Some cn" "ready cn" "message_count (view cn) < 100" by blast
    with assms(1-5,7) show "\<exists>c. f (client_address n) = Some c \<and> client_inv c \<and> ready c \<and> message_count (view c) < 100"
      by (cases "client_address n = a") auto
  qed
  assume g: "\<forall>n \<in> set ms. \<exists>c c'. f (client_address n) = Some c \<and> g (client_address n) = Some c' \<and> records_line S line c c'"
  show "\<forall>n \<in> set ms. \<exists>c c'. clients_at w (client_address n) = Some c \<and> g (client_address n) = Some c' \<and> records_line S line c c'"
  proof
    fix n assume "n \<in> set ms"
    with g obtain cn c' where "f (client_address n) = Some cn" "g (client_address n) = Some c'" "records_line S line cn c'" by blast
    with assms(1,2,5) show "\<exists>c c'. clients_at w (client_address n) = Some c \<and> g (client_address n) = Some c' \<and> records_line S line c c'"
      by (cases "client_address n = a") (auto simp: records_line_def)
  qed
qed

text \<open>
  C1. A line can reach everybody. In every reachable world whose server waits for a datagram and
  represents a room, a member whose client is connected to it types \<open>say$\<close> and some words, at least one and at most
  47, none longer than 19 characters, 254 in all. The member's name is one word of at most 18 characters with
  no colon, the log has room for a line, every member's client is at rest and has room for a line.
  Then there is an execution, from the keyboard, through the sender's socket, the
  server's listener, queue, parser, dispatcher and handler, and each client's listener, queue and
  handler, in which the only datagrams sent by anybody are the text that was typed, once, and the server's
  one datagram to each member, and after which exactly the line \<open>name: words\<close> has been added to the messages of every
  member's client, the sender's included, and to the server's log, nothing else of the room has changed
  but the sender's activity, no other client has moved, everybody is at rest again, and
  the name can be recovered from the line.
\<close>

theorem line_reaches_everybody:
  assumes "reach world_init (world_step S) w" and "at_rest (host w)" and "server_rep (srv (sys (host w))) r"
    and "find (by_address a) (members r) = Some m" and "clients_at w a = Some c" and "connected (cli (view c))"
    and "server_addr (cli (view c)) = S"
    and "\<forall>n \<in> set (members r). \<exists>c. clients_at w (client_address n) = Some c \<and> ready c \<and> message_count (view c) < 100"
    and "is_word (client_name m)" and "length (client_name m) < 19" and "CHR '':'' \<notin> set (client_name m)"
    and "\<forall>u \<in> set ws. is_word u \<and> NL \<notin> set u \<and> length u < 20" and "ws \<noteq> []" and "length ws < 48"
    and "length (unwords ws) < 255" and "length (log r) < 100"
    and "line = client_name m @ '': '' @ unwords ws"
  shows "\<exists>w'. (world_step S)\<^sup>*\<^sup>* w w' \<and> at_rest (host w') \<and>
    server_rep (srv (sys (host w'))) (r\<lparr>members := touch now a (members r), log := log r @ [line]\<rparr>) \<and>
    (\<forall>n \<in> set (members r). \<exists>c c'. clients_at w (client_address n) = Some c \<and> clients_at w' (client_address n) = Some c' \<and>
       records_line S line c c') \<and>
    (\<forall>b. b \<notin> client_address ` set (members r) \<longrightarrow> clients_at w' b = clients_at w b) \<and>
    in_flight w' = in_flight w @ (a, udp_socket_write S (''say$ '' @ unwords ws) (length (unwords ws) + 6)) #
      map (\<lambda>n. (S, udp_socket_write (client_address n) (''say$ '' @ line) 512)) (members r) \<and>
    extract_username line 20 = client_name m"
proof -
  have ends: "reach process_init process_step (host w)" "\<forall>b c. clients_at w b = Some c \<longrightarrow> client_inv c"
    using ends.reach_inv [OF assms(1)] client_proc.reach_inv by (auto simp: ends_reached_def)
  have ci: "client_inv c" using ends(2) assms(5) by blast
  have rep: "process_rep (host w) r" using assms(2,3) ends(1) process.reach_inv by (simp add: process_rep_def)
  note room = world_room_ok [OF ends.reach_inv [OF assms(1)] assms(3)]
  have words: "\<forall>u \<in> set ws. is_word u \<and> length u < 20" "length ws \<le> 48" using assms(12,14) by auto
  have m: "m \<in> set (members r)" "client_address m = a" using assms(4) by (auto simp: find_Some_iff by_address_def)
  have rc: "ready c" using assms(5,8) m by auto
  define t where t: "t = ''say$ '' @ unwords ws"
  have "NL \<notin> set (unwords ws)" using assms(12) by (induction ws rule: unwords.induct) auto
  then have tt: "typable t" "t \<notin> {'''', '':q''}" "length t < 512"
    using no_nul_unwords [OF words(1)] assms(15) by (simp_all add: t typable_def MAX_LEN_def)
  have tw: "words_of (remove1 DOLLAR t) \<noteq> []" using say_command(1) [OF words] by (auto simp: t)
  note line = line_room [OF words(1) assms(13) words(2) assms(15) room assms(4,16) t]
  obtain w2 c1 where w2: "(world_step S)\<^sup>*\<^sup>* w w2" "clients_at w2 = (clients_at w)(a \<mapsto> c1)"
    and c1: "view c1 = view c" "ready c1" "client_inv c1"
    and p: "process_rep (host w2) (r\<lparr>members := touch now a (members r), log := log r @ [line]\<rparr>)"
      "in_flight w2 = in_flight w @ (a, udp_socket_write S t (length t + 1)) #
        map (\<lambda>n. (S, udp_socket_write (client_address n) (''say$ '' @ line) 512)) (members r)"
    using text_served [OF rep assms(5) ci rc assms(6,7) tt tw line(1), of now]
    unfolding line(2,3) assms(17) map_map comp_def by blast
  let ?us = "(client_name m @ '':'') # ws"
  have us: "\<forall>u \<in> set ?us. is_word u \<and> length u < 20" "length ?us \<le> 48" "unwords ?us = line" "length (unwords ?us) < 300"
    using words(1) assms(9,10,13,14,15,17) by (auto simp: is_word_def unwords_ne)
  note at = members_listen [OF assms(5) c1 w2(2) assms(8) ends(2)]
  have "\<forall>n \<in> set (members r). (S, udp_socket_write (client_address n) (''say$ '' @ unwords ?us) 512) \<in> set (in_flight w2)"
    unfolding us(3) p(2) by auto
  from members_hear [OF us(1,2,4) this at(1)] obtain w' where w': "(world_step S)\<^sup>*\<^sup>* w2 w'" "host w' = host w2"
    "in_flight w' = in_flight w2"
    "\<forall>n \<in> set (members r). \<exists>c c'. clients_at w2 (client_address n) = Some c \<and> clients_at w' (client_address n) = Some c' \<and>
      records_line S line c c'"
    "\<forall>b. b \<notin> client_address ` set (members r) \<longrightarrow> clients_at w' b = clients_at w2 b" unfolding us(3) by auto
  from at(2) [OF w'(4)] have "\<forall>n \<in> set (members r). \<exists>c c'. clients_at w (client_address n) = Some c \<and>
    clients_at w' (client_address n) = Some c' \<and> records_line S line c c'" .
  moreover have "(world_step S)\<^sup>*\<^sup>* w w'" using rtranclp_trans [OF w2(1) w'(1)] .
  moreover have "extract_username line 20 = client_name m" unfolding assms(17) by (rule extract_sender) (use assms(9-11) in auto)
  moreover have "length (unwords ws) + 6 = length t + 1" by (simp add: t)
  then have "in_flight w' = in_flight w @ (a, udp_socket_write S (''say$ '' @ unwords ws) (length (unwords ws) + 6)) #
      map (\<lambda>n. (S, udp_socket_write (client_address n) (''say$ '' @ line) 512)) (members r)"
    unfolding w'(3) p(2) t [symmetric] by (simp only:)
  moreover have "\<forall>b. b \<notin> client_address ` set (members r) \<longrightarrow> clients_at w' b = clients_at w b"
    using w'(5) w2(2) m by auto
  moreover have "at_rest (host w')"
    "server_rep (srv (sys (host w'))) (r\<lparr>members := touch now a (members r), log := log r @ [line]\<rparr>)"
    using p(1) unfolding w'(2) process_rep_def by blast+
  ultimately show ?thesis by blast
qed

text \<open>Two users who have joined.\<close>

lemma demo_world_joined:
  obtains w c d where "reach world_init (world_step demo_host_address) w" and "at_rest (host w)"
    and "server_rep (srv (sys (host w))) \<lparr>members = [new_client (peer 1) ''ann'' 0, new_client (peer 2) ''bob'' 0], log = []\<rparr>"
    and "clients_at w = [peer 1 \<mapsto> c, peer 2 \<mapsto> d]" and "ready c" and "ready d" and "connected (cli (view c))"
    and "server_addr (cli (view c)) = demo_host_address" and "message_count (view c) = 0" and "message_count (view d) = 0"
    and "connected (cli (view d))" and "server_addr (cli (view d)) = demo_host_address"
proof -
  let ?S = demo_host_address
  obtain w1 c where w1: "(world_step ?S)\<^sup>*\<^sup>* demo_world w1" "at_rest (host w1)"
    "server_rep (srv (sys (host w1))) \<lparr>members = [new_client (peer 1) ''ann'' 0], log = []\<rparr>"
    "clients_at w1 = [peer 1 \<mapsto> c, peer 2 \<mapsto> idle_client]" "ready c" "connected (cli (view c))"
    "server_addr (cli (view c)) = ?S" "message_count (view c) = 0"
    using newcomer_joins [OF ends.reach_inv [OF demo_world_reach], of empty_room "peer 1" idle_client ?S "''ann''" 0] demo_at_rest
    by (fastforce simp: empty_room_def is_word_def)
  note r1 = reach_trans [OF w1(1) demo_world_reach]
  obtain w2 d where w2: "(world_step ?S)\<^sup>*\<^sup>* w1 w2" "at_rest (host w2)"
    "server_rep (srv (sys (host w2))) \<lparr>members = [new_client (peer 1) ''ann'' 0, new_client (peer 2) ''bob'' 0], log = []\<rparr>"
    "clients_at w2 = [peer 1 \<mapsto> c, peer 2 \<mapsto> d]" "ready d" "message_count (view d) = 0"
    "connected (cli (view d))" "server_addr (cli (view d)) = ?S"
    using newcomer_joins [OF ends.reach_inv [OF r1] w1(2,3), of "peer 2" idle_client ?S "''bob''" 0] w1(4)
    by (fastforce simp: is_word_def fun_upd_twist)
  from reach_trans [OF w2(1) r1] w2(2-5) w1(5-8) w2(6-8) show thesis by (intro that [of w2 c d])
qed

theorem line_reaches_everybody_witness:
  "\<exists>w w' c d. reach world_init (world_step demo_host_address) w \<and> (world_step demo_host_address)\<^sup>*\<^sup>* w w' \<and>
    clients_at w' (peer 1) = Some c \<and> clients_at w' (peer 2) = Some d \<and>
    message_count (view c) = 1 \<and> message_count (view d) = 1 \<and> messages (view d) ! 0 = ''ann: hi''"
proof -
  let ?S = demo_host_address
  let ?r = "\<lparr>members = [new_client (peer 1) ''ann'' 0, new_client (peer 2) ''bob'' 0], log = []\<rparr>"
  obtain w c d where w: "reach world_init (world_step ?S) w" "at_rest (host w)" "server_rep (srv (sys (host w))) ?r"
    "clients_at w = [peer 1 \<mapsto> c, peer 2 \<mapsto> d]" "ready c" "ready d" "connected (cli (view c))"
    "server_addr (cli (view c)) = ?S" "message_count (view c) = 0" "message_count (view d) = 0"
    by (rule demo_world_joined) blast
  have f: "find (by_address (peer 1)) (members ?r) = Some (new_client (peer 1) ''ann'' 0)"
    by (simp add: by_address_def new_client_def)
  have c: "clients_at w (peer 1) = Some c" using w(4) by simp
  have "\<exists>w'. (world_step ?S)\<^sup>*\<^sup>* w w' \<and> at_rest (host w') \<and>
    server_rep (srv (sys (host w'))) (?r\<lparr>members := touch 3 (peer 1) (members ?r), log := log ?r @ [''ann: hi'']\<rparr>) \<and>
    (\<forall>n \<in> set (members ?r). \<exists>c c'. clients_at w (client_address n) = Some c \<and> clients_at w' (client_address n) = Some c' \<and>
       records_line ?S ''ann: hi'' c c') \<and>
    (\<forall>b. b \<notin> client_address ` set (members ?r) \<longrightarrow> clients_at w' b = clients_at w b) \<and>
    in_flight w' = in_flight w @ (peer 1, udp_socket_write ?S (''say$ '' @ unwords [''hi'']) (length (unwords [''hi'']) + 6)) #
      map (\<lambda>n. (?S, udp_socket_write (client_address n) (''say$ '' @ ''ann: hi'') 512)) (members ?r) \<and>
    extract_username ''ann: hi'' 20 = client_name (new_client (peer 1) ''ann'' 0)"
    by (rule line_reaches_everybody [OF w(1-3) f c w(7,8), of "[''hi'']"])
       (use w(4-6,9,10) in \<open>auto simp: new_client_def is_word_def NAME_SIZE_def\<close>)
  then obtain w' where w': "(world_step ?S)\<^sup>*\<^sup>* w w'"
    "\<forall>n \<in> set (members ?r). \<exists>c c'. clients_at w (client_address n) = Some c \<and> clients_at w' (client_address n) = Some c' \<and>
       records_line ?S ''ann: hi'' c c'" by blast
  have "clients_at w (peer 2) = Some d" using w(4) by simp
  then have "client_inv d" using ends.reach_inv [OF w(1)] client_proc.reach_inv by (auto simp: ends_reached_def)
  then have "length (messages (view d)) = 100" by (simp add: client_inv_def chat_inv_def MAX_MSGS_def)
  moreover obtain c' d' where "clients_at w' (peer 1) = Some c'" "records_line ?S ''ann: hi'' c c'"
    "clients_at w' (peer 2) = Some d'" "records_line ?S ''ann: hi'' d d'"
    using w'(2) w(4) by (auto simp: new_client_def)
  ultimately show ?thesis
    using w(1,9,10) w'(1) by (intro exI [of _ w] exI [of _ w'] exI [of _ c'] exI [of _ d']) (auto simp: records_line_def)
qed

theorem only_texts_travel_witness:
  "\<exists>w a d. reach world_init (world_step demo_host_address) w \<and> (a, d) \<in> set (in_flight w) \<and>
    (\<forall>buf q e. listener_turn (Received a (wire [] d)) buf q \<noteq> Some (Fault e))"
proof -
  let ?S = demo_host_address
  have "typable ''conn$ ann''" by (simp add: typable_def MAX_LEN_def)
  from newcomer_asks [of demo_world "peer 1" idle_client "''conn$ ann''" "''ann''" ?S] this
    client_proc.reach_inv [OF idle_client_reach]
  obtain w d where w: "(world_step ?S)\<^sup>*\<^sup>* demo_world w" "(peer 1, d) \<in> set (in_flight w)" by fastforce
  note r = reach_trans [OF w(1) demo_world_reach]
  from only_texts_travel [OF r w(2)] r w(2) show ?thesis by blast
qed

end
