(* ===== verification/World_Requests.thy ===== *)
theory World_Requests
  imports World_Chat
begin

text \<open>
  The other requests of a connected user, through the whole world: muting, renaming, leaving, and
  kicking somebody else.
\<close>

section \<open>A request and its answer\<close>

text \<open>
  What a connected user types is served as by the room, and one datagram of the answer that goes to
  this user is executed there.
\<close>

lemma request_served:
  assumes "ends_reached w" and "at_rest (host w)" and "server_rep (srv (sys (host w))) r"
    and "clients_at w a = Some c" and "ready c" and "connected (cli (view c))" and "server_addr (cli (view c)) = S"
    and "typable t" and "t \<notin> {'''', '':q''}" and "length t < 512" and "words_of (remove1 DOLLAR t) \<noteq> []"
    and "room_accepts (text_command t) a r"
  shows "\<exists>w' c'. (world_step S)\<^sup>*\<^sup>* w w' \<and> clients_at w' = (clients_at w)(a \<mapsto> c') \<and>
    view c' = view c \<and> ready c' \<and> client_inv c' \<and>
    at_rest (host w') \<and> server_rep (srv (sys (host w'))) (fst (room_serve now (text_command t) a r)) \<and>
    in_flight w' = in_flight w @ (a, udp_socket_write S t (length t + 1)) # map (Pair S) (snd (room_serve now (text_command t) a r))"
proof -
  have "client_inv c" using assms(1,4) client_proc.reach_inv by (auto simp: ends_reached_def)
  moreover have "process_rep (host w) r"
    using assms(1-3) process.reach_inv by (simp add: ends_reached_def process_rep_def)
  ultimately show ?thesis using text_served [OF _ assms(4) _ assms(5-12)] unfolding process_rep_def by blast
qed

lemma text_answered:
  assumes "ends_reached w" and "at_rest (host w)" and "server_rep (srv (sys (host w))) r"
    and "clients_at w a = Some c" and "ready c" and "connected (cli (view c))" and "server_addr (cli (view c)) = S"
    and "typable t" and "t \<notin> {'''', '':q''}" and "length t < 512" and "words_of (remove1 DOLLAR t) \<noteq> []"
    and "room_accepts (text_command t) a r"
    and "d \<in> set (snd (room_serve now (text_command t) a r))" and "to_addr d = a"
    and "terminated d" and "length (payload d) < 512"
    and "handle_cli_side_cmd demo_junk (take 49 (words_of (remove1 DOLLAR (payload d))))
           ((view c)\<lparr>cli := (cli (view c))\<lparr>responder_addr := S\<rparr>\<rparr>) = Ok (v, out)"
  shows "\<exists>w' c'. (world_step S)\<^sup>*\<^sup>* w w' \<and> at_rest (host w') \<and>
    server_rep (srv (sys (host w'))) (fst (room_serve now (text_command t) a r)) \<and>
    clients_at w' = (clients_at w)(a \<mapsto> c') \<and> ready c' \<and> view c' = v \<and>
    in_flight w' = in_flight w @ (a, udp_socket_write S t (length t + 1)) # map (Pair S) (snd (room_serve now (text_command t) a r))"
proof -
  obtain w1 c1 where w1: "(world_step S)\<^sup>*\<^sup>* w w1" "clients_at w1 = (clients_at w)(a \<mapsto> c1)"
    and c1: "view c1 = view c" "ready c1" "client_inv c1"
    and p: "at_rest (host w1)" "server_rep (srv (sys (host w1))) (fst (room_serve now (text_command t) a r))"
      "in_flight w1 = in_flight w @ (a, udp_socket_write S t (length t + 1)) # map (Pair S) (snd (room_serve now (text_command t) a r))"
    using request_served [OF assms(1-12)] by blast
  have "clients_at w1 a = Some c1" "(S, d) \<in> set (in_flight w1)" using w1(2) p(3) assms(13) by auto
  from hears_and_executes [OF this(1) c1(3,2) this(2) assms(14-16) assms(17) [folded c1(1)]] obtain c2 where
    c2: "(world_step S)\<^sup>*\<^sup>* w1 (w1\<lparr>clients_at := (clients_at w1)(a \<mapsto> c2)\<rparr>)" "view c2 = v" "ready c2" by blast
  from w1(2) p c2(2,3) rtranclp_trans [OF w1(1) c2(1)] show ?thesis
    by (intro exI [of _ "w1\<lparr>clients_at := (clients_at w1)(a \<mapsto> c2)\<rparr>"] exI [of _ c2]) simp
qed

text \<open>A keyword and a word that the server sends back to the user as they came.\<close>

lemma word_echoed:
  assumes "ends_reached w" and "at_rest (host w)" and "server_rep (srv (sys (host w))) r"
    and "clients_at w a = Some c" and "ready c" and "connected (cli (view c))" and "server_addr (cli (view c)) = S"
    and "is_word n" and "NL \<notin> set n" and "length n < 20"
    and "room_accepts \<lparr>kind = k, args = n # replicate (MAX_CMD_SIZE - 1) ''''\<rparr> a r"
    and "snd (room_serve now \<lparr>kind = k, args = n # replicate (MAX_CMD_SIZE - 1) ''''\<rparr> a r) =
      [udp_socket_write a (keyword k @ ''$ '' @ n) MAX_MESSAGE]"
    and "execute_server_command \<lparr>kind = k, args = n # replicate 49 ''''\<rparr>
      ((view c)\<lparr>cli := (cli (view c))\<lparr>responder_addr := S\<rparr>\<rparr>) = Ok (v, out)"
  shows "\<exists>w' c'. (world_step S)\<^sup>*\<^sup>* w w' \<and> at_rest (host w') \<and>
    server_rep (srv (sys (host w'))) (fst (room_serve now \<lparr>kind = k, args = n # replicate (MAX_CMD_SIZE - 1) ''''\<rparr> a r)) \<and>
    clients_at w' = (clients_at w)(a \<mapsto> c') \<and> ready c' \<and> view c' = v \<and>
    in_flight w' = in_flight w @ [(a, udp_socket_write S (keyword k @ ''$ '' @ n) (length (keyword k) + length n + 3)),
      (S, udp_socket_write a (keyword k @ ''$ '' @ n) 256)]"
proof -
  define t where t: "t = keyword k @ ''$ '' @ n"
  have k: "no_nul (keyword k)" "NL \<notin> set (keyword k)" "length (keyword k) \<le> 15" by (cases k; simp)+
  have n: "no_nul n" using assms(8) by (simp add: is_word_def)
  have q: "t \<notin> {'''', '':q''}" by (cases k) (simp_all add: t)
  have tt: "typable t" "length t < 512" "no_nul t" "length t < 256"
    using k n assms(9,10) by (simp_all add: t typable_def MAX_LEN_def)
  note req = word_request [OF assms(8,10), of k, folded t]
  define d where d: "d = udp_socket_write a t MAX_MESSAGE"
  have dd: "to_addr d = a" "payload d = t" "terminated d" using tt(3,4) by (simp_all add: d MAX_MESSAGE_def)
  have h: "handle_cli_side_cmd demo_junk (take 49 (words_of (remove1 DOLLAR (payload d))))
      ((view c)\<lparr>cli := (cli (view c))\<lparr>responder_addr := S\<rparr>\<rparr>) = Ok (v, out)"
    unfolding dd(2) handle_cli_side_cmd_def word_answer [OF assms(8,10) demo_junk_full(1), of k, folded t] by (rule assms(13))
  have len: "length (keyword k) + length n + 3 = length t + 1" by (simp add: t)
  have one: "snd (room_serve now (text_command t) a r) = [d]" using assms(12) unfolding req(1) t [symmetric] d .
  then have "d \<in> set (snd (room_serve now (text_command t) a r))" by simp
  from text_answered [OF assms(1-7) tt(1) q tt(2) req(2) assms(11) [folded req(1)] this dd(1,3) _ h] tt(2) dd(2)
  have "\<exists>w' c'. (world_step S)\<^sup>*\<^sup>* w w' \<and> at_rest (host w') \<and>
    server_rep (srv (sys (host w'))) (fst (room_serve now (text_command t) a r)) \<and>
    clients_at w' = (clients_at w)(a \<mapsto> c') \<and> ready c' \<and> view c' = v \<and>
    in_flight w' = in_flight w @ (a, udp_socket_write S t (length t + 1)) # map (Pair S) [d]"
    unfolding one by simp
  then show ?thesis unfolding req(1) t [symmetric] len d by (simp add: MAX_MESSAGE_def)
qed

section \<open>Muting\<close>

text \<open>
  C7. A user can mute and unmute a name. In every reachable world whose server waits for a
  datagram and represents a room, the user of a connected client at rest types \<open>mute$\<close> or
  \<open>unmute$\<close> and a name of one word of at most 19 characters. There is an execution in which the only
  datagrams anybody sends are this text and the server's echo of it, after
  which that name and no other has become muted, or is so no longer: a redraw prints the recorded
  lines in order but for those of muted senders. The lines themselves and all other clients are as
  they were, and in the room only the sender's activity has changed.
\<close>

theorem user_mutes:
  assumes "reach world_init (world_step S) w" and "at_rest (host w)" and "server_rep (srv (sys (host w))) r"
    and "clients_at w a = Some c" and "ready c" and "connected (cli (view c))" and "server_addr (cli (view c)) = S"
    and "is_word n" and "NL \<notin> set n" and "length n < 20" and "k = MUTE \<or> k = UNMUTE"
  shows "\<exists>w' c'. (world_step S)\<^sup>*\<^sup>* w w' \<and> at_rest (host w') \<and>
    server_rep (srv (sys (host w'))) (r\<lparr>members := touch now a (members r)\<rparr>) \<and>
    in_flight w' = in_flight w @ [(a, udp_socket_write S (keyword k @ ''$ '' @ n) (length (keyword k) + length n + 3)),
      (S, udp_socket_write a (keyword k @ ''$ '' @ n) 256)] \<and>
    clients_at w' = (clients_at w)(a \<mapsto> c') \<and> ready c' \<and>
    messages (view c') = messages (view c) \<and> message_count (view c') = message_count (view c) \<and>
    (\<forall>name. contains (mute_table (cli (view c'))) name \<longleftrightarrow>
       (if name = n then k = MUTE else contains (mute_table (cli (view c))) name)) \<and>
    redraw (view c') = [clear_home, ''Chat Messages:'' @ [NL, NL]] @
      map (\<lambda>l. l @ [NL]) (filter (\<lambda>l. if extract_username l 20 = n then k = UNMUTE
          else \<not> contains (mute_table (cli (view c))) (extract_username l 20))
        (take (message_count (view c)) (messages (view c)))) @
      [NL # rule_line, prompt (cli (view c))]"
proof -
  note ends = ends.reach_inv [OF assms(1)]
  let ?cmd = "\<lparr>kind = k, args = n # replicate (MAX_CMD_SIZE - 1) ''''\<rparr>" and ?m = "mute_table (cli (view c))"
  let ?v = "(view c)\<lparr>cli := (cli (view c))\<lparr>responder_addr := S\<rparr>\<rparr>"
  have "client_inv c" using ends assms(4) client_proc.reach_inv by (auto simp: ends_reached_def)
  then have t: "table_inv ?m" by (simp add: client_inv_def chat_inv_def)
  let ?t = "if k = MUTE then insert_key ?m n else remove_key ?m n"
  let ?u = "?v\<lparr>cli := (cli ?v)\<lparr>mute_table := ?t\<rparr>\<rparr>"
  have r: "fst (room_serve now ?cmd a r) = r\<lparr>members := touch now a (members r)\<rparr>"
    "snd (room_serve now ?cmd a r) = [udp_socket_write a (keyword k @ ''$ '' @ n) MAX_MESSAGE]"
    using assms(10,11) by (auto simp: room_defs mute_def unmute_def arg_def snprintf_def MAX_MESSAGE_def)
  have acc: "room_accepts ?cmd a r" using assms(11) by (auto simp: room_accepts_def)
  have "execute_server_command \<lparr>kind = k, args = n # replicate 49 ''''\<rparr> ?v = Ok (?u, [])"
    using assms(11) by (auto simp: execute_server_command_def mute_exec_def unmute_exec_def)
  from word_echoed [OF ends assms(2-10) acc r(2) this] obtain w' c' where
    w': "(world_step S)\<^sup>*\<^sup>* w w'" "at_rest (host w')"
      "server_rep (srv (sys (host w'))) (r\<lparr>members := touch now a (members r)\<rparr>)"
      "clients_at w' = (clients_at w)(a \<mapsto> c')" "ready c'" "view c' = ?u"
      "in_flight w' = in_flight w @ [(a, udp_socket_write S (keyword k @ ''$ '' @ n) (length (keyword k) + length n + 3)),
        (S, udp_socket_write a (keyword k @ ''$ '' @ n) 256)]"
    unfolding r(1) by blast
  have m: "contains ?t name \<longleftrightarrow> (if name = n then k = MUTE else contains ?m name)" for name
    using mutes.has_add [OF t] mutes.has_del [OF t] assms(11) by auto
  have "redraw ?u = [clear_home, ''Chat Messages:'' @ [NL, NL]] @
      map (\<lambda>l. l @ [NL]) (filter (\<lambda>l. \<not> contains ?t (extract_username l 20)) (take (message_count (view c)) (messages (view c)))) @
      [NL # rule_line, prompt (cli (view c))]"
    by (simp add: redraw_def display_loop_eq NAME_SIZE_def prompt_def)
  moreover have "(\<not> contains ?t name) = (if name = n then k = UNMUTE else \<not> contains ?m name)" for name
    using m assms(11) by auto
  ultimately show ?thesis using w' m by (intro exI [of _ w'] exI [of _ c']) simp
qed

theorem user_mutes_witness:
  "\<exists>w w' c'. reach world_init (world_step demo_host_address) w \<and> (world_step demo_host_address)\<^sup>*\<^sup>* w w' \<and>
    in_flight w' = in_flight w @ [(peer 1, udp_socket_write demo_host_address ''mute$ bob'' 10),
      (demo_host_address, udp_socket_write (peer 1) ''mute$ bob'' 256)] \<and>
    clients_at w' (peer 1) = Some c' \<and> contains (mute_table (cli (view c'))) ''bob''"
proof -
  let ?S = demo_host_address
  obtain w c d where w: "reach world_init (world_step ?S) w" "at_rest (host w)"
    "server_rep (srv (sys (host w))) \<lparr>members = [new_client (peer 1) ''ann'' 0, new_client (peer 2) ''bob'' 0], log = []\<rparr>"
    "clients_at w (peer 1) = Some c" "ready c" "connected (cli (view c))" "server_addr (cli (view c)) = ?S"
    by (rule demo_world_joined) auto
  obtain w' c' where "(world_step ?S)\<^sup>*\<^sup>* w w'"
    "in_flight w' = in_flight w @ [(peer 1, udp_socket_write ?S (keyword MUTE @ ''$ '' @ ''bob'') (length (keyword MUTE) + length ''bob'' + 3)),
      (?S, udp_socket_write (peer 1) (keyword MUTE @ ''$ '' @ ''bob'') 256)]"
    "clients_at w' = (clients_at w)(peer 1 \<mapsto> c')" "contains (mute_table (cli (view c'))) ''bob''"
    using user_mutes [OF w, of "''bob''" MUTE] by (fastforce simp: is_word_def simp del: keyword.simps)
  then show ?thesis using w(1) by (intro exI [of _ w] exI [of _ w'] exI [of _ c']) (simp add: eval_nat_numeral)
qed

section \<open>Renaming and leaving\<close>

text \<open>A member split off the list by its address.\<close>

lemma touch_member:
  assumes "cs = xs @ m # ys" and "client_address m = a" and "a \<notin> client_address ` set xs"
  shows "touch now a cs = xs @ m\<lparr>last_active := now, ping_sent := 0\<rparr> # ys"
    and "update_first (by_address a) f cs = xs @ f m # ys"
    and "find (by_address a) cs = Some m"
  unfolding assms(1) using assms(2,3) by (induction xs) (auto simp: by_address_def)

lemma drop_member:
  assumes "client_name m \<notin> client_name ` set xs"
  shows "drop_named (client_name m) (xs @ m # ys) = xs @ ys"
    and "find (by_name (client_name m)) (xs @ m # ys) = Some m"
  using assms by (induction xs) (auto simp: by_name_def)

text \<open>
  C9. A member can take another name. In every reachable world whose server waits for a datagram and
  represents a room, the user of a member's connected client at rest types \<open>rename$\<close> and a name of one
  word of at most 19 characters, and no earlier member has this client's address. If nothing is lost both sides agree
  afterwards: there is an execution in which the only datagrams anybody sends are this text and the server's echo
  of it, and after which the room's member and the client have that name, and nothing else has
  changed but the member's activity and the responder address that every datagram sets.
\<close>

theorem user_renames:
  assumes "reach world_init (world_step S) w" and "at_rest (host w)" and "server_rep (srv (sys (host w))) r"
    and "clients_at w a = Some c" and "ready c" and "connected (cli (view c))" and "server_addr (cli (view c)) = S"
    and "is_word n" and "NL \<notin> set n" and "length n < 20"
    and "members r = xs @ m # ys" and "client_address m = a" and "a \<notin> client_address ` set xs"
  shows "\<exists>w' c'. (world_step S)\<^sup>*\<^sup>* w w' \<and> at_rest (host w') \<and>
    server_rep (srv (sys (host w'))) (r\<lparr>members := xs @ m\<lparr>client_name := n, last_active := now, ping_sent := 0\<rparr> # ys\<rparr>) \<and>
    in_flight w' = in_flight w @ [(a, udp_socket_write S (''rename$ '' @ n) (length n + 9)),
      (S, udp_socket_write a (''rename$ '' @ n) 256)] \<and>
    clients_at w' = (clients_at w)(a \<mapsto> c') \<and> ready c' \<and>
    view c' = (view c)\<lparr>cli := (cli (view c))\<lparr>responder_addr := S, cname := n\<rparr>\<rparr>"
proof -
  let ?cmd = "\<lparr>kind = RENAME, args = n # replicate (MAX_CMD_SIZE - 1) ''''\<rparr>"
  let ?v = "(view c)\<lparr>cli := (cli (view c))\<lparr>responder_addr := S\<rparr>\<rparr>"
  let ?r = "r\<lparr>members := xs @ m\<lparr>client_name := n, last_active := now, ping_sent := 0\<rparr> # ys\<rparr>"
  note t = touch_member(1) [OF assms(11-13), of now]
  have r: "fst (room_serve now ?cmd a r) = ?r"
    "snd (room_serve now ?cmd a r) = [udp_socket_write a (keyword RENAME @ ''$ '' @ n) MAX_MESSAGE]"
    using assms(10,12,13) touch_member(2) [OF refl, of "m\<lparr>last_active := now, ping_sent := 0\<rparr>" a xs]
    by (simp_all add: room_defs t rename_reply_def arg_def snprintf_def MAX_MESSAGE_def)
  have acc: "room_accepts ?cmd a r" using assms(11,12) by (auto simp: room_accepts_def by_address_def)
  have "execute_server_command \<lparr>kind = RENAME, args = n # replicate 49 ''''\<rparr> ?v =
      Ok (?v\<lparr>cli := (cli ?v)\<lparr>cname := n\<rparr>\<rparr>, [''Successfully renamed as: '' @ n @ [NL]])"
    using assms(10) by (simp add: execute_server_command_def rename_exec_def strcpy_def NAME_SIZE_def)
  from word_echoed [OF ends.reach_inv [OF assms(1)] assms(2-10) acc r(2) this] obtain w' c' where
    "(world_step S)\<^sup>*\<^sup>* w w'" "at_rest (host w')" "server_rep (srv (sys (host w'))) ?r"
      "clients_at w' = (clients_at w)(a \<mapsto> c')" "ready c'" "view c' = ?v\<lparr>cli := (cli ?v)\<lparr>cname := n\<rparr>\<rparr>"
      "in_flight w' = in_flight w @ [(a, udp_socket_write S (keyword RENAME @ ''$ '' @ n) (length (keyword RENAME) + length n + 3)),
        (S, udp_socket_write a (keyword RENAME @ ''$ '' @ n) 256)]"
    unfolding r(1) by blast
  then show ?thesis by (intro exI [of _ w'] exI [of _ c']) (simp add: eval_nat_numeral)
qed

theorem user_renames_witness:
  "\<exists>w w' c'. reach world_init (world_step demo_host_address) w \<and> (world_step demo_host_address)\<^sup>*\<^sup>* w w' \<and>
    server_rep (srv (sys (host w'))) \<lparr>members = [new_client (peer 1) ''ann'' 0, new_client (peer 2) ''eve'' 5], log = []\<rparr> \<and>
    clients_at w' (peer 2) = Some c' \<and> cname (cli (view c')) = ''eve''"
proof -
  obtain w c d where w: "reach world_init (world_step demo_host_address) w" "at_rest (host w)"
    "server_rep (srv (sys (host w))) (\<lparr>members = [new_client (peer 1) ''ann'' 0, new_client (peer 2) ''bob'' 0], log = []\<rparr>)"
    "clients_at w (peer 2) = Some d" "ready d" "connected (cli (view d))" "server_addr (cli (view d)) = demo_host_address"
    by (rule demo_world_joined) auto
  obtain w' c' where "(world_step demo_host_address)\<^sup>*\<^sup>* w w'" "clients_at w' = (clients_at w)(peer 2 \<mapsto> c')"
    "view c' = (view d)\<lparr>cli := (cli (view d))\<lparr>responder_addr := demo_host_address, cname := ''eve''\<rparr>\<rparr>"
    "server_rep (srv (sys (host w'))) \<lparr>members = [new_client (peer 1) ''ann'' 0, new_client (peer 2) ''eve'' 5], log = []\<rparr>"
    using user_renames [OF w, of "''eve''" "[new_client (peer 1) ''ann'' 0]" "new_client (peer 2) ''bob'' 0" "[]" 5]
    by (auto simp: is_word_def new_client_def NAME_SIZE_def)
  then show ?thesis using w(1) by (intro exI [of _ w] exI [of _ w'] exI [of _ c']) simp
qed

text \<open>
  C8. A member can leave. In every reachable world whose server waits for a datagram and represents a
  room, the user of a member's connected client at rest types \<open>disconn$\<close>, and no earlier member has this client's
  address or the member's name. There is an execution in which the only datagrams anybody sends are
  this text and the disconnect reply to it, after which just this member is gone from the room, and the client
  knows that it is not connected and has no lines any more; it is at rest, so it can join again. All other clients
  are as they were.
\<close>

theorem user_leaves:
  assumes "reach world_init (world_step S) w" and "at_rest (host w)" and "server_rep (srv (sys (host w))) r"
    and "clients_at w a = Some c" and "ready c" and "connected (cli (view c))" and "server_addr (cli (view c)) = S"
    and "members r = xs @ m # ys" and "client_address m = a" and "a \<notin> client_address ` set xs"
    and "client_name m \<notin> client_name ` set xs"
  shows "\<exists>w' c'. (world_step S)\<^sup>*\<^sup>* w w' \<and> at_rest (host w') \<and>
    server_rep (srv (sys (host w'))) (r\<lparr>members := xs @ ys\<rparr>) \<and>
    in_flight w' = in_flight w @ [(a, udp_socket_write S ''disconn$'' 9), (S, udp_socket_write a ''disconnresponse$'' 256)] \<and>
    clients_at w' = (clients_at w)(a \<mapsto> c') \<and> ready c' \<and>
    view c' = (view c)\<lparr>cli := (cli (view c))\<lparr>responder_addr := S, connected := False\<rparr>, message_count := 0\<rparr>"
proof -
  define t where t: "t = ''disconn$''"
  let ?v = "(view c)\<lparr>cli := (cli (view c))\<lparr>responder_addr := S\<rparr>\<rparr>" and ?m = "m\<lparr>last_active := 0, ping_sent := 0\<rparr>"
  define d where d: "d = udp_socket_write a ''disconnresponse$'' MAX_MESSAGE"
  have w: "words_of (remove1 DOLLAR t) = [''disconn'']" using message_words(2) [OF keyword_word, of DISCONN] by (simp add: t)
  then have k: "kind (text_command t) = DISCONN" by (simp add: text_command_def request_of_def kind_of_token_def MAX_COMMAND_LEN_def)
  have mem: "members (room_touch 0 (text_command t) a r) = xs @ ?m # ys"
    using touch_member(1) [OF assms(8-10)] k by (simp add: room_touch_def)
  have f: "find (by_address a) (xs @ ?m # ys) = Some ?m" by (rule touch_member(3)) (use assms(9,10) in simp_all)
  have r: "fst (room_serve 0 (text_command t) a r) = r\<lparr>members := xs @ ys\<rparr>"
    "snd (room_serve 0 (text_command t) a r) = [d]"
    using drop_member [of ?m xs ys] assms(9,11) f mem k
    by (simp_all add: d room_serve_def room_handle_def room_disconnect_def disconnect_reply_def snprintf_def MAX_MESSAGE_def)
       (simp add: room_touch_def)
  have h: "handle_cli_side_cmd demo_junk (take 49 (words_of (remove1 DOLLAR (payload d)))) ?v =
      Ok (?v\<lparr>cli := (cli ?v)\<lparr>connected := False\<rparr>, message_count := 0\<rparr>, [''Disconnected from server.'' @ [NL]])"
    using dismissal_handled [OF demo_junk_full(1)] by (simp add: d MAX_MESSAGE_def)
  have acc: "room_accepts (text_command t) a r" "typable t" "t \<notin> {'''', '':q''}" "length t < 512"
    using k by (simp_all add: room_accepts_def) (simp_all add: t typable_def MAX_LEN_def)
  have dd: "to_addr d = a" "terminated d" "length (payload d) < 512" by (simp_all add: d MAX_MESSAGE_def)
  have ne: "words_of (remove1 DOLLAR t) \<noteq> []" "length t + 1 = 9" using w by (simp_all, simp add: t)
  have "d \<in> set (snd (room_serve 0 (text_command t) a r))" by (simp add: r(2))
  note answered = text_answered [OF ends.reach_inv [OF assms(1)] assms(2-7) acc(2-4) ne(1) acc(1) this dd h]
  have "\<exists>w' c'. (world_step S)\<^sup>*\<^sup>* w w' \<and> at_rest (host w') \<and> server_rep (srv (sys (host w'))) (r\<lparr>members := xs @ ys\<rparr>) \<and>
    clients_at w' = (clients_at w)(a \<mapsto> c') \<and> ready c' \<and>
    view c' = ?v\<lparr>cli := (cli ?v)\<lparr>connected := False\<rparr>, message_count := 0\<rparr> \<and>
    in_flight w' = in_flight w @ (a, udp_socket_write S t 9) # map (Pair S) [d]"
    using answered unfolding r ne(2) by blast
  then show ?thesis unfolding t d by (simp add: MAX_MESSAGE_def) blast
qed

theorem user_leaves_witness:
  "\<exists>w w' c'. reach world_init (world_step demo_host_address) w \<and> (world_step demo_host_address)\<^sup>*\<^sup>* w w' \<and>
    server_rep (srv (sys (host w'))) \<lparr>members = [new_client (peer 1) ''ann'' 0], log = []\<rparr> \<and>
    clients_at w' (peer 2) = Some c' \<and> \<not> connected (cli (view c'))"
proof -
  obtain w c d where w: "reach world_init (world_step demo_host_address) w" "at_rest (host w)"
    "server_rep (srv (sys (host w))) (\<lparr>members = [new_client (peer 1) ''ann'' 0, new_client (peer 2) ''bob'' 0], log = []\<rparr>)"
    "clients_at w (peer 2) = Some d" "ready d" "connected (cli (view d))" "server_addr (cli (view d)) = demo_host_address"
    by (rule demo_world_joined) auto
  obtain w' c' where "(world_step demo_host_address)\<^sup>*\<^sup>* w w'" "clients_at w' = (clients_at w)(peer 2 \<mapsto> c')"
    "view c' = (view d)\<lparr>cli := (cli (view d))\<lparr>responder_addr := demo_host_address, connected := False\<rparr>, message_count := 0\<rparr>"
    "server_rep (srv (sys (host w'))) \<lparr>members = [new_client (peer 1) ''ann'' 0], log = []\<rparr>"
    using user_leaves [OF w, of "[new_client (peer 1) ''ann'' 0]" "new_client (peer 2) ''bob'' 0" "[]"]
    by (auto simp: new_client_def NAME_SIZE_def)
  then show ?thesis using w(1) by (intro exI [of _ w] exI [of _ w'] exI [of _ c']) simp
qed

section \<open>Kicking\<close>

text \<open>What the room does with a kick that is allowed and finds its victim.\<close>

lemma kick_request:
  assumes "is_word n" and "length n < 20" and "t = ''kick$ '' @ n" and "members r = h # xs @ m # ys" and "client_address h = a"
    and "client_name m = n" and "n \<notin> client_name ` set (h # xs)"
  shows "room_accepts (text_command t) a r"
    and "fst (room_serve 0 (text_command t) a r) = r\<lparr>members := h\<lparr>last_active := 0, ping_sent := 0\<rparr> # xs @ ys\<rparr>"
    and "udp_socket_write (client_address m) ''disconnresponse$'' MAX_MESSAGE \<in> set (snd (room_serve 0 (text_command t) a r))"
    and "\<forall>u \<in> set (h # xs @ ys). udp_socket_write (client_address u) (''say$ SERVER: '' @ n @ '' has been kicked'') 512
      \<in> set (snd (room_serve 0 (text_command t) a r))"
proof -
  let ?h = "h\<lparr>last_active := 0, ping_sent := 0\<rparr>"
  have cmd: "text_command t = \<lparr>kind = KICK, args = n # replicate (MAX_CMD_SIZE - 1) ''''\<rparr>"
    using word_request [OF assms(1,2), of KICK] by (simp add: assms(3))
  show "room_accepts (text_command t) a r" by (simp add: cmd room_accepts_def)
  have mem: "members (room_touch 0 (text_command t) a r) = ?h # xs @ m # ys" "room_touch 0 (text_command t) a r = r\<lparr>members := ?h # xs @ m # ys\<rparr>"
    using assms(4,5) by (simp_all add: cmd room_touch_def)
  have d: "drop_named n (?h # xs @ m # ys) = ?h # xs @ ys" "find (by_name n) (?h # xs @ m # ys) = Some m"
    using drop_member [of m "?h # xs" ys] assms(6,7) by (simp_all add: by_name_def)
  have s: "snprintf RESPONSE_BUFFER_SIZE (''say$ SERVER: '' @ n @ '' has been kicked'') = ''say$ SERVER: '' @ n @ '' has been kicked''"
    "snprintf MAX_MESSAGE ''disconnresponse$'' = ''disconnresponse$''"
    using assms(2) by (simp_all add: snprintf_def RESPONSE_BUFFER_SIZE_def MAX_MESSAGE_def)
  have k: "room_serve 0 (text_command t) a r = room_kick (text_command t) a (r\<lparr>members := ?h # xs @ m # ys\<rparr>)"
    unfolding room_serve_def mem(2) by (simp add: room_handle_def cmd)
  have e: "room_serve 0 (text_command t) a r = (r\<lparr>members := ?h # xs @ ys\<rparr>,
      udp_socket_write (client_address m) ''disconnresponse$'' MAX_MESSAGE #
      to_all (''say$ SERVER: '' @ n @ '' has been kicked'') (?h # xs @ ys))"
    unfolding k room_kick_def using d s assms(5) by (simp add: cmd arg_def Let_def disconnect_reply_def)
  show "fst (room_serve 0 (text_command t) a r) = r\<lparr>members := ?h # xs @ ys\<rparr>"
    "udp_socket_write (client_address m) ''disconnresponse$'' MAX_MESSAGE \<in> set (snd (room_serve 0 (text_command t) a r))"
    unfolding e by simp_all
  show "\<forall>u \<in> set (h # xs @ ys). udp_socket_write (client_address u) (''say$ SERVER: '' @ n @ '' has been kicked'') 512
      \<in> set (snd (room_serve 0 (text_command t) a r))"
    unfolding e by (auto simp: to_all_def RESPONSE_BUFFER_SIZE_def MAX_MESSAGE_def)
qed

text \<open>One client is dismissed, and the others record a line.\<close>

lemma dismissal_and_line:
  assumes "clients_at w b = Some cb" and "client_inv cb" and "ready cb" and "b \<notin> client_address ` set ms"
    and "(S, udp_socket_write b ''disconnresponse$'' MAX_MESSAGE) \<in> set (in_flight w)"
    and "\<forall>u \<in> set us. is_word u \<and> length u < 20" and "length us \<le> 48" and "length (unwords us) < 300"
    and "\<forall>u \<in> set ms. (S, udp_socket_write (client_address u) (''say$ '' @ unwords us) 512) \<in> set (in_flight w)"
    and "\<forall>u \<in> set ms. \<exists>c. clients_at w (client_address u) = Some c \<and> client_inv c \<and> ready c \<and> message_count (view c) < 100"
  shows "\<exists>w' cb'. (world_step S)\<^sup>*\<^sup>* w w' \<and> host w' = host w \<and> in_flight w' = in_flight w \<and>
    clients_at w' b = Some cb' \<and> ready cb' \<and>
    view cb' = (view cb)\<lparr>cli := (cli (view cb))\<lparr>responder_addr := S, connected := False\<rparr>, message_count := 0\<rparr> \<and>
    (\<forall>u \<in> set ms. \<exists>c c'. clients_at w (client_address u) = Some c \<and> clients_at w' (client_address u) = Some c' \<and>
       records_line S (unwords us) c c')"
proof -
  define d where d: "d = udp_socket_write b ''disconnresponse$'' MAX_MESSAGE"
  have dd: "to_addr d = b" "terminated d" "payload d = ''disconnresponse$''" by (simp_all add: d MAX_MESSAGE_def)
  from hears_and_executes [OF assms(1-3) assms(5) [folded d] dd(1,2)] dismissal_handled [OF demo_junk_full(1)] obtain cb' where
    cb': "(world_step S)\<^sup>*\<^sup>* w (w\<lparr>clients_at := (clients_at w)(b \<mapsto> cb')\<rparr>)" "ready cb'"
      "view cb' = (view cb)\<lparr>cli := (cli (view cb))\<lparr>responder_addr := S, connected := False\<rparr>, message_count := 0\<rparr>"
    unfolding dd(3) by fastforce
  let ?w = "w\<lparr>clients_at := (clients_at w)(b \<mapsto> cb')\<rparr>"
  have far: "clients_at ?w (client_address u) = clients_at w (client_address u)" if "u \<in> set ms" for u
    using imageI [OF that, of client_address] assms(4) by auto
  with assms(10) have "\<forall>u \<in> set ms. \<exists>c. clients_at ?w (client_address u) = Some c \<and> client_inv c \<and> ready c \<and> message_count (view c) < 100"
    by simp
  from members_hear [OF assms(6-8) _ this, of S] assms(4,9) obtain w' where w': "(world_step S)\<^sup>*\<^sup>* ?w w'"
    "host w' = host w" "in_flight w' = in_flight w" "clients_at w' b = Some cb'"
    "\<forall>u \<in> set ms. \<exists>c c'. clients_at ?w (client_address u) = Some c \<and> clients_at w' (client_address u) = Some c' \<and>
      records_line S (unwords us) c c'" by auto
  with far cb'(2,3) rtranclp_trans [OF cb'(1) w'(1)] show ?thesis by (intro exI [of _ w'] exI [of _ cb']) simp
qed

text \<open>
  C6. A kick reaches everybody. The first on the list types \<open>kick$\<close> and a name of one word of at most 19
  characters, and the first member of that name is somebody else, whose address nobody shares.
  If all their clients are at rest and those that stay have room for a line, there is an
  execution in which exactly that text is sent, and after which just this member is gone from the
  room, its client knows that it is not connected and has no lines any more, and every other
  member's client has recorded that the name has been kicked.
\<close>

theorem admin_kicks:
  assumes "reach world_init (world_step S) w" and "at_rest (host w)" and "server_rep (srv (sys (host w))) r"
    and "clients_at w a = Some c" and "connected (cli (view c))" and "server_addr (cli (view c)) = S"
    and "is_word n" and "NL \<notin> set n" and "length n < 20"
    and "members r = h # xs @ m # ys" and "client_address h = a"
    and "client_name m = n" and "n \<notin> client_name ` set (h # xs)"
    and "clients_at w (client_address m) = Some cm" and "ready cm"
    and "client_address m \<notin> client_address ` set (h # xs @ ys)"
    and "\<forall>u \<in> set (h # xs @ ys). \<exists>c. clients_at w (client_address u) = Some c \<and> ready c \<and> message_count (view c) < 100"
  shows "\<exists>w' cm'. (world_step S)\<^sup>*\<^sup>* w w' \<and> at_rest (host w') \<and>
    server_rep (srv (sys (host w'))) (r\<lparr>members := h\<lparr>last_active := 0, ping_sent := 0\<rparr> # xs @ ys\<rparr>) \<and>
    (a, udp_socket_write S (''kick$ '' @ n) (length n + 7)) \<in> set (in_flight w') \<and>
    clients_at w' (client_address m) = Some cm' \<and> ready cm' \<and>
    view cm' = (view cm)\<lparr>cli := (cli (view cm))\<lparr>responder_addr := S, connected := False\<rparr>, message_count := 0\<rparr> \<and>
    (\<forall>u \<in> set (h # xs @ ys). \<exists>c c'. clients_at w (client_address u) = Some c \<and> clients_at w' (client_address u) = Some c' \<and>
       records_line S (''SERVER: '' @ n @ '' has been kicked'') c c')"
proof -
  let ?b = "client_address m" and ?ms = "h # xs @ ys" and ?line = "''SERVER: '' @ n @ '' has been kicked''"
  let ?r = "r\<lparr>members := h\<lparr>last_active := 0, ping_sent := 0\<rparr> # xs @ ys\<rparr>"
  define t where t: "t = ''kick$ '' @ n"
  note ends = ends.reach_inv [OF assms(1)]
  have inv: "\<forall>b c. clients_at w b = Some c \<longrightarrow> client_inv c"
    using ends client_proc.reach_inv by (auto simp: ends_reached_def)
  have rc: "ready c" using assms(4,11,17) by auto
  have n: "no_nul n" using assms(7) by (simp add: is_word_def)
  have tt: "typable t" "t \<notin> {'''', '':q''}" "length t < 512" using n assms(8,9) by (simp_all add: t typable_def MAX_LEN_def)
  note kick = kick_request [OF assms(7,9) t assms(10-13)]
  have tw: "words_of (remove1 DOLLAR t) \<noteq> []" using word_request(2) [OF assms(7,9), of KICK] by (simp add: t)
  obtain w1 c1 where w1: "(world_step S)\<^sup>*\<^sup>* w w1" "clients_at w1 = (clients_at w)(a \<mapsto> c1)"
    and c1: "view c1 = view c" "ready c1" "client_inv c1" and p: "at_rest (host w1)" "server_rep (srv (sys (host w1))) ?r"
      "Pair S ` set (snd (room_serve 0 (text_command t) a r)) \<subseteq> set (in_flight w1)"
      "(a, udp_socket_write S t (length t + 1)) \<in> set (in_flight w1)"
    using request_served [OF ends assms(2-4) rc assms(5,6) tt tw kick(1), of 0] unfolding kick(2)
    by (elim exE conjE) (rule that, auto)
  have b: "clients_at w1 ?b = Some cm" "client_inv cm" using w1(2) assms(11,14,16) inv by auto
  let ?us = "[''SERVER:'', n, ''has'', ''been'', ''kicked'']"
  have us: "\<forall>u \<in> set ?us. is_word u \<and> length u < 20" "length ?us \<le> 48" "unwords ?us = ?line" "length (unwords ?us) < 300"
    using assms(7,9) by (auto simp: is_word_def)
  note at = members_listen [OF assms(4) c1 w1(2) assms(17) inv]
  have "(S, udp_socket_write ?b ''disconnresponse$'' MAX_MESSAGE) \<in> set (in_flight w1)"
    "\<forall>u \<in> set ?ms. (S, udp_socket_write (client_address u) (''say$ '' @ unwords ?us) 512) \<in> set (in_flight w1)"
    using kick(3,4) p(3) unfolding us(3) by auto
  from dismissal_and_line [OF b assms(15,16) this(1) us(1,2,4) this(2) at(1)] obtain w' cm' where
    w': "(world_step S)\<^sup>*\<^sup>* w1 w'" "host w' = host w1" "in_flight w' = in_flight w1" "clients_at w' ?b = Some cm'" "ready cm'"
      "view cm' = (view cm)\<lparr>cli := (cli (view cm))\<lparr>responder_addr := S, connected := False\<rparr>, message_count := 0\<rparr>"
    and all: "\<forall>u \<in> set ?ms. \<exists>c c'. clients_at w1 (client_address u) = Some c \<and> clients_at w' (client_address u) = Some c' \<and>
      records_line S ?line c c'" unfolding us(3) by blast
  have len: "length n + 7 = length t + 1" by (simp add: t)
  have "(a, udp_socket_write S (''kick$ '' @ n) (length n + 7)) \<in> set (in_flight w')"
    unfolding t [symmetric] len w'(3) by (rule p(4))
  with rtranclp_trans [OF w1(1) w'(1)] p(1,2) w'(2,4-6) at(2) [OF all] show ?thesis
    by (intro exI [of _ w'] exI [of _ cm'] conjI) simp_all
qed

theorem admin_kicks_witness:
  "\<exists>w w' c' d'. reach world_init (world_step demo_host_address) w \<and> (world_step demo_host_address)\<^sup>*\<^sup>* w w' \<and>
    server_rep (srv (sys (host w'))) \<lparr>members = [new_client (peer 1) ''ann'' 0], log = []\<rparr> \<and>
    clients_at w' (peer 2) = Some d' \<and> \<not> connected (cli (view d')) \<and>
    clients_at w' (peer 1) = Some c' \<and> message_count (view c') = 1"
proof -
  obtain w c d where w: "reach world_init (world_step demo_host_address) w" "at_rest (host w)"
    "server_rep (srv (sys (host w))) (\<lparr>members = [new_client (peer 1) ''ann'' 0, new_client (peer 2) ''bob'' 0], log = []\<rparr>)"
    "clients_at w (peer 1) = Some c" "connected (cli (view c))" "server_addr (cli (view c)) = demo_host_address"
    and d: "clients_at w (peer 2) = Some d" "ready d" and c: "ready c" "message_count (view c) = 0"
    by (rule demo_world_joined) auto
  have n: "new_client (peer 1) ''ann'' 0 = \<lparr>client_address = peer 1, client_name = ''ann'', last_active = 0, ping_sent = 0\<rparr>"
    "new_client (peer 2) ''bob'' 0 = \<lparr>client_address = peer 2, client_name = ''bob'', last_active = 0, ping_sent = 0\<rparr>"
    by (simp_all add: new_client_def NAME_SIZE_def)
  obtain w' d' c0 c' where "(world_step demo_host_address)\<^sup>*\<^sup>* w w'" "clients_at w' (peer 2) = Some d'"
    "view d' = (view d)\<lparr>cli := (cli (view d))\<lparr>responder_addr := demo_host_address, connected := False\<rparr>, message_count := 0\<rparr>"
    "server_rep (srv (sys (host w'))) \<lparr>members = [new_client (peer 1) ''ann'' 0], log = []\<rparr>"
    "clients_at w (peer 1) = Some c0" "clients_at w' (peer 1) = Some c'"
    "records_line demo_host_address ''SERVER: bob has been kicked'' c0 c'"
    using admin_kicks [OF w, of "''bob''" "new_client (peer 1) ''ann'' 0" "[]" "new_client (peer 2) ''bob'' 0" "[]" d] w(4) c d
    by (auto simp: is_word_def n)
  then show ?thesis
    using w(1,4) c(2) by (intro exI [of _ w] exI [of _ w'] exI [of _ c'] exI [of _ d']) (auto simp: records_line_def)
qed

end
