(* ===== verification/Client_Session.thy ===== *)
theory Client_Session
  imports World_Chat
begin

text \<open>
  The client process against what its user is to see: the recorded lines, the hidden names, whether
  the client is connected and under which name. A post is one of the server's texts in a
  datagram; the whole process, from the listener to the handler thread, has an execution that follows any
  sequence of posts as this view of the chat does, and prints just what belongs to it.
\<close>

section \<open>The view and the server's texts\<close>

record chat_view =
  lines :: "string list"
  hidden :: "string set"
  online :: bool
  nick :: string

definition view_of :: "chat \<Rightarrow> chat_view" where
  "view_of v = \<lparr>lines = recorded v, hidden = {n. contains (mute_table (cli v)) n},
     online = connected (cli v), nick = cname (cli v)\<rparr>"

datatype server_text =
    Line "string list"
  | Error_Text "string list"
  | Welcome string
  | Mute_Echo string
  | Unmute_Echo string
  | Rename_Echo string
  | Dismissal
  | Ping_Text

fun text_of :: "server_text \<Rightarrow> string" where
  "text_of (Line ws) = ''say$ '' @ unwords ws"
| "text_of (Error_Text ws) = ''error$ '' @ unwords ws"
| "text_of (Welcome n) = ''connsuccess$ '' @ n"
| "text_of (Mute_Echo n) = ''mute$ '' @ n"
| "text_of (Unmute_Echo n) = ''unmute$ '' @ n"
| "text_of (Rename_Echo n) = ''rename$ '' @ n"
| "text_of Dismissal = ''disconnresponse$''"
| "text_of Ping_Text = ''ping$''"

text \<open>The prompt shows the name only while connected; the answer to a ping always does.\<close>

definition prompt_of :: "chat_view \<Rightarrow> string" where
  "prompt_of a = (if online a then ''['' @ nick a @ ''] > '' else ''[Not connected] > '')"

text \<open>What the view becomes, and what is printed at once; lines are not printed before the next redraw.\<close>

fun follow :: "server_text \<Rightarrow> chat_view \<Rightarrow> chat_view \<times> string list" where
  "follow (Line ws) a = (a\<lparr>lines := lines a @ [unwords ws]\<rparr>, [])"
| "follow (Error_Text ws) a = (a, [''Error from server: '' @ unwords ws @ [NL], prompt_of a])"
| "follow (Welcome n) a = (a\<lparr>online := True, nick := n\<rparr>, [''Successfully connected as: '' @ n @ [NL]])"
| "follow (Mute_Echo n) a = (a\<lparr>hidden := insert n (hidden a)\<rparr>, [])"
| "follow (Unmute_Echo n) a = (a\<lparr>hidden := hidden a - {n}\<rparr>, [])"
| "follow (Rename_Echo n) a = (a\<lparr>nick := n\<rparr>, [''Successfully renamed as: '' @ n @ [NL]])"
| "follow Dismissal a = (a\<lparr>online := False, lines := []\<rparr>, [''Disconnected from server.'' @ [NL]])"
| "follow Ping_Text a = (a, [NL # ''[SERVER] Ping received! Type '' @ [CHR 0x27] @ ''retping$'' @ [CHR 0x27] @
     '' to stay connected.'' @ [NL], ''['' @ nick a @ ''] > ''])"

text \<open>What the screen shows after a redraw.\<close>

definition drawing :: "chat_view \<Rightarrow> string list" where
  "drawing a = [clear_home, ''Chat Messages:'' @ [NL, NL]] @
     map (\<lambda>l. l @ [NL]) (filter (\<lambda>l. extract_username l 20 \<notin> hidden a) (lines a)) @ [NL # rule_line, prompt_of a]"

text \<open>Words and names that the handler takes whole; a line needs a free row.\<close>

definition words_fit :: "string list \<Rightarrow> bool" where
  "words_fit ws \<longleftrightarrow> (\<forall>w \<in> set ws. is_word w \<and> length w < 20) \<and> length ws \<le> 48 \<and> length (unwords ws) < 300"

fun acceptable :: "server_text \<Rightarrow> chat_view \<Rightarrow> bool" where
  "acceptable (Line ws) a = (words_fit ws \<and> length (lines a) < 100)"
| "acceptable (Error_Text ws) a = words_fit ws"
| "acceptable (Welcome n) a = (is_word n \<and> length n < 20)"
| "acceptable (Mute_Echo n) a = (is_word n \<and> length n < 20)"
| "acceptable (Unmute_Echo n) a = (is_word n \<and> length n < 20)"
| "acceptable (Rename_Echo n) a = (is_word n \<and> length n < 20)"
| "acceptable Dismissal a = True"
| "acceptable Ping_Text a = True"

section \<open>The handlers follow the view\<close>

lemma text_of_plain: "acceptable m a \<Longrightarrow> no_nul (text_of m) \<and> length (text_of m) < 512"
  by (cases m) (auto simp: words_fit_def no_nul_unwords is_word_def)

lemma ping_handled:
  assumes "well_formed_command junk"
  shows "handle_cli_side_cmd junk (take 49 (words_of (remove1 DOLLAR ''ping$''))) v = execute_ping v"
  using message_words(2) [OF keyword_word, of PING] assms
  by (simp add: handle_cli_side_cmd_def command_handler_closed kind_of_token_def execute_server_command_def
      well_formed_command_def MAX_CMD_SIZE_def)

lemma echo_handled:
  assumes "is_word n" and "length n < 20"
  shows "handle_cli_side_cmd demo_junk (take 49 (words_of (remove1 DOLLAR (keyword k @ ''$ '' @ n)))) v =
    execute_server_command \<lparr>kind = k, args = n # replicate 49 ''''\<rparr> v"
  unfolding handle_cli_side_cmd_def word_answer [OF assms demo_junk_full(1)] by (rule refl)

lemma recorded_more:
  "message_count v < length (messages v) \<Longrightarrow>
   recorded (v\<lparr>messages := (messages v)[message_count v := t], message_count := Suc (message_count v)\<rparr>) = recorded v @ [t]"
  by (simp add: recorded_def take_Suc_conv_app_nth)

lemma text_followed:
  assumes "acceptable m (view_of v)" and "length (messages v) = 100" and "message_count v \<le> 100" and "table_inv (mute_table (cli v))"
  shows "\<exists>v'. handle_cli_side_cmd demo_junk (take 49 (words_of (remove1 DOLLAR (text_of m)))) v =
    Ok (v', snd (follow m (view_of v))) \<and> view_of v' = fst (follow m (view_of v))"
proof -
  have mute: "{x. contains (insert_key (mute_table (cli v)) n) x} = insert n {x. contains (mute_table (cli v)) x}"
    "{x. contains (remove_key (mute_table (cli v)) n) x} = {x. contains (mute_table (cli v)) x} - {n}" for n
    using mutes.has_add [OF assms(4)] mutes.has_del [OF assms(4)] by auto
  show ?thesis
  proof (cases m)
    case (Line ws)
    then have w: "\<forall>u \<in> set ws. is_word u \<and> length u < 20" "length ws \<le> 48" "length (unwords ws) < 300"
      "message_count v < length (messages v)"
      using assms(1-3) by (auto simp: words_fit_def view_of_def recorded_def)
    from say_handled [OF w(1-3) demo_junk_full(2) w(4)] recorded_more [OF w(4), of "unwords ws"] Line show ?thesis
      by (simp add: view_of_def)
  next
    case (Error_Text ws)
    with error_handled [of ws demo_junk v] assms(1) show ?thesis
      by (simp add: words_fit_def prompt_of_def prompt_def view_of_def)
  next
    case (Welcome n)
    with confirmation_handled [of n demo_junk v] assms(1) show ?thesis by (simp add: view_of_def recorded_def)
  next
    case (Mute_Echo n)
    with echo_handled [of n MUTE v] assms(1) mute show ?thesis
      by (simp add: execute_server_command_def mute_exec_def view_of_def recorded_def)
  next
    case (Unmute_Echo n)
    with echo_handled [of n UNMUTE v] assms(1) mute show ?thesis
      by (simp add: execute_server_command_def unmute_exec_def view_of_def recorded_def)
  next
    case (Rename_Echo n)
    with echo_handled [of n RENAME v] assms(1) show ?thesis
      by (simp add: execute_server_command_def rename_exec_def strcpy_def NAME_SIZE_def view_of_def recorded_def)
  next
    case Dismissal
    with dismissal_handled [OF demo_junk_full(1), of v] show ?thesis by (simp add: view_of_def recorded_def)
  next
    case Ping_Text
    with ping_handled [OF demo_junk_full(1), of v] show ?thesis by (simp add: execute_ping_def view_of_def)
  qed
qed

section \<open>Posts\<close>

text \<open>A text in a buffer of the server, and what lies behind its NUL.\<close>

datatype post = Post (content: server_text) (buffer_size: nat) (behind: bytes)

abbreviation arrival :: "sockaddr_in \<Rightarrow> sockaddr_in \<Rightarrow> post \<Rightarrow> recv_event" where
  "arrival S a p \<equiv> Received S (wire (behind p) (udp_socket_write a (text_of (content p)) (buffer_size p)))"

definition post_accepted :: "post \<Rightarrow> chat_view \<Rightarrow> bool" where
  "post_accepted p v \<longleftrightarrow> acceptable (content p) v \<and> length (text_of (content p)) < buffer_size p"

definition post_followed :: "post \<Rightarrow> chat_view \<Rightarrow> chat_view \<times> string list" where
  "post_followed p = follow (content p)"

definition client_rep :: "ui_action list \<Rightarrow> client_process \<Rightarrow> chat_view \<Rightarrow> bool" where
  "client_rep posted c v \<longleftrightarrow> client_inv c \<and> ready c \<and> outbox c = posted \<and> view_of (view c) = v"

lemma post_served:
  assumes "client_rep posted c v" and "post_accepted p v"
  shows "\<exists>c'. reacts client_act (arrival S a p) c c' \<and> client_rep posted c' (fst (post_followed p v)) \<and>
    screen c' = screen c @ snd (post_followed p v)"
proof -
  let ?u = "(view c)\<lparr>cli := (cli (view c))\<lparr>responder_addr := S\<rparr>\<rparr>"
  let ?d = "udp_socket_write a (text_of (content p)) (buffer_size p)"
  have c: "client_inv c" "ready c" "outbox c = posted" "v = view_of ?u"
    using assms(1) by (simp_all add: client_rep_def view_of_def recorded_def)
  then have inv: "length (messages ?u) = 100" "message_count ?u \<le> 100" "table_inv (mute_table (cli ?u))"
    by (simp_all add: client_inv_def chat_inv_def MAX_MSGS_def)
  have acc: "acceptable (content p) (view_of ?u)" "length (text_of (content p)) < buffer_size p"
    using assms(2) c(4) by (simp_all add: post_accepted_def)
  have d: "terminated ?d" "length (payload ?d) < 512" "payload ?d = text_of (content p)"
    using text_of_plain [OF acc(1)] acc(2) by simp_all
  from text_followed [OF acc(1) inv] obtain v' where v': "handle_cli_side_cmd demo_junk
      (take 49 (words_of (remove1 DOLLAR (payload ?d)))) ?u = Ok (v', snd (follow (content p) v))"
    "view_of v' = fst (follow (content p) v)" unfolding d(3) c(4) by blast
  from ready_executes [OF c(1,2) d(1,2) demo_junk_full(1) v'(1)] obtain c' where
    c': "reacts client_act (arrival S a p) c c'" "outbox c' = outbox c" "view c' = v'" "ready c'"
      "screen c' = screen c @ snd (follow (content p) v)" by blast
  with client_proc.steps_inv [OF reacts_acts [of client_act, OF c'(1)] c(1)] c(3) v'(2) show ?thesis
    by (intro exI [of _ c']) (simp add: client_rep_def post_followed_def)
qed

interpretation posts: serving client_act "arrival S a" "client_rep posted" post_accepted post_followed screen
  by unfold_locales (rule post_served)

lemma redraw_drawing: "redraw v = drawing (view_of v)"
  by (simp add: redraw_def drawing_def display_loop_eq view_of_def recorded_def prompt_of_def prompt_def NAME_SIZE_def)

text \<open>
  C30. The client shows what the server tells it. From every reachable state of the client in which it is at
  rest, every admissible sequence of the server's texts, in datagrams with whatever behind their NUL, has an
  execution, through the listener, the queue, the parser and the handler threads, in which the
  client hears these datagrams in their order and nothing else, sends nothing, prints just what
  belongs to each text, and is at rest again afterwards, with the lines, the hidden names, the connection state
  and the name that the texts add up to; and the next redraw shows exactly the lines whose
  senders are not hidden.
\<close>

theorem client_refines_view:
  assumes "reach client_init client_step c" and "ready c" and "admissible post_accepted post_followed (view_of (view c)) ps"
    and "spec_run post_followed (view_of (view c)) ps = (v, outs)"
  shows "\<exists>c'. hears client_act (map (\<lambda>p. Received S (wire (behind p) (udp_socket_write a (text_of (content p)) (buffer_size p)))) ps) c c' \<and>
    ready c' \<and> outbox c' = outbox c \<and> view_of (view c') = v \<and> screen c' = screen c @ concat outs \<and>
    redraw (view c') = drawing v"
proof -
  have "client_rep (outbox c) c (view_of (view c))"
    using client_proc.reach_inv [OF assms(1)] assms(2) by (simp add: client_rep_def)
  from posts.session [OF this assms(3), of S a] show ?thesis
    unfolding assms(4) client_rep_def redraw_drawing by auto
qed

theorem client_refines_view_witness:
  "\<exists>c. hears client_act [Received (peer 9) (wire [] (udp_socket_write (peer 1) ''connsuccess$ ann'' 256)),
      Received (peer 9) (wire [] (udp_socket_write (peer 1) ''say$ bob: hi'' 512)),
      Received (peer 9) (wire [] (udp_socket_write (peer 1) ''say$ eve: ho'' 512)),
      Received (peer 9) (wire [] (udp_socket_write (peer 1) ''mute$ bob'' 256))] idle_client c \<and>
    redraw (view c) = [clear_home, ''Chat Messages:'' @ [NL, NL], ''eve: ho'' @ [NL], NL # rule_line, ''[ann] > '']"
proof -
  let ?ps = "[Post (Welcome ''ann'') 256 [], Post (Line [''bob:'', ''hi'']) 512 [], Post (Line [''eve:'', ''ho'']) 512 [],
      Post (Mute_Echo ''bob'') 256 []]"
  let ?v = "view_of (view idle_client)"
  have v: "lines ?v = []" "hidden ?v = {}"
    using mutes.has_empty by (simp_all add: view_of_def recorded_def idle_client_def Let_def setup_client_def empty_table_def)
  have "admissible post_accepted post_followed ?v ?ps"
    using v by (simp add: post_accepted_def post_followed_def words_fit_def is_word_def)
  moreover have "\<exists>outs. spec_run post_followed ?v ?ps =
      (\<lparr>lines = [''bob: hi'', ''eve: ho''], hidden = {''bob''}, online = True, nick = ''ann''\<rparr>, outs)"
    using v by (cases ?v) (simp add: post_followed_def)
  then obtain outs where "spec_run post_followed ?v ?ps =
      (\<lparr>lines = [''bob: hi'', ''eve: ho''], hidden = {''bob''}, online = True, nick = ''ann''\<rparr>, outs)" by blast
  ultimately obtain c where c: "hears client_act (map (\<lambda>p. Received (peer 9) (wire (behind p)
      (udp_socket_write (peer 1) (text_of (content p)) (buffer_size p)))) ?ps) idle_client c"
    "redraw (view c) = drawing \<lparr>lines = [''bob: hi'', ''eve: ho''], hidden = {''bob''}, online = True, nick = ''ann''\<rparr>"
    using client_refines_view [OF idle_client_reach idle_client_ready] by blast
  have "extract_username ''bob: hi'' 20 = ''bob''" "extract_username ''eve: ho'' 20 = ''eve''"
    by (simp_all add: extract_username_def strchr_def cstr_def strlen_def Let_def)
  with c show ?thesis by (intro exI [of _ c]) (simp add: drawing_def prompt_of_def)
qed

end
