(* ===== verification/Spec2Isabelle.thy ===== *)
theory Spec2Isabelle
  imports Samples Server_Races Server_Guarded World_Requests Client_Session
begin

text \<open>
  A multithreaded chat over UDP, as a C program of two processes: the server
  (\<open>server_interface.c\<close>, \<open>server_types.h\<close>) and the client
  (\<open>client_interface.c\<close>, \<open>client_types.h\<close>), which share the UDP wrappers
  (\<open>udp.h\<close>), the command parser (\<open>cmd.h\<close>), and the message queue
  (\<open>queue.h\<close>); the client also has a mute table (\<open>custom_hash_table.h\<close>).

  \<^bold>\<open>How the parts work together.\<close> In each process a listener thread puts the
  datagrams it receives into a bounded queue, and a queue manager thread takes them out, cut into
  words, and parses the words into a command. The server starts a handler thread per command; the
  handlers share the linked list of clients, guarded by a reader-writer monitor, and the array of
  recorded lines, guarded by nothing. A connection manager thread pings clients that are silent and
  removes those that do not answer. The client starts a handler thread per command as well; the
  handlers share the recorded lines with the display thread, and one of two input threads turns what
  the user types into requests.

  \<^bold>\<open>Theories, and what they model.\<close>
  \<^item> \<open>Prelude\<close>: outcomes (\<open>'a res\<close>: a value or a fault; \<open>'a
    run\<close>: in addition \<open>None\<close>, the call never returns), reachability, the locales
    \<open>inductive_invariant\<close>, \<open>refinement\<close> and \<open>serving\<close>, list
    facts; runs with what they hear (\<open>reacts\<close>, \<open>hears\<close>).
  \<^item> \<open>Thread_Args\<close>: the argument structures of the threads, their setup functions,
    and which pointers the two \<open>main\<close> functions hand to which thread.
  \<^item> \<open>C_Strings\<close>: the string library on buffers (\<open>strncpy\<close>,
    \<open>strtok\<close>, \<open>strcat\<close> and so on) and the words of a text. The library
    functions are defined from the C standard.
  \<^item> \<open>Udp\<close>: \<open>udp.h\<close>. Addresses keep their byte order; the answers of
    the kernel are arguments.
  \<^item> \<open>Cmd\<close>: \<open>cmd.h\<close>. \<open>command_handler\<close> with its two loops
    and their closed form.
  \<^item> \<open>Queue\<close>: \<open>queue.h\<close>. The ring of raw buffers with its three
    indices; \<open>q_pop\<close> removes the dollar sign and cuts the message into tokens in place,
    and a token is an offset into the slot. The locale \<open>bounded_fifo\<close> is the contract,
    interpreted on the ring.
  \<^item> \<open>Hash_Table\<close>: \<open>custom_hash_table.h\<close>. Buckets of chains, the hash
    on 64-bit words; the locale \<open>name_set\<close> is the contract, interpreted on the table.
  \<^item> \<open>Monitor\<close>: the four routines of \<open>Monitor_t\<close> in
    \<open>server_types.h\<close>, and any number of threads that check in, sleep, are woken, retry
    and check out.
  \<^item> \<open>Client_List\<close>: the linked list of \<open>server_types.h\<close> on an explicit
    heap of nodes, with the head and tail pointers, and its refinement to a plain list.
  \<^item> \<open>Server\<close>: \<open>join_args\<close>, every request handler of
    \<open>server_interface.c\<close>, cut at the monitor's critical sections, and
    \<open>spawn_execute_command_threads\<close> run to the end (\<open>serve\<close>).
  \<^item> \<open>Chat_Room\<close>: the abstract server, a list of members and a log, and the proof
    that the heap server refines it on every valid request. \<open>Server_Properties\<close>: what
    each request does.
  \<^item> \<open>Connection_Manager\<close>: one turn of \<open>connection_manager\<close>; the clock
    is an argument.
  \<^item> \<open>Server_Threads\<close>: handler threads, the dispatching thread and the connection
    manager interleaved, one critical section or one access to unprotected memory at a time; the
    dispatcher, which walks through the list outside the monitor, one node at a time.
    \<open>Server_Races\<close>: the interleavings in which these threads break.
  \<^item> \<open>Server_Guarded\<close>: the same threads, which now have to pass the monitor for
    every section, and why a section may be taken as one step.
  \<^item> \<open>Server_Main\<close>: \<open>listener\<close>, \<open>queue_manager\<close>, the
    worker limit, \<open>setup\<close>, and the whole server process with its queue as a step
    relation. \<open>Server_Typing\<close>: the typing of that process.
    \<open>Server_Session\<close>: the process as an implementation of the chat room, by the locale
    \<open>serving\<close>.
  \<^item> \<open>Client\<close>: the client's state, the execution of every command the server sends,
    the screen, and the input threads. \<open>Client_Handlers\<close>: the client's handler threads
    step by step, with the mutex and the static buffer they share. \<open>Client_Threads\<close>:
    the whole client process as a step relation, with the display and the two input threads at their
    condition variables. \<open>Client_Waits\<close>: what their waiting and waking leads to.
    \<open>Client_Session\<close>: the process as an implementation of what its user is to see, by
    the locale \<open>serving\<close>.
  \<^item> \<open>Wire_Texts\<close>: the texts the programs exchange and how they survive sending,
    cutting and joining.
  \<^item> \<open>World\<close>: the closed world, in which one server process and any number of
    clients receive nothing that was not sent, over a network that may lose, repeat and reorder.
    \<open>World_Chat\<close> and \<open>World_Requests\<close>: what users bring about in it. The
    two processes are labelled transition systems (\<open>process_act\<close>,
    \<open>client_act\<close>), so that the world can say what a listener hears; alone they may hear
    anything.
  \<^item> \<open>Samples\<close>: the sample client and server, the helpers nothing calls, and
    \<open>red_black.c\<close>.
  \<^item> This theory: what holds between the two programs.

  \<^bold>\<open>State.\<close> \<open>Queue\<close>, \<open>Monitor_t\<close>,
  \<open>command_t\<close>, \<open>client_node\<close>, \<open>client_t\<close> and
  \<open>queue_manager_args_t\<close> are records with the fields of the C structures. Buffers whose
  bytes beyond the text matter (the receive buffers, the queue slots) are lists of bytes; fields
  only ever used as C strings are strings without their NUL. The heap of nodes is a partial map, and
  reading a null, freed or foreign pointer is a fault, as is writing behind an array.

  \<^bold>\<open>What the lemmas show.\<close> Component by component: the queue is first-in
  first-out, blocks exactly when full or empty, and never overwrites the message popped last (C12,
  C24, \<open>queue_blocking\<close>); the mute table is a set (C33); the monitor excludes (C11);
  the list operations are those of a plain list (C13) and stay so in every interleaving (C4); the
  server refines the chat room (C2), with the effect of each request
  (\<open>say_reaches_everyone\<close>, \<open>connect_joins\<close>, C37, C38) and the exact
  conditions of its crashes (C14); so does the whole process, from the datagram to the last reply of
  the handler thread (C3), and it is well typed in every reachable state (C20); a handler thread
  that runs alone does the same (C19), every step ends (C36), and four races break the server (C15,
  C16, C26, C27); threads that check in and out of the monitor reach the same states as those that
  take a section as one step (\<open>guarded_states_are_interleaved_states\<close>), and inside a
  section nobody else changes the list (C18), but one writer that had to wait keeps every reader out
  for good (C17); the connection manager's turns (\<open>connection_manager_turn_effect\<close>)
  remove silent clients (C23). The client, from the datagram to the screen, shows what the server
  tells it when its handlers run one after the other (C30); its screen hides what is muted (C28),
  and only the holder of the mutex records lines (C34); but two handlers that join texts at once
  break it (C29), and it overflows where nothing checks (C35,
  \<open>client_overflows_after_hundred_lines\<close>). Its keyboard is never dead (C22), but a line
  can stay unseen (C32), and a user can quit without the server being told (C31). Between the
  programs: requests arrive as they were typed (C25), and nothing the server ever sends harms a
  client that has room and executes one command at a time (C21). Even the sample client can join
  (\<open>sample_client_joins\<close>). In the closed world only texts travel (C10), anybody can
  join (C5), a line can reach everybody (C1), and so can a kick (C6); a user can mute (C7), rename
  (C9) and leave (C8). \<open>request_served\<close> says the same of any command a connected user
  types, as far as the server goes. These say that there is an execution, in which the datagrams in
  flight afterwards tell exactly what was sent; nobody can promise more over a network that loses
  datagrams.

  \<^bold>\<open>Loops, bounds and fuel.\<close> Loops over pointers are \<open>partial_function
  (option)\<close>: they return on every list that is not cyclic, and C36 states it for every
  reachable state. Loops over arrays end by their index and carry a measure.
  \<open>run_thread\<close> has fuel eighteen, one step for each of at most fifteen recorded lines a
  newcomer is sent and three more, and C19 is proved for that fuel; \<open>run_cthread\<close> needs
  106, for fifty arguments joined with two steps each. No other bound is assumed: numbers of
  threads, clients and requests are arbitrary.

  \<^bold>\<open>Assumed of the environment.\<close> \<open>malloc\<close> succeeds with a block that
  is not in use; a write to a socket sends its datagram or not, and the caller only prints which;
  the clock is any integer. \<open>unsigned long\<close> has 64 bits, \<open>char\<close> is signed,
  and the machine is little-endian. Memory that \<open>malloc\<close> leaves uninitialised is
  arbitrary, except that rows of a fresh \<open>command_t\<close> are taken to hold a NUL when they
  are read as strings. The name of a client that was never connected may hold no NUL: what is read
  as its name is then any string, of any length.

  \<^bold>\<open>Faults.\<close> A fault ends the run of the model: no step follows it. The C program
  has undefined behaviour there and may go on with overwritten memory. So what is said of all
  reachable states is said of runs up to the first fault. In particular nothing in the code tests
  \<open>message_count\<close> before a line is stored; the number stays within the array in the
  model because the store of line 101 is the fault \<open>BufferOverflow\<close>. A read through a
  null pointer is a fault; only the address of a field of a null \<open>from_who\<close> that
  \<open>sayto\<close> hands to the kernel is taken to be refused with \<open>EFAULT\<close>,
  nothing being sent.

  \<^bold>\<open>Grain.\<close> A critical section, with its check-out, is one step of the thread. C18
  shows that between check-in and check-out the monitor keeps everybody else from the list, so that
  sections cannot tell the difference. Code that reads the list outside the monitor, the
  dispatcher's walk and the threads that keep a pointer, could in C also meet a section half way;
  such runs are not in the model.

  \<^bold>\<open>Not modelled.\<close> Debug and progress output; sleeps, which only delay; the
  freeing of argument blocks and of popped commands; the pool mutex and condition that are
  initialised and locked around the worker count only; accesses to unprotected memory finer than one
  read or write of a variable or one \<open>strcat\<close>; and the structure
  \<open>muted_namelist_t\<close>, which nothing uses.
\<close>

section \<open>Properties across the two programs\<close>

text \<open>
  A chat line survives the whole way. A connected user whose name is a word of at most 18
  characters types \<open>say$\<close> and some words, at most 47, none longer than 19 characters, 254 in all.
  The command the server parses from that text makes it send every connected client a datagram
  from whose text the client's handler records exactly \<open>name: words\<close>, the same line that the
  server adds to its history, and from which the name is recovered for muting.
\<close>

lemma chat_line_end_to_end:
  assumes "server_rep st r" and "room_ok r" and "find (by_address from) (members r) = Some c"
    and "is_word (client_name c)" and "length (client_name c) < 19" and "CHR '':'' \<notin> set (client_name c)"
    and "\<forall>w \<in> set ws. is_word w \<and> length w < 20" and "ws \<noteq> []" and "length ws < 48" and "length (unwords ws) < 255"
    and "well_formed_command junk" and "chat_inv v" and "message_count v < 100" and "length (log r) < 100"
    and "line = client_name c @ '': '' @ unwords ws"
  shows "\<exists>st' r' ds. serve p now (request_of (words_of (remove1 DOLLAR (''say$ '' @ unwords ws)))) from st = Some (Ok (st', ds))
    \<and> map to_addr ds = map client_address (members r)
    \<and> server_rep st' r' \<and> log r' = log r @ [line]
    \<and> (\<forall>d \<in> set ds. handle_cli_side_cmd junk (take 49 (words_of (remove1 DOLLAR (payload d)))) v =
         Ok (v\<lparr>messages := (messages v)[message_count v := line], message_count := message_count v + 1\<rparr>, []))
    \<and> extract_username line 20 = client_name c"
proof -
  let ?cmd = "request_of (words_of (remove1 DOLLAR (''say$ '' @ unwords ws)))"
  note cmd = request_of_say [OF assms(7)] and len = assms(9)
  have c48: "length ws \<le> 48" using len by simp
  have k: "kind ?cmd = SAY" using cmd(1) [OF c48] by simp
  have m: "message_of 0 ?cmd = unwords ws" by (rule say_message [OF assms(7,8) c48 assms(10)])
  from say_effect [OF assms(1,2) cmd(2) [OF c48] k assms(3), of p now] obtain st' r' where s:
    "serve p now ?cmd from st = Some (Ok (st', map (\<lambda>m. udp_socket_write (client_address m)
        (''say$ '' @ line) RESPONSE_BUFFER_SIZE) (members r)))"
    "server_rep st' r'" "log r' = log r @ [line]"
    using assms(14) unfolding m assms(15) by auto
  let ?n = "client_name c @ '':''"
  have nw: "is_word ?n" using assms(4) by (simp add: is_word_def)
  have all: "\<forall>w \<in> set (?n # ws). is_word w \<and> length w < 20" using assms(5,7) nw by simp
  have line: "line = unwords (?n # ws)" unfolding assms(15) unwords_ne [OF assms(8)] by simp
  have c49: "length (?n # ws) \<le> 48" using len by simp
  have ll: "length line < 300" using assms(5,10,15) by simp
  have "length (args junk) = MAX_CMD_SIZE" "message_count v < length (messages v)"
    using assms(11-13) by (simp_all add: well_formed_command_def chat_inv_def MAX_MSGS_def)
  from say_handled [OF all c49 _ this] ll
  have h: "handle_cli_side_cmd junk (take 49 (words_of (remove1 DOLLAR (''say$ '' @ line)))) v =
      Ok (v\<lparr>messages := (messages v)[message_count v := line], message_count := message_count v + 1\<rparr>, [])"
    unfolding line by blast
  have e: "extract_username line 20 = client_name c"
    unfolding assms(15) by (rule extract_sender) (use assms(4-6) in auto)
  show ?thesis
    using s h e by (intro exI [of _ st'] exI [of _ r'] exI [of _ "map (\<lambda>m. udp_socket_write (client_address m)
        (''say$ '' @ line) RESPONSE_BUFFER_SIZE) (members r)"]) (auto simp: comp_def)
qed

lemma demo_words [simp]: "is_word ''good''" "is_word ''day''" "is_word ''bob''" "is_word ''eve''"
  by (simp_all add: is_word_def)

lemma chat_line_end_to_end_instance:
  "\<exists>st' ds. serve 0 300 (request_of (words_of (remove1 DOLLAR ''say$ good day''))) (peer 2) (demo_server ''ann'' ''bob'' []) =
      Some (Ok (st', ds)) \<and> map to_addr ds = [peer 1, peer 2] \<and>
    (\<forall>d \<in> set ds. handle_cli_side_cmd demo_junk (take 49 (words_of (remove1 DOLLAR (payload d)))) demo_chat =
       Ok (demo_chat\<lparr>messages := ''bob: good day'' # replicate 99 '''', message_count := 1\<rparr>, []))"
proof -
  let ?c = "\<lparr>client_address = peer 2, client_name = ''bob'', last_active = 200, ping_sent = 0\<rparr>"
  have f: "find (by_address (peer 2)) (members (demo_room ''ann'' ''bob'' [])) = Some ?c"
    by (simp add: by_address_def)
  have upd: "(replicate 100 '''')[0 := x] = x # replicate 99 ''''" for x :: string
  proof -
    have "replicate 100 ('''' :: string) = '''' # replicate 99 ''''" by (simp flip: replicate_Suc)
    then show ?thesis by simp
  qed
  have w: "unwords [''good'', ''day''] = ''good day''" by simp
  have line: "''bob: good day'' = client_name ?c @ '': '' @ unwords [''good'', ''day'']" by simp
  have m: "messages demo_chat = replicate 100 ''''" by (simp add: demo_chat_def)
  have "\<exists>st' r' ds. serve 0 300 (request_of (words_of (remove1 DOLLAR (''say$ '' @ unwords [''good'', ''day''])))) (peer 2)
      (demo_server ''ann'' ''bob'' []) = Some (Ok (st', ds))
    \<and> map to_addr ds = map client_address (members (demo_room ''ann'' ''bob'' []))
    \<and> server_rep st' r' \<and> log r' = log (demo_room ''ann'' ''bob'' []) @ [''bob: good day'']
    \<and> (\<forall>d \<in> set ds. handle_cli_side_cmd demo_junk (take 49 (words_of (remove1 DOLLAR (payload d)))) demo_chat =
         Ok (demo_chat\<lparr>messages := (messages demo_chat)[message_count demo_chat := ''bob: good day''],
                       message_count := message_count demo_chat + 1\<rparr>, []))
    \<and> extract_username ''bob: good day'' 20 = client_name ?c"
    by (rule chat_line_end_to_end [OF demo_rep _ f _ _ _ _ _ _ _ demo_junk_full(1) demo_chat_inv _ _ line]) simp_all
  then obtain st' ds where s: "serve 0 300 (request_of (words_of (remove1 DOLLAR ''say$ good day''))) (peer 2)
      (demo_server ''ann'' ''bob'' []) = Some (Ok (st', ds))"
    "map to_addr ds = map client_address (members (demo_room ''ann'' ''bob'' []))"
    "\<forall>d \<in> set ds. handle_cli_side_cmd demo_junk (take 49 (words_of (remove1 DOLLAR (payload d)))) demo_chat =
         Ok (demo_chat\<lparr>messages := (messages demo_chat)[message_count demo_chat := ''bob: good day''],
                       message_count := message_count demo_chat + 1\<rparr>, [])"
    unfolding w by auto
  then show ?thesis by (intro exI [of _ st'] exI [of _ ds]) (simp add: m upd del: words_of.simps)
qed

text \<open>
  A name of the full 19 characters cannot be muted. Together with its colon it no longer
  fits the client's row, the colon is cut off, and the sender is not recognised: the line is on
  the screen whatever names are muted, unless the empty name is.
\<close>

lemma long_name_cannot_be_muted:
  assumes "is_word n" and "length n = 19" and "CHR '':'' \<notin> set n"
    and "\<forall>w \<in> set ws. is_word w \<and> length w < 20 \<and> CHR '':'' \<notin> set w" and "ws \<noteq> []" and "length ws < 48"
    and "length (unwords ws) < 255" and "well_formed_command junk" and "chat_inv v" and "message_count v < 100"
    and "\<not> contains table ''''"
  shows "\<exists>v'. handle_cli_side_cmd junk (take 49 (words_of (remove1 DOLLAR (''say$ '' @ n @ '': '' @ unwords ws)))) v = Ok (v', [])
    \<and> n @ '' '' @ unwords ws @ [NL] \<in> set (redraw (v'\<lparr>cli := (cli v')\<lparr>mute_table := table\<rparr>\<rparr>))"
proof -
  let ?line = "n @ '' '' @ unwords ws"
  have words: "words_of (unwords ws) = ws" using assms(4) by (intro words_of_unwords) (auto simp: is_word_def)
  have nn: "no_nul (unwords ws)"
    using assms(4) by (induction ws rule: unwords.induct) (auto simp: is_word_def)
  have wb: "words_of (n @ '': '' @ unwords ws) = (n @ '':'') # ws"
    using words_of_word_cons [of "n @ '':''" "unwords ws"] assms(1) words by (simp add: is_word_def)
  have cut: "map (take 19) ws = ws" using assms(4) by (intro map_idI) auto
  have tn: "take 19 (n @ '':'') = n" using assms(2) by simp
  let ?rows = "(n # ws) @ replicate (MAX_CMD_SIZE - length (n # ws)) ''''"
  have "command_handler junk (Some (take 49 (keyword SAY # words_of (n @ '': '' @ unwords ws)))) =
      \<lparr>kind = SAY, args = ?rows\<rparr>"
    using client_command [OF assms(8), of "n @ '': '' @ unwords ws" SAY] assms(1,6) nn tn cut
    unfolding wb by (simp add: is_word_def MAX_CMD_SIZE_def)
  then have c: "command_handler junk (Some (take 49 (words_of (remove1 DOLLAR (''say$ '' @ n @ '': '' @ unwords ws))))) =
      \<lparr>kind = SAY, args = ?rows\<rparr>"
    using message_words(1) [OF keyword_word, of SAY "n @ '': '' @ unwords ws"] by simp
  have j: "join ?rows = Ok ?line"
    using say_join [of "n # ws"] assms(1,2,4,5,6,7) unwords_ne [OF assms(5), of n] by simp
  let ?v = "v\<lparr>messages := (messages v)[message_count v := ?line], message_count := message_count v + 1\<rparr>"
  have h: "handle_cli_side_cmd junk (take 49 (words_of (remove1 DOLLAR (''say$ '' @ n @ '': '' @ unwords ws)))) v = Ok (?v, [])"
    unfolding handle_cli_side_cmd_def c
    using j assms(2,7,9,10) by (simp add: execute_server_command_def say_exec_def strcpy_def MAX_LEN_def chat_inv_def MAX_MSGS_def)
  have "CHR '':'' \<notin> set (unwords ws)"
    using assms(4) by (induction ws rule: unwords.induct) auto
  then have "CHR '':'' \<notin> set (cstr ?line)" using assms(3) by (auto simp: cstr_def dest: set_takeWhileD)
  then have "extract_username ?line NAME_SIZE = ''''"
    by (simp add: extract_username_def strchr_def strlen_def takeWhile_noop)
  moreover have "?line \<in> set (take (message_count v + 1) ((messages v)[message_count v := ?line]))"
  proof -
    have "message_count v < length (messages v)" using assms(9,10) by (simp add: chat_inv_def MAX_MSGS_def)
    then show ?thesis by (simp add: take_Suc_conv_app_nth)
  qed
  ultimately have "?line @ [NL] \<in> set (redraw (?v\<lparr>cli := (cli ?v)\<lparr>mute_table := table\<rparr>\<rparr>))"
    using assms(11) by (auto simp: redraw_def display_loop_eq)
  with h show ?thesis by (intro exI [of _ ?v]) simp
qed

lemma long_name_cannot_be_muted_instance:
  "\<exists>v'. handle_cli_side_cmd demo_junk (take 49 (words_of (remove1 DOLLAR ''say$ abcdefghijklmnopqrs: good day''))) demo_chat = Ok (v', [])
    \<and> ''abcdefghijklmnopqrs good day'' @ [NL] \<in>
        set (redraw (v'\<lparr>cli := (cli v')\<lparr>mute_table := insert_key empty_table ''abcdefghijklmnopqrs''\<rparr>\<rparr>))"
proof -
  have "\<not> contains (insert_key empty_table ''abcdefghijklmnopqrs'') ''''"
    using mutes.has_add [OF table_inv_empty] mutes.has_empty by auto
  from long_name_cannot_be_muted [OF _ _ _ _ _ _ _ demo_junk_full(1) demo_chat_inv _ this, of "''abcdefghijklmnopqrs''" "[''good'', ''day'']"]
  show ?thesis by (simp add: is_word_def)
qed

text \<open>
  Muting goes through the server and back: the text \<open>mute$ name\<close> or \<open>unmute$ name\<close> that a user
  types makes the server send one datagram, to that user alone, whose execution by the client
  adds that name to the muted ones, or takes it out, and changes nothing else.
\<close>

lemma mute_round_trip:
  assumes "server_rep st r" and "is_word n" and "length n < 20" and "k = MUTE \<or> k = UNMUTE"
    and "well_formed_command junk" and "chat_inv v"
  shows "\<exists>st' d v'. serve p now (request_of (words_of (remove1 DOLLAR (keyword k @ ''$ '' @ n)))) from st = Some (Ok (st', [d]))
    \<and> to_addr d = from
    \<and> handle_cli_side_cmd junk (take 49 (words_of (remove1 DOLLAR (payload d)))) v = Ok (v', [])
    \<and> (\<forall>name. contains (mute_table (cli v')) name \<longleftrightarrow>
         (if name = n then k = MUTE else contains (mute_table (cli v)) name))
    \<and> messages v' = messages v \<and> message_count v' = message_count v"
proof -
  let ?cmd = "request_of (words_of (remove1 DOLLAR (keyword k @ ''$ '' @ n)))"
  have wn: "words_of n = [n]" using assms(2) by (intro words_of_word_end) (auto simp: is_word_def)
  have w: "words_of (remove1 DOLLAR (keyword k @ ''$ '' @ n)) = [keyword k, n]"
    unfolding message_words(1) [OF keyword_word] wn ..
  have cmd: "?cmd = \<lparr>kind = k, args = n # replicate (MAX_CMD_SIZE - 1) ''''\<rparr>"
    unfolding w using assms(3) by (simp add: request_of_def NAME_SIZE_def MAX_COMMAND_LEN_def)
  have full: "well_formed_command ?cmd"
    unfolding cmd using assms(2,3) by (simp add: well_formed_command_def is_word_def NAME_SIZE_def MAX_CMD_SIZE_def)
  have kk: "kind ?cmd = k" unfolding cmd by simp
  have "valid_request p ?cmd from st r" unfolding valid_request_def kk using full assms(4) by auto
  from serve_refines [OF assms(1) this, of now] obtain st' where
    st': "serve p now ?cmd from st = Some (Ok (st', snd (room_serve now ?cmd from r)))" by blast
  have out: "snd (room_serve now ?cmd from r) = [udp_socket_write from (keyword k @ ''$ '' @ n) MAX_MESSAGE]"
    unfolding cmd using assms(3,4)
    by (auto simp: room_serve_def room_handle_def mute_def unmute_def arg_def snprintf_def MAX_MESSAGE_def)
  have len: "length (args junk) = MAX_CMD_SIZE" using assms(5) by (simp add: well_formed_command_def)
  have c: "command_handler junk (Some (take 49 (words_of (remove1 DOLLAR (keyword k @ ''$ '' @ n))))) =
      \<lparr>kind = k, args = n # replicate (MAX_CMD_SIZE - 1) ''''\<rparr>"
    unfolding w using assms(3) by (simp add: command_handler_closed [OF len] NAME_SIZE_def MAX_CMD_SIZE_def)
  let ?t = "if k = MUTE then insert_key (mute_table (cli v)) n else remove_key (mute_table (cli v)) n"
  let ?v = "v\<lparr>cli := (cli v)\<lparr>mute_table := ?t\<rparr>\<rparr>"
  have h: "handle_cli_side_cmd junk (take 49 (words_of (remove1 DOLLAR (keyword k @ ''$ '' @ n)))) v = Ok (?v, [])"
    unfolding handle_cli_side_cmd_def c using assms(4)
    by (auto simp: execute_server_command_def mute_exec_def unmute_exec_def)
  have t: "table_inv (mute_table (cli v))" using assms(6) by (simp add: chat_inv_def)
  have "contains ?t name \<longleftrightarrow> (if name = n then k = MUTE else contains (mute_table (cli v)) name)" for name
    using mutes.has_add [OF t] mutes.has_del [OF t] assms(4) by auto
  with st' out h show ?thesis
    by (intro exI [of _ st'] exI [of _ "udp_socket_write from (keyword k @ ''$ '' @ n) MAX_MESSAGE"] exI [of _ ?v]) simp
qed

lemma mute_round_trip_instance:
  "\<exists>st' d v'. serve 0 300 (request_of (words_of (remove1 DOLLAR ''mute$ bob''))) (peer 1) (demo_server ''ann'' ''bob'' []) = Some (Ok (st', [d]))
    \<and> handle_cli_side_cmd demo_junk (take 49 (words_of (remove1 DOLLAR (payload d)))) demo_chat = Ok (v', [])
    \<and> contains (mute_table (cli v')) ''bob''"
  using mute_round_trip [OF demo_rep, of "[]" "''bob''" MUTE demo_junk demo_chat 0 300 "peer 1" "''ann''" "''bob''"]
  by auto

end
